(* ===== verification/Prelude.thy ===== *)
theory Prelude
  imports Main "HOL-Library.Word"
begin

text \<open>
  Shared ground of the development: the C++ integer types of the program as fixed-width
  words, the error values that stand for its exceptions and for undefined behaviour, the
  sequencing of fallible operations, and the generic facts on words, lists and vectors
  that the component theories share.
\<close>

unbundle bit_operations_syntax

section \<open>Machine types\<close>

text \<open>
  The program runs on a platform with a 64-bit \<open>size_t\<close>. Signed values are words that are
  read with \<^const>\<open>sint\<close>. A \<open>std::string\<close> is a list of bytes.
\<close>

type_synonym uint8 = "8 word"
type_synonym uint16 = "16 word"
type_synonym uint32 = "32 word"
type_synonym int32 = "32 word"
type_synonym uint64 = "64 word"
type_synonym size_t = "64 word"
type_synonym bytes = "uint8 list"

text \<open>\<open>std::string::size()\<close> and \<open>std::vector::size()\<close>.\<close>

abbreviation size_of :: "'a list \<Rightarrow> size_t" where
  "size_of xs \<equiv> of_nat (length xs)"

text \<open>The width written out: no container of the program can be this long.\<close>

abbreviation size_limit :: nat where
  "size_limit \<equiv> 2 ^ 64"

section \<open>Errors\<close>

text \<open>
  What an operation can end with instead of a value: the exceptions that the sources throw,
  and reads or writes that the language leaves undefined.
\<close>

datatype cpp_error =
    Runtime_Error string
  | Out_Of_Range string
  | Length_Error string
  | Invalid_Argument string
  | System_Error string int
  | Bad_Optional_Access
  | Undefined_Behaviour string

type_synonym 'a result = "cpp_error + 'a"

definition bind_res :: "'a result \<Rightarrow> ('a \<Rightarrow> 'b result) \<Rightarrow> 'b result" where
  "bind_res m f = (case m of Inl e \<Rightarrow> Inl e | Inr x \<Rightarrow> f x)"

text \<open>In runs, what follows is evaluated when the operation has returned, and not before.\<close>

declare bind_res_def [code_unfold]

named_theorems res_simps \<open>sequencing of fallible operations\<close>
named_theorems word_nat \<open>reading words as natural numbers\<close>
named_theorems invar_intros \<open>operations keep the invariant of their component\<close>

lemma bind_res_simps [simp, res_simps]:
  "bind_res (Inl e) f = Inl e"
  "bind_res (Inr x) f = f x"
  by (simp_all add: bind_res_def)

lemma bind_res_eq_Inr [res_simps]:
  "bind_res m f = Inr y \<longleftrightarrow> (\<exists>x. m = Inr x \<and> f x = Inr y)"
  by (cases m) simp_all

lemma bind_res_eq_Inl [res_simps]:
  "bind_res m f = Inl e \<longleftrightarrow> m = Inl e \<or> (\<exists>x. m = Inr x \<and> f x = Inl e)"
  by (cases m) simp_all

lemma bind_resE [elim]:
  assumes "bind_res m f = Inr y"
  obtains x where "m = Inr x" and "f x = Inr y"
  using assms by (auto simp: bind_res_eq_Inr)

lemma bind_res_assoc: "bind_res (bind_res m f) g = bind_res m (\<lambda>x. bind_res (f x) g)"
  by (cases m) simp_all

lemma bind_res_cong [fundef_cong]:
  "m = m' \<Longrightarrow> (\<And>x. m' = Inr x \<Longrightarrow> f x = g x) \<Longrightarrow> bind_res m f = bind_res m' g"
  by (cases m') simp_all

lemma bind_res_Inr_right [simp]: "bind_res m Inr = m"
  by (cases m) simp_all

section \<open>Words read as natural numbers\<close>

lemma unat_plus_no_wrap [word_nat]:
  fixes a b :: "'a::len word"
  assumes "unat a + unat b < 2 ^ LENGTH('a)"
  shows "unat (a + b) = unat a + unat b"
  using assms by (simp add: unat_word_ariths)

lemma unat_plus_one [word_nat]:
  fixes x y :: "'a::len word"
  assumes "x < y"
  shows "unat (x + 1) = Suc (unat x)"
proof -
  have "unat x < unat y" using assms by (simp add: word_less_nat_alt)
  also have "unat y < 2 ^ LENGTH('a)" by (rule unsigned_less)
  finally have "unat x + unat (1 :: 'a word) < 2 ^ LENGTH('a)"
    using \<open>unat x < unat y\<close> unsigned_less [of y, where 'a = nat] by (simp only: unat_1)
  then show ?thesis by (simp add: unat_plus_no_wrap)
qed

lemma unat_minus_no_wrap [word_nat]:
  fixes a b :: "'a::len word"
  assumes "unat b \<le> unat a"
  shows "unat (a - b) = unat a - unat b"
  using assms by (simp add: unat_sub word_le_nat_alt)

lemma unat_of_nat_less [word_nat]:
  "n < 2 ^ LENGTH('a) \<Longrightarrow> unat (of_nat n :: 'a::len word) = n"
  by (simp add: unat_of_nat take_bit_nat_eq_self)

lemma unat_size_of [word_nat]:
  "length xs < size_limit \<Longrightarrow> unat (size_of xs) = length xs"
  by (rule unat_of_nat_less) simp

lemma unat_less_size_limit: "unat (x :: size_t) < size_limit"
  using unsigned_less [of x, where 'a = nat] by simp

lemma unat_less_size_limit_numeral [simp]: "unat (x :: size_t) < 18446744073709551616"
  using unat_less_size_limit [of x] by simp

lemma unat_uminus:
  fixes x :: "'a::len word"
  assumes "x \<noteq> 0"
  shows "unat (- x) = 2 ^ LENGTH('a) - unat x"
proof -
  let ?m = "2 ^ LENGTH('a) :: nat"
  have "(unat x + unat (- x)) mod ?m = 0" using unat_word_ariths(1) [of x "- x"] by simp
  moreover have "unat x < ?m" "unat (- x) < ?m" "0 < unat x"
    using assms by (simp_all add: unsigned_less unat_gt_0)
  ultimately have "unat x + unat (- x) = ?m"
    by (cases "unat x + unat (- x) < ?m") (simp_all add: mod_if [of "unat x + unat (- x)"] split: if_splits)
  then show ?thesis by simp
qed

lemma unat_eqD: "unat a = unat b \<Longrightarrow> a = (b :: 'a::len word)"
  by (simp add: word_unat_eq_iff)

section \<open>Vectors\<close>

text \<open>
  \<open>std::vector::resize(n, x)\<close> and \<open>std::string::resize(n)\<close>: cut to the first \<open>n\<close> elements, or
  pad with \<open>x\<close>.
\<close>

definition vec_resize :: "nat \<Rightarrow> 'a \<Rightarrow> 'a list \<Rightarrow> 'a list" where
  "vec_resize n x v = take n v @ replicate (n - length v) x"

lemma length_vec_resize [simp]: "length (vec_resize n x v) = n"
  by (simp add: vec_resize_def)

lemma nth_vec_resize:
  "i < n \<Longrightarrow> vec_resize n x v ! i = (if i < length v then v ! i else x)"
  by (auto simp: vec_resize_def nth_append)

lemma vec_resize_same [simp]: "vec_resize (length v) x v = v"
  by (simp add: vec_resize_def)

text \<open>\<open>std::string::substr(from, len)\<close>, for \<open>from\<close> inside the string.\<close>

definition substr :: "nat \<Rightarrow> nat \<Rightarrow> 'a list \<Rightarrow> 'a list" where
  "substr from len xs = take len (drop from xs)"

lemma length_substr: "length (substr from len xs) = min len (length xs - from)"
  by (auto simp: substr_def)

lemma nth_substr: "i < length (substr from len xs) \<Longrightarrow> substr from len xs ! i = xs ! (from + i)"
  by (auto simp: substr_def)

lemma take_append_substr: "take n xs @ substr n k xs = take (n + k) xs"
  by (simp add: substr_def take_add)

end
