(* ===== verification/Wrapping_Integers.thy ===== *)
theory Wrapping_Integers
  imports Prelude
begin

text \<open>
  Sequence numbers (src/libsponge/wrapping_integers.hh and .cc): 32-bit values relative to an
  initial sequence number, and their translation to and from absolute 64-bit stream positions.
  \<open>unwrap\<close> is compared with its documented contract, the closest absolute position; the
  interface that the sender and the receiver rely on is the locale \<open>sequence_space\<close>.
\<close>

section \<open>The class and its operators\<close>

datatype WrappingInt32 = WrappingInt32 (raw_value: uint32)

text \<open>\<open>operator-\<close> on two values is a signed 32-bit offset; \<open>operator+\<close> and the second \<open>operator-\<close>
  step forward and backward.\<close>

definition wint_diff :: "WrappingInt32 \<Rightarrow> WrappingInt32 \<Rightarrow> int32" where
  "wint_diff a b = raw_value a - raw_value b"

definition wint_eq :: "WrappingInt32 \<Rightarrow> WrappingInt32 \<Rightarrow> bool" where
  "wint_eq a b \<longleftrightarrow> raw_value a = raw_value b"

definition wint_neq :: "WrappingInt32 \<Rightarrow> WrappingInt32 \<Rightarrow> bool" where
  "wint_neq a b \<longleftrightarrow> \<not> wint_eq a b"

definition wint_plus :: "WrappingInt32 \<Rightarrow> uint32 \<Rightarrow> WrappingInt32" where
  "wint_plus a b = WrappingInt32 (raw_value a + b)"

definition wint_minus :: "WrappingInt32 \<Rightarrow> uint32 \<Rightarrow> WrappingInt32" where
  "wint_minus a b = wint_plus a (- b)"

definition wrap :: "uint64 \<Rightarrow> WrappingInt32 \<Rightarrow> WrappingInt32" where
  "wrap n isn = WrappingInt32 (ucast (n + ucast (raw_value isn)))"

definition unwrap :: "WrappingInt32 \<Rightarrow> WrappingInt32 \<Rightarrow> uint64 \<Rightarrow> uint64" where
  "unwrap n isn checkpoint =
     (let out = ucast (wint_diff n isn) + push_bit 32 (drop_bit 32 checkpoint)
      in if out < checkpoint then
           (if checkpoint - out > push_bit 31 1 \<and> drop_bit 32 checkpoint < push_bit 32 1 - 1
            then out + push_bit 32 1 else out)
         else
           (if out - checkpoint > push_bit 31 1 \<and> drop_bit 32 checkpoint > 1
            then out - push_bit 32 1 else out))"

text \<open>Runs of the model divide and multiply instead of shifting bit by bit.\<close>

lemma unwrap_code [code]:
  "unwrap n isn checkpoint =
     (let high = checkpoint div 0x100000000; out = ucast (wint_diff n isn) + high * 0x100000000
      in if out < checkpoint
         then if checkpoint - out > 0x80000000 \<and> high < 0xffffffff then out + 0x100000000 else out
         else if out - checkpoint > 0x80000000 \<and> high > 1 then out - 0x100000000 else out)"
  by (simp add: unwrap_def Let_def push_bit_eq_mult drop_bit_eq_div)

section \<open>Reading the operations over the natural numbers\<close>

lemma wint_eq_iff [simp]: "wint_eq a b \<longleftrightarrow> a = b"
  by (cases a; cases b) (simp add: wint_eq_def)

lemma unat_ucast_32_64 [simp]: "unat (ucast (w :: uint32) :: uint64) = unat w"
proof -
  have "unat w < 2 ^ 64" using unsigned_less [of w, where 'a = nat] by simp
  then show ?thesis by (simp add: unsigned_ucast_eq take_bit_nat_eq_self)
qed

lemma unat_ucast_64_32: "unat (ucast (w :: uint64) :: uint32) = unat w mod 2 ^ 32"
  by (simp add: unsigned_ucast_eq take_bit_eq_mod)

text \<open>The mathematical reading of \<open>wrap\<close>: the truncation to 32 bits absorbs the one to 64.\<close>

lemma wrap_of_nat: "wrap n isn = WrappingInt32 (of_nat (unat n) + raw_value isn)"
proof -
  have "unat (n + ucast (raw_value isn)) mod 2 ^ 32
      = ((unat n + unat (raw_value isn)) mod 2 ^ 64) mod 2 ^ 32"
    by (simp add: unat_word_ariths)
  also have "\<dots> = (unat n + unat (raw_value isn)) mod 2 ^ 32"
    by (rule mod_mod_cancel) (simp add: le_imp_power_dvd)
  finally have "unat (ucast (n + ucast (raw_value isn)) :: uint32)
      = (unat n + unat (raw_value isn)) mod 2 ^ 32"
    by (simp only: unat_ucast_64_32)
  then have "ucast (n + ucast (raw_value isn)) = of_nat (unat n) + raw_value isn"
    by (intro unat_eqD)
      (simp add: unat_word_ariths unat_ucast_64_32 mod_simps)
  then show ?thesis by (simp add: wrap_def)
qed

text \<open>The offset of a wrapped value from the initial sequence number is the position modulo \<open>2^32\<close>.\<close>

lemma wrap_zero [simp]: "wrap 0 isn = isn"
  by (simp add: wrap_of_nat)

lemma wint_diff_wrap: "unat (wint_diff (wrap n isn) isn) = unat n mod 2 ^ 32"
  by (simp add: wint_diff_def wrap_of_nat unat_ucast_64_32)

lemma wrap_eq_iff: "wrap n isn = s \<longleftrightarrow> unat n mod 2 ^ 32 = unat (wint_diff s isn)"
proof
  assume "unat n mod 2 ^ 32 = unat (wint_diff s isn)"
  then have "unat (of_nat (unat n) :: uint32) = unat (wint_diff s isn)"
    by (simp add: unat_ucast_64_32)
  then have "of_nat (unat n) = wint_diff s isn" by (rule unat_eqD)
  then show "wrap n isn = s" by (cases s) (simp add: wrap_of_nat wint_diff_def)
qed (auto simp: wint_diff_wrap)

text \<open>
  The value \<open>unwrap\<close> computes, over the natural numbers: with \<open>h\<close> and \<open>l\<close> the high and low halves
  of the checkpoint and \<open>d\<close> the offset of the sequence number.
\<close>

definition unwrap_nat :: "nat \<Rightarrow> nat \<Rightarrow> nat \<Rightarrow> nat" where
  "unwrap_nat d h l =
     (if d < l then (if l - d > 2 ^ 31 \<and> h < 2 ^ 32 - 1 then h * 2 ^ 32 + d + 2 ^ 32 else h * 2 ^ 32 + d)
      else (if d - l > 2 ^ 31 \<and> h > 1 then h * 2 ^ 32 + d - 2 ^ 32 else h * 2 ^ 32 + d))"

lemma unat_high_part:
  "unat (push_bit 32 (drop_bit 32 (c :: uint64))) = unat c div 2 ^ 32 * 2 ^ 32"
proof -
  have "push_bit 32 (drop_bit 32 c) = c - take_bit 32 c"
    by (metis add_diff_cancel_right' bits_ident)
  moreover have "unat (take_bit 32 c) = unat c mod 2 ^ 32"
    by (simp add: unat_mod_distrib take_bit_eq_mod)
  ultimately show ?thesis
    by (simp add: unat_minus_no_wrap minus_mod_eq_div_mult)
qed

lemma unat_high_half: "unat (drop_bit 32 (c :: uint64)) = unat c div 2 ^ 32"
  by (simp add: unat_div_distrib drop_bit_eq_div)

lemma unat_unwrap:
  "unat (unwrap n isn cp) =
     unwrap_nat (unat (wint_diff n isn)) (unat cp div 2 ^ 32) (unat cp mod 2 ^ 32)"
proof -
  define d h l where "d = unat (wint_diff n isn)" and "h = unat cp div 2 ^ 32"
    and "l = unat cp mod 2 ^ 32"
  define out :: uint64 where "out = ucast (wint_diff n isn) + push_bit 32 (drop_bit 32 cp)"
  have d: "d < 2 ^ 32" and l: "l < 2 ^ 32"
    using unsigned_less [of "wint_diff n isn", where 'a = nat] by (simp_all add: d_def l_def)
  have h: "h < 2 ^ 32" using unat_less_size_limit [of cp]
    by (simp add: h_def less_mult_imp_div_less)
  have cp: "unat cp = h * 2 ^ 32 + l" by (simp add: h_def l_def)
  have out: "unat out = h * 2 ^ 32 + d"
    using d h by (simp add: out_def unat_word_ariths unat_high_part d_def h_def)
  have less: "out < cp \<longleftrightarrow> d < l" by (simp add: word_less_nat_alt out cp)
  have p31: "unat (push_bit 31 1 :: uint64) = 2 ^ 31" and p32: "unat (push_bit 32 1 :: uint64) = 2 ^ 32"
    by simp_all
  have hi: "drop_bit 32 cp < push_bit 32 1 - 1 \<longleftrightarrow> h < 2 ^ 32 - 1" "drop_bit 32 cp > 1 \<longleftrightarrow> h > 1"
    by (simp_all add: word_less_nat_alt unat_high_half h_def)
  show ?thesis
    unfolding d_def [symmetric] h_def [symmetric] l_def [symmetric]
  proof (cases "d < l")
    case True
    then have "unat (cp - out) = l - d" by (simp add: unat_minus_no_wrap out cp)
    then have "cp - out > push_bit 31 1 \<longleftrightarrow> l - d > 2 ^ 31" by (simp add: word_less_nat_alt)
    moreover have "unat (out + push_bit 32 1) = h * 2 ^ 32 + d + 2 ^ 32" if "h < 2 ^ 32 - 1"
      using that d by (simp add: unat_word_ariths out)
    ultimately show "unat (unwrap n isn cp) = unwrap_nat d h l"
      using True less hi(1) by (simp add: unwrap_def Let_def unwrap_nat_def out flip: out_def)
  next
    case False
    then have "unat (out - cp) = d - l" by (simp add: unat_minus_no_wrap out cp)
    then have "out - cp > push_bit 31 1 \<longleftrightarrow> d - l > 2 ^ 31" by (simp add: word_less_nat_alt)
    moreover have "unat (out - push_bit 32 1) = h * 2 ^ 32 + d - 2 ^ 32" if "h > 1"
      using that by (simp add: unat_minus_no_wrap out)
    ultimately show "unat (unwrap n isn cp) = unwrap_nat d h l"
      using False less hi(2) by (simp add: unwrap_def Let_def unwrap_nat_def out flip: out_def)
  qed
qed

section \<open>The documented contract: the closest position\<close>

definition nat_dist :: "nat \<Rightarrow> nat \<Rightarrow> nat" where
  "nat_dist m n = (if m \<le> n then n - m else m - n)"

definition seq_dist :: "uint64 \<Rightarrow> uint64 \<Rightarrow> nat" where
  "seq_dist a b = nat_dist (unat a) (unat b)"

text \<open>The positions a checkpoint can be trusted for: nearer than half the sequence space, and not
  reaching back from the second \<open>2^32\<close> block into the first, where the guard of \<open>unwrap\<close> gives up.\<close>

definition seq_near :: "uint64 \<Rightarrow> uint64 \<Rightarrow> bool" where
  "seq_near x cp \<longleftrightarrow> seq_dist x cp < 2 ^ 31 \<and> \<not> (unat cp div 2 ^ 32 = 1 \<and> unat x < 2 ^ 32)"

lemma unwrap_nat_mod: "d < 2 ^ 32 \<Longrightarrow> unwrap_nat d h l mod 2 ^ 32 = d"
proof -
  assume d: "d < 2 ^ 32"
  have "h * 2 ^ 32 + d - 2 ^ 32 = (h - 1) * 2 ^ 32 + d" if "h > 1"
    using that by (simp add: algebra_simps)
  then show ?thesis using d by (auto simp: unwrap_nat_def)
qed

lemma unat_wint_diff_less: "unat (wint_diff n isn) < 2 ^ 32"
  using unsigned_less [of "wint_diff n isn", where 'a = nat] by simp

lemma wrap_unwrap_gen: "wrap (unwrap n isn cp) isn = n"
  using unwrap_nat_mod [OF unat_wint_diff_less] by (simp only: wrap_eq_iff unat_unwrap)

text \<open>A position that wraps to the sequence number lies in the same residue class.\<close>

lemma wrap_eqE:
  assumes "wrap x isn = n"
  obtains k where "unat x = k * 2 ^ 32 + unat (wint_diff n isn)" and "k < 2 ^ 32"
proof
  show "unat x = unat x div 2 ^ 32 * 2 ^ 32 + unat (wint_diff n isn)"
    using assms by (metis wrap_eq_iff div_mult_mod_eq)
  show "unat x div 2 ^ 32 < 2 ^ 32"
    using unat_less_size_limit [of x] by (simp add: less_mult_imp_div_less)
qed

lemma wrap_position: "k < 2 ^ 32 \<Longrightarrow> wrap (of_nat (k * 2 ^ 32 + unat (wint_diff n isn))) isn = n"
proof -
  assume k: "k < 2 ^ 32"
  have "unat (of_nat (k * 2 ^ 32 + unat (wint_diff n isn)) :: uint64)
      = k * 2 ^ 32 + unat (wint_diff n isn)"
    using k unat_wint_diff_less [of n isn] by (intro unat_of_nat_less) simp
  then show ?thesis
    using unat_wint_diff_less [of n isn] by (simp only: wrap_eq_iff) simp
qed

lemma unwrap_nat_closest:
  assumes "d < 2 ^ 32" and "l < 2 ^ 32" and "k < 2 ^ 32" and "h < 2 ^ 32"
    and "\<not> (h = 1 \<and> l + 2 ^ 31 < d)"
  shows "nat_dist (unwrap_nat d h l) (h * 2 ^ 32 + l) \<le> nat_dist (k * 2 ^ 32 + d) (h * 2 ^ 32 + l)"
proof -
  consider "k = h" | "k = Suc h" | "h = Suc k" | "k > Suc h" | "h > Suc k" by linarith
  then show ?thesis
    using assms by cases (auto simp: unwrap_nat_def nat_dist_def split: if_splits)
qed

lemma unwrap_nat_near:
  assumes "nat_dist (k * 2 ^ 32 + d) (h * 2 ^ 32 + l) < 2 ^ 31"
    and "d < 2 ^ 32" and "l < 2 ^ 32" and "k < 2 ^ 32" and "\<not> (h = 1 \<and> k = 0)"
  shows "unwrap_nat d h l = k * 2 ^ 32 + d"
proof -
  consider "k = h" | "k = Suc h" | "h = Suc k" | "k > Suc h" | "h > Suc k" by linarith
  then show ?thesis
    using assms by cases (auto simp: unwrap_nat_def nat_dist_def split: if_splits)
qed

lemma unwrap_wrap_near:
  assumes "seq_near x cp"
  shows "unwrap (wrap x isn) isn cp = x"
proof -
  obtain k where x: "unat x = k * 2 ^ 32 + unat (wint_diff (wrap x isn) isn)" and k: "k < 2 ^ 32"
    by (rule wrap_eqE [OF refl])
  let ?h = "unat cp div 2 ^ 32" and ?l = "unat cp mod 2 ^ 32"
  have "\<not> (?h = 1 \<and> k = 0)"
    using assms x unat_wint_diff_less [of "wrap x isn" isn] by (auto simp: seq_near_def)
  moreover have "unat cp = ?h * 2 ^ 32 + ?l" by simp
  ultimately have "unat (unwrap (wrap x isn) isn cp) = unat x"
    unfolding unat_unwrap x using assms x k unat_wint_diff_less
    by (intro unwrap_nat_near) (auto simp: seq_near_def seq_dist_def)
  then show ?thesis by (rule unat_eqD)
qed

lemma unwrap_wrap_self [simp]: "unwrap (wrap x isn) isn x = x"
proof -
  have "unwrap_nat (unat x mod 2 ^ 32) (unat x div 2 ^ 32) (unat x mod 2 ^ 32) = unat x"
    by (simp add: unwrap_nat_def)
  then have "unat (unwrap (wrap x isn) isn x) = unat x"
    by (simp only: unat_unwrap wint_diff_wrap)
  then show ?thesis by (rule unat_eqD)
qed

lemma unwrap_closest_ok:
  assumes ok: "\<not> (unat cp div 2 ^ 32 = 1 \<and> unat cp mod 2 ^ 32 + 2 ^ 31 < unat (wint_diff n isn))"
    and "wrap x isn = n"
  shows "seq_dist (unwrap n isn cp) cp \<le> seq_dist x cp"
proof -
  let ?d = "unat (wint_diff n isn)" and ?h = "unat cp div 2 ^ 32" and ?l = "unat cp mod 2 ^ 32"
  obtain k where x: "unat x = k * 2 ^ 32 + ?d" and k: "k < 2 ^ 32"
    using \<open>wrap x isn = n\<close> by (rule wrap_eqE)
  have "?h < 2 ^ 32"
    using unat_less_size_limit [of cp] by (simp add: less_mult_imp_div_less)
  then have "nat_dist (unwrap_nat ?d ?h ?l) (?h * 2 ^ 32 + ?l)
      \<le> nat_dist (k * 2 ^ 32 + ?d) (?h * 2 ^ 32 + ?l)"
    using unat_wint_diff_less k ok by (intro unwrap_nat_closest) simp_all
  then show ?thesis by (simp add: seq_dist_def unat_unwrap x)
qed

lemma unwrap_far_off:
  assumes far: "unat cp div 2 ^ 32 = 1 \<and> unat cp mod 2 ^ 32 + 2 ^ 31 < unat (wint_diff n isn)"
  shows "\<exists>x. wrap x isn = n \<and> \<not> seq_dist (unwrap n isn cp) cp \<le> seq_dist x cp"
proof (intro exI conjI)
  let ?d = "unat (wint_diff n isn)"
  have d: "?d < 2 ^ 32" by (rule unat_wint_diff_less)
  have "wrap (of_nat (0 * 2 ^ 32 + ?d)) isn = n" by (rule wrap_position) simp
  then show "wrap (of_nat ?d) isn = n" by (simp only: mult_zero_left add_0)
  have w: "unat (of_nat ?d :: uint64) = ?d" using d by (intro unat_of_nat_less) simp
  have cp: "unat cp = 2 ^ 32 + unat cp mod 2 ^ 32"
    using far div_mult_mod_eq [of "unat cp" "2 ^ 32"] by simp
  have "unat (unwrap n isn cp) = 2 ^ 32 + ?d"
    using far by (simp add: unat_unwrap unwrap_nat_def)
  then show "\<not> seq_dist (unwrap n isn cp) cp \<le> seq_dist (of_nat ?d) cp"
    unfolding seq_dist_def w using far d cp by (simp add: nat_dist_def) linarith
qed

section \<open>The interface for the sender and the receiver\<close>

text \<open>
  A client numbers its stream with absolute positions and sends their wrapped form. All it needs
  is that a position near the checkpoint comes back; then wrapped values identify positions.
\<close>

locale sequence_space =
  fixes enc :: "uint64 \<Rightarrow> WrappingInt32 \<Rightarrow> WrappingInt32"
    and dec :: "WrappingInt32 \<Rightarrow> WrappingInt32 \<Rightarrow> uint64 \<Rightarrow> uint64"
    and near :: "uint64 \<Rightarrow> uint64 \<Rightarrow> bool"
  assumes dec_enc: "near x cp \<Longrightarrow> dec (enc x isn) isn cp = x"
    and enc_dec: "enc (dec n isn cp) isn = n"
    and dec_self: "dec (enc x isn) isn x = x"
begin

lemma enc_inj: "near x cp \<Longrightarrow> near y cp \<Longrightarrow> enc x isn = enc y isn \<Longrightarrow> x = y"
  by (metis dec_enc)

lemma enc_surj: "\<exists>x. enc x isn = n"
  using enc_dec by blast

lemma dec_enc_iff: "near x cp \<Longrightarrow> near (dec n isn cp) cp \<Longrightarrow> dec n isn cp = x \<longleftrightarrow> n = enc x isn"
  by (metis dec_enc enc_dec)

end

interpretation seqno: sequence_space wrap unwrap seq_near
  by unfold_locales (simp_all add: unwrap_wrap_near wrap_unwrap_gen)

lemma seq_near_small:
  assumes "unat x < 2 ^ 31" and "unat cp < 2 ^ 31"
  shows "seq_near x cp"
proof -
  have "seq_dist x cp < 2 ^ 31" using assms by (auto simp: seq_dist_def nat_dist_def)
  moreover have "unat cp div 2 ^ 32 = 0" using assms by simp
  ultimately show ?thesis by (simp add: seq_near_def)
qed

section \<open>Properties\<close>

text \<open>
  \<open>unwrap\<close> always returns a position that wraps back to the given sequence number, whatever
  the checkpoint.
\<close>

theorem unwrap_then_wrap: "wrap (unwrap n isn cp) isn = n"
  by (rule seqno.enc_dec)

text \<open>
  (C13) Round trip: a position less than \<open>2^31\<close> away from the checkpoint is recovered from its
  wrapped form, unless the checkpoint lies in \<open>[2^32, 2^33)\<close> and the position before \<open>2^32\<close>.
\<close>

theorem wrap_then_unwrap:
  assumes "seq_dist x cp < 2 ^ 31" and "\<not> (unat cp div 2 ^ 32 = 1 \<and> unat x < 2 ^ 32)"
  shows "unwrap (wrap x isn) isn cp = x"
  using assms by (intro seqno.dec_enc) (simp add: seq_near_def)

theorem wrap_then_unwrap_witness:
  "unwrap (wrap 5000000000 (WrappingInt32 4000000000)) (WrappingInt32 4000000000) 6000000000
     = 5000000000"
  by (rule wrap_then_unwrap) (simp_all add: seq_dist_def nat_dist_def)

text \<open>
  (C32) \<open>unwrap\<close> returns the closest position to the checkpoint, as its documentation says, exactly
  when the checkpoint is not in \<open>[2^32, 2^33)\<close> with an offset more than \<open>2^31\<close> above its low half:
  there the guard \<open>(checkpoint >> 32) > 1\<close> should read \<open>> 0\<close>, and the result is \<open>2^32\<close> too far.
\<close>

theorem unwrap_closest_iff:
  "(\<forall>x. wrap x isn = n \<longrightarrow> seq_dist (unwrap n isn cp) cp \<le> seq_dist x cp)
     \<longleftrightarrow> \<not> (unat cp div 2 ^ 32 = 1 \<and> unat cp mod 2 ^ 32 + 2 ^ 31 < unat (wint_diff n isn))"
  using unwrap_closest_ok unwrap_far_off by blast

theorem unwrap_closest_iff_witness:
  "seq_dist (unwrap (WrappingInt32 17) (WrappingInt32 7) 100) 100 \<le> seq_dist 10 100
   \<and> \<not> (\<forall>x. wrap x (WrappingInt32 0) = WrappingInt32 4294967295 \<longrightarrow>
          seq_dist (unwrap (WrappingInt32 4294967295) (WrappingInt32 0) 4294967296) 4294967296
            \<le> seq_dist x 4294967296)"
proof
  have "wrap 10 (WrappingInt32 7) = WrappingInt32 17" by (simp add: wrap_def)
  then show "seq_dist (unwrap (WrappingInt32 17) (WrappingInt32 7) 100) 100 \<le> seq_dist 10 100"
    using unwrap_closest_iff [of "WrappingInt32 7" "WrappingInt32 17" 100] by simp
  show "\<not> (\<forall>x. wrap x (WrappingInt32 0) = WrappingInt32 4294967295 \<longrightarrow>
          seq_dist (unwrap (WrappingInt32 4294967295) (WrappingInt32 0) 4294967296) 4294967296
            \<le> seq_dist x 4294967296)"
    unfolding unwrap_closest_iff by (simp add: wint_diff_def)
qed

end
