(* ===== verification/Byte_Stream.thy ===== *)
theory Byte_Stream
  imports Prelude
begin

text \<open>
  The in-order byte stream (src/libsponge/byte_stream.hh and .cc): a ring buffer of
  \<open>capacity + 1\<close> slots with two indices and two running counters. The state is the record
  \<open>byte_stream\<close>, one definition per method; \<open>bs_contents\<close> abstracts the ring to the list of
  buffered bytes, and the locale \<open>byte_fifo\<close> is the contract that the reassembler, the sender and
  the sockets use.
\<close>

section \<open>The class\<close>

record byte_stream =
  bs_channel :: bytes
  bs_capacity :: size_t
  bs_read_index :: size_t
  bs_write_index :: size_t
  bs_bytes_read :: size_t
  bs_bytes_written :: size_t
  bs_end_flag :: bool
  bs_error :: bool

definition bs_new :: "size_t \<Rightarrow> byte_stream" where
  "bs_new cap = \<lparr>bs_channel = replicate (unat (cap + 1)) 0, bs_capacity = cap,
     bs_read_index = 0, bs_write_index = 0, bs_bytes_read = 0, bs_bytes_written = 0,
     bs_end_flag = False, bs_error = False\<rparr>"

definition bs_next_index_of :: "byte_stream \<Rightarrow> size_t \<Rightarrow> size_t \<Rightarrow> size_t" where
  "bs_next_index_of s index step =
     (index + step mod (bs_capacity s + 1)) mod (bs_capacity s + 1)"

definition bs_buffer_full :: "byte_stream \<Rightarrow> bool" where
  "bs_buffer_full s \<longleftrightarrow> bs_next_index_of s (bs_write_index s) 1 = bs_read_index s"

definition bs_put :: "byte_stream \<Rightarrow> uint8 \<Rightarrow> byte_stream" where
  "bs_put s b = s\<lparr>bs_channel := (bs_channel s)[unat (bs_write_index s) := b],
     bs_write_index := bs_next_index_of s (bs_write_index s) 1,
     bs_bytes_written := bs_bytes_written s + 1\<rparr>"

text \<open>The loop of \<open>write\<close>; the second argument is the part of \<open>data\<close> from \<open>bytes_count\<close> on.\<close>

fun bs_write_loop :: "byte_stream \<Rightarrow> bytes \<Rightarrow> size_t \<Rightarrow> byte_stream \<times> size_t" where
  "bs_write_loop s [] bytes_count = (s, bytes_count)"
| "bs_write_loop s (b # data) bytes_count =
     (if bs_buffer_full s then (s, bytes_count)
      else bs_write_loop (bs_put s b) data (bytes_count + 1))"

definition bs_write :: "byte_stream \<Rightarrow> bytes \<Rightarrow> byte_stream \<times> size_t" where
  "bs_write s data = (if bs_end_flag s then (s, 0) else bs_write_loop s data 0)"

text \<open>The loop of \<open>peek_output\<close>; the last argument is \<open>len - bytes_count\<close>.\<close>

fun bs_peek_loop :: "byte_stream \<Rightarrow> size_t \<Rightarrow> nat \<Rightarrow> bytes" where
  "bs_peek_loop s i 0 = []"
| "bs_peek_loop s i (Suc k) =
     (if i = bs_write_index s then []
      else bs_channel s ! unat i # bs_peek_loop s (bs_next_index_of s i 1) k)"

definition bs_peek_output :: "byte_stream \<Rightarrow> size_t \<Rightarrow> bytes" where
  "bs_peek_output s len = bs_peek_loop s (bs_read_index s) (unat len)"

definition bs_buffer_size :: "byte_stream \<Rightarrow> size_t" where
  "bs_buffer_size s =
     (bs_capacity s + 1 + bs_write_index s - bs_read_index s) mod (bs_capacity s + 1)"

definition bs_pop_output :: "byte_stream \<Rightarrow> size_t \<Rightarrow> byte_stream" where
  "bs_pop_output s len =
     (let pop_len = min len (bs_buffer_size s)
      in s\<lparr>bs_read_index := bs_next_index_of s (bs_read_index s) pop_len,
           bs_bytes_read := bs_bytes_read s + pop_len\<rparr>)"

definition bs_read :: "byte_stream \<Rightarrow> size_t \<Rightarrow> byte_stream \<times> bytes" where
  "bs_read s len = (let ret = bs_peek_output s len in (bs_pop_output s len, ret))"

definition bs_end_input :: "byte_stream \<Rightarrow> byte_stream" where
  "bs_end_input s = s\<lparr>bs_end_flag := True\<rparr>"

definition bs_set_error :: "byte_stream \<Rightarrow> byte_stream" where
  "bs_set_error s = s\<lparr>bs_error := True\<rparr>"

definition bs_input_ended :: "byte_stream \<Rightarrow> bool" where
  "bs_input_ended s = bs_end_flag s"

definition bs_buffer_empty :: "byte_stream \<Rightarrow> bool" where
  "bs_buffer_empty s \<longleftrightarrow> bs_write_index s = bs_read_index s"

definition bs_eof :: "byte_stream \<Rightarrow> bool" where
  "bs_eof s \<longleftrightarrow> bs_end_flag s \<and> bs_buffer_empty s"

definition bs_remaining_capacity :: "byte_stream \<Rightarrow> size_t" where
  "bs_remaining_capacity s = bs_capacity s - bs_buffer_size s"

section \<open>The ring as a list\<close>

text \<open>
  Slots \<open>N = capacity + 1\<close>; the bound on the capacity is \<open>std::vector::max_size\<close>, which the
  constructor cannot exceed.
\<close>

abbreviation bs_slots :: "byte_stream \<Rightarrow> nat" where
  "bs_slots s \<equiv> Suc (unat (bs_capacity s))"

definition ring_size :: "nat \<Rightarrow> nat \<Rightarrow> nat \<Rightarrow> nat" where
  "ring_size n r w = (if r \<le> w then w - r else n + w - r)"

definition bs_contents :: "byte_stream \<Rightarrow> bytes" where
  "bs_contents s =
     map (\<lambda>k. bs_channel s ! ((unat (bs_read_index s) + k) mod bs_slots s))
       [0..<ring_size (bs_slots s) (unat (bs_read_index s)) (unat (bs_write_index s))]"

definition bs_shape :: "byte_stream \<Rightarrow> bool" where
  "bs_shape s \<longleftrightarrow> bs_slots s < 2 ^ 63 \<and> length (bs_channel s) = bs_slots s
     \<and> unat (bs_read_index s) < bs_slots s \<and> unat (bs_write_index s) < bs_slots s"

definition bs_inv :: "byte_stream \<Rightarrow> bool" where
  "bs_inv s \<longleftrightarrow> bs_shape s \<and> bs_bytes_written s = bs_bytes_read s + bs_buffer_size s"

lemma ring_size_less: "r < n \<Longrightarrow> w < n \<Longrightarrow> ring_size n r w < n"
  by (auto simp: ring_size_def)

lemma mod_once: "x < 2 * n \<Longrightarrow> x mod n = (if x < n then x else x - n)" for x n :: nat
  by (simp add: le_mod_geq)

lemma ring_size_mod: "r < n \<Longrightarrow> w < n \<Longrightarrow> (n + w - r) mod n = ring_size n r w"
  by (subst mod_once) (auto simp: ring_size_def)

lemma ring_end: "r < n \<Longrightarrow> w < n \<Longrightarrow> (r + ring_size n r w) mod n = w"
  by (subst mod_once) (auto simp: ring_size_def)

lemma ring_advance:
  assumes "r < n" and "w < n" and "k \<le> ring_size n r w"
  shows "ring_size n ((r + k) mod n) w = ring_size n r w - k"
proof -
  have "r + k < 2 * n" using assms ring_size_less [of r n w] by linarith
  then show ?thesis
    using assms by (subst mod_once) (auto simp: ring_size_def split: if_splits)
qed

lemma ring_extend:
  assumes "r < n" and "w < n" and "Suc w mod n \<noteq> r"
  shows "ring_size n r (Suc w mod n) = Suc (ring_size n r w)"
  using assms by (cases "Suc w = n") (auto simp: ring_size_def split: if_splits)

lemma ring_full:
  assumes "r < n" and "w < n"
  shows "Suc w mod n = r \<longleftrightarrow> Suc (ring_size n r w) = n"
  using assms by (cases "Suc w = n") (auto simp: ring_size_def split: if_splits)

lemma ring_inside:
  assumes "r < n" and "w < n" and "k < ring_size n r w"
  shows "(r + k) mod n \<noteq> w"
proof -
  have "r + k < 2 * n" using assms ring_size_less [of r n w] by linarith
  then show ?thesis
    using assms by (subst mod_once) (auto simp: ring_size_def split: if_splits)
qed

section \<open>The methods over the natural numbers\<close>

lemma bs_shapeD:
  assumes "bs_shape s"
  shows "bs_slots s < 2 ^ 63" and "length (bs_channel s) = bs_slots s"
    and "unat (bs_read_index s) < bs_slots s" and "unat (bs_write_index s) < bs_slots s"
  using assms by (simp_all add: bs_shape_def)

lemma unat_slots: "bs_shape s \<Longrightarrow> unat (bs_capacity s + 1) = bs_slots s"
  by (drule bs_shapeD(1)) (simp add: unat_plus_no_wrap)

lemma unat_next_index:
  assumes "bs_shape s" and "unat i < bs_slots s"
  shows "unat (bs_next_index_of s i k) = (unat i + unat k) mod bs_slots s"
proof -
  have "unat i + unat k mod bs_slots s < bs_slots s + bs_slots s"
    using assms(2) by (intro add_strict_mono) simp_all
  also have "\<dots> < 2 ^ 64" using bs_shapeD(1) [OF assms(1)] by simp
  finally have "unat (i + k mod (bs_capacity s + 1)) = unat i + unat k mod bs_slots s"
    by (subst unat_plus_no_wrap) (simp_all add: unat_mod_distrib unat_slots assms(1))
  then show ?thesis
    by (simp add: bs_next_index_of_def unat_mod_distrib unat_slots assms(1) mod_simps)
qed

lemma length_bs_contents:
  "length (bs_contents s)
     = ring_size (bs_slots s) (unat (bs_read_index s)) (unat (bs_write_index s))"
  by (simp add: bs_contents_def)

lemma unat_buffer_size:
  assumes "bs_shape s"
  shows "unat (bs_buffer_size s) = length (bs_contents s)"
proof -
  note d = bs_shapeD [OF assms]
  have "unat (bs_capacity s + 1 + bs_write_index s) = bs_slots s + unat (bs_write_index s)"
    using d(1,4) by (subst unat_plus_no_wrap) (simp_all add: unat_slots assms)
  then have "unat (bs_capacity s + 1 + bs_write_index s - bs_read_index s)
      = bs_slots s + unat (bs_write_index s) - unat (bs_read_index s)"
    using d(3) by (subst unat_minus_no_wrap) simp_all
  then show ?thesis
    using ring_size_mod [OF d(3,4)]
    by (simp add: bs_buffer_size_def unat_mod_distrib unat_slots assms length_bs_contents)
qed

lemma length_contents_le: "bs_shape s \<Longrightarrow> length (bs_contents s) \<le> unat (bs_capacity s)"
  using ring_size_less [OF bs_shapeD(3,4)] by (simp add: length_bs_contents less_Suc_eq_le)

lemma length_contents_less: "bs_shape s \<Longrightarrow> length (bs_contents s) < size_limit"
  using length_contents_le unat_less_size_limit by (rule le_less_trans)

lemma bs_buffer_size_eq: "bs_shape s \<Longrightarrow> bs_buffer_size s = size_of (bs_contents s)"
  by (intro unat_eqD) (simp only: unat_buffer_size unat_size_of [OF length_contents_less])

lemma bs_buffer_empty_iff: "bs_shape s \<Longrightarrow> bs_buffer_empty s \<longleftrightarrow> bs_contents s = []"
  using bs_shapeD(3,4) [of s]
  by (auto simp: bs_buffer_empty_def ring_size_def simp flip: length_0_conv
      simp: length_bs_contents word_unat_eq_iff)

lemma bs_buffer_full_iff:
  "bs_shape s \<Longrightarrow> bs_buffer_full s \<longleftrightarrow> length (bs_contents s) = unat (bs_capacity s)"
  using bs_shapeD(3,4) [of s]
  by (simp add: bs_buffer_full_def word_unat_eq_iff unat_next_index ring_full length_bs_contents)

lemma unat_remaining_capacity:
  "bs_shape s \<Longrightarrow> unat (bs_remaining_capacity s) = unat (bs_capacity s) - length (bs_contents s)"
  using length_contents_le [of s]
  by (simp add: bs_remaining_capacity_def unat_minus_no_wrap unat_buffer_size)

section \<open>Writing, reading, ending\<close>

lemma bs_inv_shape [simp, dest]: "bs_inv s \<Longrightarrow> bs_shape s"
  by (simp add: bs_inv_def)

lemma bs_written_eq:
  "bs_inv s \<Longrightarrow> bs_bytes_written s = bs_bytes_read s + size_of (bs_contents s)"
  by (simp add: bs_inv_def bs_buffer_size_eq del: bs_inv_shape)

lemma bs_put_correct:
  assumes inv: "bs_inv s" and room: "\<not> bs_buffer_full s"
  shows "bs_inv (bs_put s b)" and "bs_contents (bs_put s b) = bs_contents s @ [b]"
proof -
  have shape: "bs_shape s" using inv by simp
  note d = bs_shapeD [OF shape]
  define t where "t = bs_put s b"
  let ?n = "bs_slots s" and ?r = "unat (bs_read_index s)" and ?w = "unat (bs_write_index s)"
  have w': "unat (bs_write_index t) = Suc ?w mod ?n"
    using d(4) by (simp add: t_def bs_put_def unat_next_index shape)
  have neq: "Suc ?w mod ?n \<noteq> ?r"
    using room d(4) by (simp add: bs_buffer_full_def word_unat_eq_iff unat_next_index shape)
  have size: "ring_size ?n ?r (Suc ?w mod ?n) = Suc (ring_size ?n ?r ?w)"
    using d(3,4) neq by (rule ring_extend)
  have inside: "?w \<noteq> (?r + k) mod ?n" if "k < ring_size ?n ?r ?w" for k
    using ring_inside [OF d(3,4) that] by simp
  have frame: "bs_capacity t = bs_capacity s" "bs_read_index t = bs_read_index s"
    "bs_bytes_read t = bs_bytes_read s" "bs_channel t = (bs_channel s)[?w := b]"
    "bs_bytes_written t = bs_bytes_written s + 1"
    by (simp_all add: t_def bs_put_def)
  have "map (\<lambda>k. (bs_channel s)[?w := b] ! ((?r + k) mod ?n)) [0..<ring_size ?n ?r ?w]
      = bs_contents s"
    unfolding bs_contents_def using inside by (intro map_cong refl) simp
  then show c: "bs_contents t = bs_contents s @ [b]"
    using ring_end [OF d(3,4)] d(2,4) by (simp add: bs_contents_def [of t] frame w' size)
  have shape': "bs_shape t" using d w' frame by (simp add: bs_shape_def)
  then have "bs_buffer_size t = bs_buffer_size s + 1"
    by (simp add: bs_buffer_size_eq shape c)
  then show "bs_inv t" using inv shape' frame by (simp add: bs_inv_def)
qed

lemma bs_put_frame [simp]:
  "bs_capacity (bs_put s b) = bs_capacity s" "bs_end_flag (bs_put s b) = bs_end_flag s"
  "bs_error (bs_put s b) = bs_error s" "bs_bytes_read (bs_put s b) = bs_bytes_read s"
  by (simp_all add: bs_put_def)

lemma bs_write_loop_correct:
  assumes "bs_inv s"
  defines "room \<equiv> unat (bs_capacity s) - length (bs_contents s)"
  shows "bs_inv (fst (bs_write_loop s data n))
    \<and> bs_contents (fst (bs_write_loop s data n)) = bs_contents s @ take room data
    \<and> snd (bs_write_loop s data n) = n + of_nat (min room (length data))"
  using assms
proof (induction s data n arbitrary: room rule: bs_write_loop.induct)
  case (1 s n)
  then show ?case by simp
next
  case (2 s b data n)
  show ?case
  proof (cases "bs_buffer_full s")
    case True
    with 2 show ?thesis by (simp add: bs_buffer_full_iff)
  next
    case False
    note put = bs_put_correct [OF \<open>bs_inv s\<close> False, of b]
    have "length (bs_contents s) < unat (bs_capacity s)"
      using False length_contents_le [of s] by (simp add: bs_buffer_full_iff 2)
    then obtain m where m: "unat (bs_capacity s) - length (bs_contents s) = Suc m"
      by (metis Suc_diff_Suc)
    then have "unat (bs_capacity s) - Suc (length (bs_contents s)) = m" by simp
    with m 2(1) [OF False put(1)] show ?thesis
      using False put(2) by simp
  qed
qed

lemma bs_write_loop_frame [simp]:
  "bs_capacity (fst (bs_write_loop s data n)) = bs_capacity s"
  "bs_end_flag (fst (bs_write_loop s data n)) = bs_end_flag s"
  "bs_error (fst (bs_write_loop s data n)) = bs_error s"
  "bs_bytes_read (fst (bs_write_loop s data n)) = bs_bytes_read s"
  by (induction s data n rule: bs_write_loop.induct) simp_all

lemma bs_peek_loop_correct:
  assumes "bs_inv s" and "j \<le> length (bs_contents s)"
    and "unat i = (unat (bs_read_index s) + j) mod bs_slots s"
  shows "bs_peek_loop s i k = take k (drop j (bs_contents s))"
  using assms(2,3)
proof (induction k arbitrary: i j)
  case 0
  then show ?case by simp
next
  case (Suc k)
  note d = bs_shapeD [OF bs_inv_shape [OF assms(1)]]
  let ?n = "bs_slots s" and ?r = "unat (bs_read_index s)" and ?w = "unat (bs_write_index s)"
  have i: "unat i < ?n" using Suc.prems(2) by simp
  show ?case
  proof (cases "j = length (bs_contents s)")
    case True
    then have "i = bs_write_index s"
      using Suc.prems(2) ring_end [OF d(3,4)] by (intro unat_eqD) (simp add: length_bs_contents)
    with True show ?thesis by simp
  next
    case False
    with Suc.prems have j: "j < length (bs_contents s)" by simp
    then have "i \<noteq> bs_write_index s"
      using Suc.prems(2) ring_inside [OF d(3,4), of j] by (auto simp: length_bs_contents)
    moreover have "bs_channel s ! unat i = bs_contents s ! j"
      using j Suc.prems(2) by (simp add: bs_contents_def)
    moreover have "bs_peek_loop s (bs_next_index_of s i 1) k = take k (drop (Suc j) (bs_contents s))"
      using j i by (intro Suc.IH) (simp_all add: unat_next_index assms(1) Suc.prems(2) mod_simps)
    ultimately show ?thesis using j by (simp flip: Cons_nth_drop_Suc)
  qed
qed

lemma bs_peek_output_correct:
  "bs_inv s \<Longrightarrow> bs_peek_output s len = take (unat len) (bs_contents s)"
  by (simp add: bs_peek_output_def bs_peek_loop_correct [where j = 0] bs_shapeD)

lemma bs_pop_output_correct:
  assumes inv: "bs_inv s"
  shows "bs_inv (bs_pop_output s len)"
    and "bs_contents (bs_pop_output s len) = drop (unat len) (bs_contents s)"
proof -
  have shape: "bs_shape s" using inv by simp
  note d = bs_shapeD [OF shape]
  let ?n = "bs_slots s" and ?r = "unat (bs_read_index s)" and ?w = "unat (bs_write_index s)"
  define k where "k = min (unat len) (length (bs_contents s))"
  define t where "t = bs_pop_output s len"
  have k: "unat (min len (bs_buffer_size s)) = k"
    by (simp add: k_def min_def word_le_nat_alt unat_buffer_size shape)
  then have k': "min len (bs_buffer_size s) = of_nat k" by (metis of_nat_unat ucast_id)
  have le: "k \<le> ring_size ?n ?r ?w" by (simp add: k_def flip: length_bs_contents)
  have frame: "bs_channel t = bs_channel s" "bs_capacity t = bs_capacity s"
    "bs_write_index t = bs_write_index s" "bs_bytes_written t = bs_bytes_written s"
    "bs_bytes_read t = bs_bytes_read s + of_nat k"
    using k' by (simp_all add: t_def bs_pop_output_def Let_def)
  have r: "unat (bs_read_index t) = (?r + k) mod ?n"
    using d(3) k by (simp add: t_def bs_pop_output_def Let_def unat_next_index shape)
  have size: "ring_size ?n ((?r + k) mod ?n) ?w = ring_size ?n ?r ?w - k"
    using d(3,4) le by (rule ring_advance)
  have len: "length (bs_contents t) = length (bs_contents s) - k"
    by (simp add: length_bs_contents frame r size)
  have nth: "bs_contents t ! i = bs_contents s ! (k + i)" if "i < length (bs_contents s) - k" for i
    using that less_diff_conv [of i "length (bs_contents s)" k]
    by (simp add: length_bs_contents)
      (simp add: bs_contents_def frame r size mod_simps add.assoc add.commute [of i])
  have "bs_contents t = drop k (bs_contents s)"
    using le by (intro nth_equalityI) (simp_all add: len nth)
  then show c: "bs_contents t = drop (unat len) (bs_contents s)"
    by (simp add: k_def min_def)
  have shape': "bs_shape t" using d r frame by (simp add: bs_shape_def)
  have "length (bs_contents s) = k + length (bs_contents t)"
    using le by (simp add: len length_bs_contents [of s])
  then have "bs_buffer_size s = of_nat k + bs_buffer_size t"
    by (simp add: bs_buffer_size_eq shape shape')
  then show "bs_inv t" using inv shape' frame by (simp add: bs_inv_def)
qed

lemma bs_bytes_read_pop:
  assumes "bs_inv s"
  shows "bs_bytes_read (bs_pop_output s len) = bs_bytes_read s + size_of (bs_peek_output s len)"
proof -
  have "unat (min len (bs_buffer_size s)) = length (take (unat len) (bs_contents s))"
    using assms by (simp add: min_def word_le_nat_alt unat_buffer_size)
  then have "min len (bs_buffer_size s) = size_of (take (unat len) (bs_contents s))"
    by (metis of_nat_unat ucast_id)
  then show ?thesis
    using assms by (simp add: bs_pop_output_def Let_def bs_peek_output_correct)
qed

lemma bs_pop_frame [simp]:
  "bs_capacity (bs_pop_output s len) = bs_capacity s"
  "bs_end_flag (bs_pop_output s len) = bs_end_flag s"
  "bs_error (bs_pop_output s len) = bs_error s"
  "bs_bytes_written (bs_pop_output s len) = bs_bytes_written s"
  by (simp_all add: bs_pop_output_def Let_def)

lemma bs_write_frame [simp]:
  "bs_capacity (fst (bs_write s data)) = bs_capacity s"
  "bs_end_flag (fst (bs_write s data)) = bs_end_flag s"
  "bs_error (fst (bs_write s data)) = bs_error s"
  "bs_bytes_read (fst (bs_write s data)) = bs_bytes_read s"
  by (simp_all add: bs_write_def)

lemma bs_flags_frame [simp]:
  "bs_inv (bs_end_input s) = bs_inv s" "bs_contents (bs_end_input s) = bs_contents s"
  "bs_inv (bs_set_error s) = bs_inv s" "bs_contents (bs_set_error s) = bs_contents s"
  "bs_capacity (bs_end_input s) = bs_capacity s" "bs_capacity (bs_set_error s) = bs_capacity s"
  "bs_bytes_read (bs_end_input s) = bs_bytes_read s"
  "bs_bytes_read (bs_set_error s) = bs_bytes_read s"
  "bs_bytes_written (bs_end_input s) = bs_bytes_written s"
  "bs_bytes_written (bs_set_error s) = bs_bytes_written s"
  "bs_end_flag (bs_end_input s)" "bs_end_flag (bs_set_error s) = bs_end_flag s"
  "bs_error (bs_end_input s) = bs_error s" "bs_error (bs_set_error s)"
  by (simp_all add: bs_end_input_def bs_set_error_def bs_inv_def bs_shape_def bs_contents_def
      bs_buffer_size_def)

lemma bs_new_correct:
  assumes "unat cap < 2 ^ 63 - 1"
  shows "bs_inv (bs_new cap)" and "bs_contents (bs_new cap) = []"
  using assms
  by (simp_all add: bs_inv_def bs_shape_def bs_new_def bs_contents_def bs_buffer_size_def
      ring_size_def unat_plus_no_wrap)

lemma bs_new_frame [simp]:
  "bs_capacity (bs_new cap) = cap" "bs_bytes_read (bs_new cap) = 0"
  "bs_bytes_written (bs_new cap) = 0" "\<not> bs_end_flag (bs_new cap)" "\<not> bs_error (bs_new cap)"
  by (simp_all add: bs_new_def)

section \<open>The contract as an interface\<close>

locale byte_fifo =
  fixes wr :: "'s \<Rightarrow> bytes \<Rightarrow> 's \<times> size_t"
    and peek :: "'s \<Rightarrow> size_t \<Rightarrow> bytes"
    and pop :: "'s \<Rightarrow> size_t \<Rightarrow> 's"
    and finished :: "'s \<Rightarrow> bool"
    and contents :: "'s \<Rightarrow> bytes"
    and limit :: "'s \<Rightarrow> nat"
    and invar :: "'s \<Rightarrow> bool"
  assumes write_contents: "invar s \<Longrightarrow> \<not> finished s \<Longrightarrow>
        contents (fst (wr s d)) = contents s @ take (limit s - length (contents s)) d"
    and write_count: "invar s \<Longrightarrow> \<not> finished s \<Longrightarrow>
        snd (wr s d) = of_nat (min (limit s - length (contents s)) (length d))"
    and write_finished: "finished s \<Longrightarrow> wr s d = (s, 0)"
    and peek_contents: "invar s \<Longrightarrow> peek s n = take (unat n) (contents s)"
    and pop_contents: "invar s \<Longrightarrow> contents (pop s n) = drop (unat n) (contents s)"
    and within_limit: "invar s \<Longrightarrow> length (contents s) \<le> limit s"
    and limit_bound: "invar s \<Longrightarrow> limit s < size_limit"
    and invar_write: "invar s \<Longrightarrow> invar (fst (wr s d))"
    and invar_pop: "invar s \<Longrightarrow> invar (pop s n)"
    and frame_write: "finished (fst (wr s d)) = finished s" "limit (fst (wr s d)) = limit s"
    and frame_pop: "finished (pop s n) = finished s" "limit (pop s n) = limit s"
begin

text \<open>What the writer is told is exactly what was appended.\<close>

lemma write_accepted:
  assumes "invar s"
  shows "contents (fst (wr s d)) = contents s @ take (unat (snd (wr s d))) d"
proof (cases "finished s")
  case False
  have "min (limit s - length (contents s)) (length d) < size_limit"
    using limit_bound [OF assms] by simp
  then have "unat (snd (wr s d)) = min (limit s - length (contents s)) (length d)"
    using write_count [OF assms False] by (simp add: unat_of_nat_less)
  then show ?thesis
    by (simp add: write_contents [OF assms False] min_def)
qed (simp add: write_finished)

text \<open>Data that fits is taken whole.\<close>

lemma write_whole:
  assumes "invar s" and "\<not> finished s" and "length (contents s) + length d \<le> limit s"
  shows "contents (fst (wr s d)) = contents s @ d" and "snd (wr s d) = size_of d"
  using assms by (simp_all add: write_contents write_count)

text \<open>Writing in two pieces is writing the concatenation.\<close>

lemma write_append:
  assumes "invar s" and "\<not> finished s"
  shows "contents (fst (wr (fst (wr s a)) b)) = contents (fst (wr s (a @ b)))"
  using assms within_limit [OF assms(1)]
  by (auto simp: write_contents invar_write frame_write min_def)

text \<open>Peeking and popping splits off the front: nothing is lost, duplicated or reordered.\<close>

lemma peek_pop: "invar s \<Longrightarrow> peek s n @ contents (pop s n) = contents s"
  by (simp add: peek_contents pop_contents)

lemma write_then_peek:
  assumes "invar s" and "\<not> finished s" and "contents s = []" and "length d \<le> limit s"
  shows "peek (fst (wr s d)) (size_of d) = d"
  using assms limit_bound [OF assms(1)]
  by (simp add: peek_contents invar_write write_whole unat_size_of)

end

interpretation ring: byte_fifo bs_write bs_peek_output bs_pop_output bs_end_flag bs_contents
  "\<lambda>s. unat (bs_capacity s)" bs_inv
proof (unfold_locales, goal_cases)
  case (1 s d)
  then show ?case using bs_write_loop_correct [of s d 0] by (simp add: bs_write_def)
next
  case (2 s d)
  then show ?case using bs_write_loop_correct [of s d 0] by (simp add: bs_write_def)
next
  case (8 s d)
  then show ?case using bs_write_loop_correct [of s d 0] by (simp add: bs_write_def)
qed (simp_all add: bs_write_def bs_peek_output_correct bs_pop_output_correct length_contents_le)

lemmas bs_invar [intro, invar_intros] = ring.invar_write ring.invar_pop

section \<open>Histories\<close>

text \<open>
  A client's use of the stream: the calls of its interface, together with the bytes that
  \<open>write\<close> reported as accepted and the bytes that \<open>read\<close> handed out.
\<close>

datatype bs_op = Bs_Write bytes | Bs_Read size_t | Bs_End_Input | Bs_Set_Error

type_synonym bs_history = "byte_stream \<times> bytes \<times> bytes"

fun bs_step :: "bs_history \<Rightarrow> bs_op \<Rightarrow> bs_history" where
  "bs_step (s, accepted, got) (Bs_Write data) =
     (case bs_write s data of (s', n) \<Rightarrow> (s', accepted @ take (unat n) data, got))"
| "bs_step (s, accepted, got) (Bs_Read len) =
     (case bs_read s len of (s', ret) \<Rightarrow> (s', accepted, got @ ret))"
| "bs_step (s, accepted, got) Bs_End_Input = (bs_end_input s, accepted, got)"
| "bs_step (s, accepted, got) Bs_Set_Error = (bs_set_error s, accepted, got)"

definition bs_run :: "size_t \<Rightarrow> bs_op list \<Rightarrow> bs_history" where
  "bs_run cap ops = foldl bs_step (bs_new cap, [], []) ops"

fun bs_history_inv :: "size_t \<Rightarrow> bs_history \<Rightarrow> bool" where
  "bs_history_inv cap (s, accepted, got) \<longleftrightarrow> bs_inv s \<and> bs_capacity s = cap
     \<and> accepted = got @ bs_contents s \<and> bs_bytes_read s = size_of got"

lemma bs_step_inv: "bs_history_inv cap h \<Longrightarrow> bs_history_inv cap (bs_step h op)"
proof (induction h op rule: bs_step.induct)
  case (1 s accepted got data)
  then show ?case
    using ring.write_accepted [of s data] by (auto split: prod.split intro: ring.invar_write
        simp: prod_eq_iff)
next
  case (2 s accepted got len)
  then show ?case
    by (simp add: bs_read_def Let_def ring.peek_pop ring.invar_pop bs_bytes_read_pop)
qed simp_all

lemma bs_run_inv:
  assumes "unat cap < 2 ^ 63 - 1"
  shows "bs_history_inv cap (bs_run cap ops)"
proof (induction ops rule: rev_induct)
  case Nil
  then show ?case using assms by (simp add: bs_run_def bs_new_correct)
next
  case (snoc op ops)
  then show ?case by (simp add: bs_run_def bs_step_inv)
qed

section \<open>Properties\<close>

text \<open>
  (C9) FIFO delivery: after any sequence of calls on a fresh stream, the bytes accepted by
  \<open>write\<close> are exactly the bytes handed out by \<open>read\<close>, in order, followed by the bytes still
  buffered; the buffer never exceeds the capacity and the two counters are exact (modulo their
  width).
\<close>

theorem bs_fifo:
  assumes "unat cap < 2 ^ 63 - 1" and "bs_run cap ops = (s, accepted, got)"
  shows "accepted = got @ bs_contents s \<and> length (bs_contents s) \<le> unat cap
    \<and> bs_bytes_read s = size_of got \<and> bs_bytes_written s = size_of accepted"
proof -
  have h: "bs_history_inv cap (s, accepted, got)"
    using bs_run_inv [OF assms(1), of ops] assms(2) by simp
  then have "length (bs_contents s) \<le> unat cap" using ring.within_limit [of s] by auto
  moreover have "bs_bytes_written s = size_of got + bs_buffer_size s"
    using h by (simp add: bs_inv_def)
  ultimately show ?thesis using h by (simp add: bs_buffer_size_eq)
qed

theorem bs_fifo_witness:
  "bs_run 2 [Bs_Write [1, 2, 3], Bs_Read 1, Bs_Write [4], Bs_End_Input, Bs_Write [5]]
     = (\<lparr>bs_channel = [1, 2, 4], bs_capacity = 2, bs_read_index = 1, bs_write_index = 0,
         bs_bytes_read = 1, bs_bytes_written = 3, bs_end_flag = True, bs_error = False\<rparr>,
        [1, 2, 4], [1])
   \<and> bs_contents \<lparr>bs_channel = [1, 2, 4], bs_capacity = 2, bs_read_index = 1, bs_write_index = 0,
         bs_bytes_read = 1, bs_bytes_written = 3, bs_end_flag = True, bs_error = False\<rparr> = [2, 4]"
    (is "?run = (?s, ?a, ?g) \<and> _")
proof -
  have run: "?run = (?s, ?a, ?g)" by code_simp
  have "[1, 2, 4] = [1] @ bs_contents ?s \<and> length (bs_contents ?s) \<le> unat (2 :: size_t)
    \<and> bs_bytes_read ?s = size_of [1 :: uint8] \<and> bs_bytes_written ?s = size_of [1, 2, 4 :: uint8]"
    using run by (intro bs_fifo) simp_all
  then show ?thesis using run by simp
qed

text \<open>
  \<open>write\<close> appends the longest prefix of the data that fits and returns its length; on an
  ended stream it changes nothing and returns 0.
\<close>

theorem bs_write_longest_prefix:
  assumes "bs_inv s"
  shows "bs_write s data =
    (if bs_end_flag s then (s, 0)
     else (fst (bs_write s data), of_nat (min (unat (bs_remaining_capacity s)) (length data))))
   \<and> bs_contents (fst (bs_write s data)) = bs_contents s @
       (if bs_end_flag s then [] else take (unat (bs_remaining_capacity s)) data)"
  using assms
  by (cases "bs_end_flag s")
    (simp_all add: ring.write_finished ring.write_contents prod_eq_iff ring.write_count
      unat_remaining_capacity)

theorem bs_write_longest_prefix_witness:
  "bs_contents (fst (bs_write (bs_new 2) [7, 8, 9])) = [7, 8]
   \<and> snd (bs_write (bs_new 2) [7, 8, 9]) = 2"
proof -
  have "bs_inv (bs_new 2)" by (rule bs_new_correct) simp
  from bs_write_longest_prefix [OF this, of "[7, 8, 9]"] show ?thesis
    using bs_new_correct(2) [of 2] by (simp add: bs_remaining_capacity_def bs_buffer_size_def
        prod_eq_iff) (simp add: bs_new_def)
qed

text \<open>
  Reading and the accessors: \<open>read\<close> returns the first \<open>len\<close> buffered bytes and removes
  exactly those, \<open>buffer_size\<close> and \<open>remaining_capacity\<close> add up to the capacity, and \<open>eof\<close> holds
  exactly on an ended stream whose bytes have all been read.
\<close>

theorem bs_read_correct:
  assumes "bs_inv s"
  shows "snd (bs_read s len) = take (unat len) (bs_contents s)
    \<and> bs_contents (fst (bs_read s len)) = drop (unat len) (bs_contents s)
    \<and> bs_inv (fst (bs_read s len))
    \<and> unat (bs_buffer_size s) + unat (bs_remaining_capacity s) = unat (bs_capacity s)
    \<and> (bs_eof s \<longleftrightarrow> bs_input_ended s \<and> bs_contents s = [])"
  using assms length_contents_le [of s]
  by (simp add: bs_read_def Let_def ring.peek_contents ring.pop_contents ring.invar_pop
      unat_buffer_size unat_remaining_capacity bs_eof_def bs_input_ended_def bs_buffer_empty_iff)

theorem bs_read_correct_witness:
  "snd (bs_read (fst (bs_write (bs_new 4) [1, 2, 3])) 2) = [1, 2]
   \<and> bs_contents (fst (bs_read (fst (bs_write (bs_new 4) [1, 2, 3])) 2)) = [3]"
proof -
  have inv: "bs_inv (bs_new 4)" by (rule bs_new_correct) simp
  have "bs_contents (fst (bs_write (bs_new 4) [1, 2, 3])) = [1, 2, 3]"
    using inv bs_new_correct(2) [of 4] by (subst ring.write_whole) simp_all
  then show ?thesis
    using bs_read_correct [OF ring.invar_write [OF inv], of "[1, 2, 3]" 2] by simp
qed

end
