(* ===== verification/Stream_Reassembler.thy ===== *)
theory Stream_Reassembler
  imports Byte_Stream
begin

text \<open>
  The stream reassembler (src/libsponge/stream_reassembler.hh and .cc): it stores bytes at their
  stream index in a growing vector, counts how often each arrived, and writes the contiguous part
  to its output stream. The lemmas compare it with the stream \<open>S\<close> that the substrings are cut
  from: what comes out is a prefix of \<open>S\<close> (\<open>sr_inv\<close>), when it makes progress, and under which
  conditions the end of the stream is signalled at the end of \<open>S\<close>.
\<close>

section \<open>The class\<close>

record stream_reassembler =
  sr_output :: byte_stream
  sr_capacity :: size_t
  sr_eofed :: bool
  sr_first_unread :: size_t
  sr_first_unassembled :: size_t
  sr_first_unacceptable :: size_t
  sr_buffer :: bytes
  sr_count :: "size_t list"

definition sr_new :: "size_t \<Rightarrow> stream_reassembler" where
  "sr_new cap = \<lparr>sr_output = bs_new cap, sr_capacity = cap, sr_eofed = False,
     sr_first_unread = 0, sr_first_unassembled = 0, sr_first_unacceptable = 0,
     sr_buffer = replicate (unat cap) 0, sr_count = replicate (unat cap) 0\<rparr>"

definition sr_update_size :: "stream_reassembler \<Rightarrow> stream_reassembler" where
  "sr_update_size s =
     (let first_unread = bs_bytes_read (sr_output s);
          n = unat (first_unread + sr_capacity s)
      in s\<lparr>sr_first_unread := first_unread,
           sr_buffer := vec_resize n 0 (sr_buffer s),
           sr_count := vec_resize n 0 (sr_count s)\<rparr>)"

definition sr_empty :: "stream_reassembler \<Rightarrow> bool" where
  "sr_empty s \<longleftrightarrow> sr_first_unacceptable s = sr_first_unassembled s"

text \<open>
  \<open>_count[_first_unassembled]\<close> is read before the index is compared with the size, so the loop of
  \<open>_update_output\<close> can read one element past the end. \<open>past_end\<close> is the word it finds there;
  \<open>sr_drain_past_end\<close> below shows that the result does not depend on it.
\<close>

definition vec_read :: "'a \<Rightarrow> 'a list \<Rightarrow> size_t \<Rightarrow> 'a" where
  "vec_read past_end v i = (if unat i < length v then v ! unat i else past_end)"

function sr_drain :: "size_t \<Rightarrow> stream_reassembler \<Rightarrow> bytes \<Rightarrow> stream_reassembler \<times> bytes" where
  "sr_drain past_end s str =
     (if vec_read past_end (sr_count s) (sr_first_unassembled s) \<noteq> 0 then
        (if sr_first_unassembled s = size_of (sr_buffer s) then (s, str)
         else sr_drain past_end (s\<lparr>sr_first_unassembled := sr_first_unassembled s + 1\<rparr>)
                (str @ [sr_buffer s ! unat (sr_first_unassembled s)]))
      else (s, str))"
  by pat_completeness auto
termination
proof (relation "measure (\<lambda>(p, s, str). unat (size_of (sr_buffer s) - sr_first_unassembled s))")
  fix past_end s str
  assume "sr_first_unassembled s \<noteq> size_of (sr_buffer s)"
  then have "size_of (sr_buffer s) - sr_first_unassembled s \<noteq> 0" by simp
  then have "unat (size_of (sr_buffer s) - sr_first_unassembled s - 1)
      < unat (size_of (sr_buffer s) - sr_first_unassembled s)"
    by (rule measure_unat)
  then show "((past_end, s\<lparr>sr_first_unassembled := sr_first_unassembled s + 1\<rparr>,
        str @ [sr_buffer s ! unat (sr_first_unassembled s)]), past_end, s, str)
      \<in> measure (\<lambda>(p, s, str). unat (size_of (sr_buffer s) - sr_first_unassembled s))"
    by (simp add: algebra_simps)
qed simp

declare sr_drain.simps [simp del]

definition sr_update_output :: "stream_reassembler \<Rightarrow> stream_reassembler" where
  "sr_update_output s =
     (case sr_drain 0 s [] of (s', str) \<Rightarrow>
        let s'' = s'\<lparr>sr_output := fst (bs_write (sr_output s') str)\<rparr>
        in if sr_eofed s'' \<and> sr_empty s''
           then s''\<lparr>sr_output := bs_end_input (sr_output s'')\<rparr> else s'')"

text \<open>The loop of \<open>push_substring\<close>; the second argument is the part of \<open>data\<close> from \<open>i\<close> on.\<close>

fun sr_store_loop :: "stream_reassembler \<Rightarrow> bytes \<Rightarrow> size_t \<Rightarrow> stream_reassembler" where
  "sr_store_loop s [] real_index = s"
| "sr_store_loop s (b # data) real_index =
     (let s' = s\<lparr>sr_first_unacceptable := max (sr_first_unacceptable s) (real_index + 1)\<rparr>
      in if size_of (sr_buffer s') \<le> real_index then s'
         else sr_store_loop
                (s'\<lparr>sr_buffer := (sr_buffer s')[unat real_index := b],
                    sr_count := (sr_count s')[unat real_index := sr_count s' ! unat real_index + 1]\<rparr>)
                data (real_index + 1))"

definition sr_push_substring :: "stream_reassembler \<Rightarrow> bytes \<Rightarrow> uint64 \<Rightarrow> bool \<Rightarrow> stream_reassembler"
where
  "sr_push_substring s data index eof =
     (let s = sr_update_size s;
          s = s\<lparr>sr_eofed := sr_eofed s \<or> eof\<rparr>;
          s = sr_store_loop s data index
      in sr_update_output s)"

text \<open>\<open>unassembled_bytes\<close> reads \<open>_count\<close> up to \<open>_first_unacceptable\<close> with no bound check.\<close>

function sr_unassembled_loop :: "stream_reassembler \<Rightarrow> size_t \<Rightarrow> size_t \<Rightarrow> size_t result" where
  "sr_unassembled_loop s i count =
     (if i < sr_first_unacceptable s then
        (if unat i < length (sr_count s)
         then sr_unassembled_loop s (i + 1) (count + (if sr_count s ! unat i \<noteq> 0 then 1 else 0))
         else Inl (Undefined_Behaviour ''StreamReassembler::unassembled_bytes''))
      else Inr count)"
  by pat_completeness auto
termination
proof (relation "measure (\<lambda>(s, i, n). unat (sr_first_unacceptable s - i))")
  fix s i and count :: size_t
  assume "i < sr_first_unacceptable s"
  then have "sr_first_unacceptable s - i \<noteq> 0" by auto
  then have "unat (sr_first_unacceptable s - i - 1) < unat (sr_first_unacceptable s - i)"
    by (rule measure_unat)
  then show "((s, i + 1, count + (if sr_count s ! unat i \<noteq> 0 then 1 else 0)), s, i, count)
      \<in> measure (\<lambda>(s, i, n). unat (sr_first_unacceptable s - i))"
    by (simp add: algebra_simps)
qed simp

declare sr_unassembled_loop.simps [simp del]

definition sr_unassembled_bytes :: "stream_reassembler \<Rightarrow> size_t result" where
  "sr_unassembled_bytes s = sr_unassembled_loop s (sr_first_unassembled s) 0"

definition sr_distance :: "stream_reassembler \<Rightarrow> size_t" where
  "sr_distance s = sr_first_unacceptable s - sr_first_unassembled s"

definition sr_left :: "stream_reassembler \<Rightarrow> size_t" where
  "sr_left s = sr_first_unassembled s"

definition sr_capacity_value :: "stream_reassembler \<Rightarrow> size_t" where
  "sr_capacity_value s = sr_capacity s"

text \<open>The owner reads from the output stream through the reference \<open>stream_out()\<close>.\<close>

definition sr_read :: "stream_reassembler \<Rightarrow> size_t \<Rightarrow> stream_reassembler \<times> bytes" where
  "sr_read s len = (case bs_read (sr_output s) len of (out, ret) \<Rightarrow> (s\<lparr>sr_output := out\<rparr>, ret))"

section \<open>The loops\<close>

definition sr_shape :: "stream_reassembler \<Rightarrow> bool" where
  "sr_shape s \<longleftrightarrow> length (sr_buffer s) = length (sr_count s) \<and> length (sr_count s) < size_limit
     \<and> unat (sr_first_unassembled s) \<le> length (sr_count s)"

text \<open>How many bytes follow contiguously after \<open>_first_unassembled\<close>.\<close>

definition sr_run :: "stream_reassembler \<Rightarrow> nat" where
  "sr_run s = length (takeWhile (\<lambda>c. c \<noteq> 0) (drop (unat (sr_first_unassembled s)) (sr_count s)))"

lemma sr_run_bound: "sr_shape s \<Longrightarrow> unat (sr_first_unassembled s) + sr_run s \<le> length (sr_count s)"
  using length_takeWhile_le [of "\<lambda>c. c \<noteq> 0" "drop (unat (sr_first_unassembled s)) (sr_count s)"]
  by (simp add: sr_run_def sr_shape_def) linarith

lemma sr_run_marked:
  "unat (sr_first_unassembled s) \<le> i \<Longrightarrow> i < unat (sr_first_unassembled s) + sr_run s \<Longrightarrow>
   sr_count s ! i \<noteq> 0"
proof -
  let ?f = "unat (sr_first_unassembled s)"
  assume "?f \<le> i" and "i < ?f + sr_run s"
  then have k: "i - ?f < length (takeWhile (\<lambda>c. c \<noteq> 0) (drop ?f (sr_count s)))"
    by (simp add: sr_run_def)
  then have "drop ?f (sr_count s) ! (i - ?f) \<noteq> 0"
    using set_takeWhileD [OF nth_mem [OF k]] takeWhile_nth [OF k] by simp
  moreover have "i < length (sr_count s)"
    using k length_takeWhile_le [of "\<lambda>c. c \<noteq> 0" "drop ?f (sr_count s)"] \<open>?f \<le> i\<close> by simp
  ultimately show ?thesis using \<open>?f \<le> i\<close> by simp
qed

lemma sr_drain_eq:
  assumes "sr_shape s"
  shows "sr_drain p s str =
    (s\<lparr>sr_first_unassembled := sr_first_unassembled s + of_nat (sr_run s)\<rparr>,
     str @ take (sr_run s) (drop (unat (sr_first_unassembled s)) (sr_buffer s)))"
  using assms
proof (induction p s str rule: sr_drain.induct)
  case (1 p s str)
  let ?f = "unat (sr_first_unassembled s)"
  have lim: "unat (size_of (sr_buffer s)) = length (sr_count s)"
    using "1.prems" by (simp add: sr_shape_def unat_size_of)
  have at_end: "sr_first_unassembled s = size_of (sr_buffer s) \<longleftrightarrow> ?f = length (sr_count s)"
    by (simp only: word_unat_eq_iff lim)
  show ?case
  proof (cases "?f < length (sr_count s) \<and> sr_count s ! ?f \<noteq> 0")
    case False
    then have "sr_run s = 0"
      by (cases "?f < length (sr_count s)") (auto simp: sr_run_def simp flip: Cons_nth_drop_Suc)
    then show ?thesis
      using False at_end "1.prems"
      by (subst sr_drain.simps) (auto simp: vec_read_def sr_shape_def)
  next
    case True
    let ?t = "s\<lparr>sr_first_unassembled := sr_first_unassembled s + 1\<rparr>"
    have suc: "unat (sr_first_unassembled s + 1) = Suc ?f"
      using True "1.prems" by (subst unat_plus_no_wrap) (auto simp: sr_shape_def)
    have drop: "drop ?f (sr_count s) = sr_count s ! ?f # drop (Suc ?f) (sr_count s)"
      using True by (simp add: Cons_nth_drop_Suc)
    have run: "sr_run s = Suc (sr_run ?t)"
      using True by (simp add: sr_run_def suc drop)
    have shape: "sr_shape ?t" using True "1.prems" by (simp add: sr_shape_def suc)
    have ne: "sr_first_unassembled s \<noteq> size_of (sr_buffer s)" using True at_end by simp
    have rd: "vec_read p (sr_count s) (sr_first_unassembled s) \<noteq> 0"
      using True by (simp add: vec_read_def)
    have "sr_drain p s str = sr_drain p ?t (str @ [sr_buffer s ! ?f])"
      using ne rd by (subst sr_drain.simps) simp
    moreover have "drop ?f (sr_buffer s) = sr_buffer s ! ?f # drop (Suc ?f) (sr_buffer s)"
      using True "1.prems" by (simp add: Cons_nth_drop_Suc sr_shape_def)
    ultimately show ?thesis
      using "1.IH" [OF rd ne shape] run by (simp add: suc add.assoc)
  qed
qed

lemma sr_drain_past_end: "sr_shape s \<Longrightarrow> sr_drain p s str = sr_drain q s str"
  by (simp add: sr_drain_eq)

lemma sr_store_loop_frame [simp]:
  "sr_output (sr_store_loop s data i) = sr_output s"
  "sr_capacity (sr_store_loop s data i) = sr_capacity s"
  "sr_eofed (sr_store_loop s data i) = sr_eofed s"
  "sr_first_unread (sr_store_loop s data i) = sr_first_unread s"
  "sr_first_unassembled (sr_store_loop s data i) = sr_first_unassembled s"
  "length (sr_buffer (sr_store_loop s data i)) = length (sr_buffer s)"
  "length (sr_count (sr_store_loop s data i)) = length (sr_count s)"
  by (induction s data i rule: sr_store_loop.induct) (simp_all add: Let_def)

text \<open>
  What the stored bytes say about the stream \<open>S\<close> they are cut from: every marked slot holds the
  byte of \<open>S\<close> and lies below \<open>_first_unacceptable\<close>, which stays inside \<open>S\<close>.
\<close>

definition sr_agrees :: "bytes \<Rightarrow> stream_reassembler \<Rightarrow> bool" where
  "sr_agrees S s \<longleftrightarrow> unat (sr_first_unacceptable s) \<le> length S
     \<and> (\<forall>i < length (sr_count s). sr_count s ! i \<noteq> 0 \<longrightarrow>
          i < unat (sr_first_unacceptable s) \<and> sr_buffer s ! i = S ! i)"

lemma sr_agreesD:
  assumes "sr_agrees S s" and "i < length (sr_count s)" and "sr_count s ! i \<noteq> 0"
  shows "i < unat (sr_first_unacceptable s)" and "sr_buffer s ! i = S ! i"
  using assms by (simp_all add: sr_agrees_def)

lemma sr_store_loop_agrees:
  assumes "sr_agrees S s" and "length (sr_buffer s) = length (sr_count s)"
    and "length (sr_count s) < size_limit" and "length S < size_limit - 1"
    and "unat i + length data \<le> length S" and "data = substr (unat i) (length data) S"
  shows "sr_agrees S (sr_store_loop s data i)"
  using assms
proof (induction s data i rule: sr_store_loop.induct)
  case (1 s i)
  then show ?case by simp
next
  case (2 s b data i)
  have "unat i < length S" using "2.prems" by simp
  have suc: "unat (i + 1) = Suc (unat i)"
    using "2.prems" by (subst unat_plus_no_wrap) auto
  have b: "b = S ! unat i" and data: "data = substr (unat (i + 1)) (length data) S"
    using "2.prems"(6) \<open>unat i < length S\<close>
    by (auto simp: substr_def suc Cons_nth_drop_Suc [symmetric])
  have mx: "unat (max (sr_first_unacceptable s) (i + 1)) = max (unat (sr_first_unacceptable s)) (Suc (unat i))"
    by (simp add: max_def word_le_nat_alt suc)
  have full: "size_of (sr_buffer s) \<le> i \<longleftrightarrow> length (sr_count s) \<le> unat i"
    using "2.prems"(2,3) by (simp add: word_le_nat_alt unat_size_of)
  show ?case
  proof (cases "length (sr_count s) \<le> unat i")
    case True
    then show ?thesis
      using "2.prems"(1-5) full mx by (auto simp: sr_agrees_def)
  next
    case False
    define t where "t = s\<lparr>sr_first_unacceptable := max (sr_first_unacceptable s) (i + 1),
      sr_buffer := (sr_buffer s)[unat i := b],
      sr_count := (sr_count s)[unat i := sr_count s ! unat i + 1]\<rparr>"
    have "sr_agrees S t"
      using "2.prems"(1-5) mx b False by (auto simp: sr_agrees_def t_def nth_list_update)
    then have "sr_agrees S (sr_store_loop t data (i + 1))"
      using "2.IH" [OF refl] "2.prems"(2-5) False full data by (simp add: suc t_def)
    then show ?thesis using False full by (simp add: t_def Let_def)
  qed
qed

section \<open>The invariant\<close>

abbreviation sr_read_pos :: "stream_reassembler \<Rightarrow> nat" where
  "sr_read_pos s \<equiv> unat (bs_bytes_read (sr_output s))"

abbreviation sr_written_pos :: "stream_reassembler \<Rightarrow> nat" where
  "sr_written_pos s \<equiv> unat (bs_bytes_written (sr_output s))"

abbreviation sr_next_pos :: "stream_reassembler \<Rightarrow> nat" where
  "sr_next_pos s \<equiv> unat (sr_first_unassembled s)"

text \<open>
  For the stream \<open>S\<close> that is being reassembled: the vectors have grown to the window seen at the
  last push, the stored bytes agree with \<open>S\<close>, and the output holds the part of \<open>S\<close> between the
  bytes read and the bytes written. Once the input has ended, later bytes are assembled but no
  longer written.
\<close>

definition sr_inv :: "bytes \<Rightarrow> stream_reassembler \<Rightarrow> bool" where
  "sr_inv S s \<longleftrightarrow> length S < 2 ^ 63 \<and> bs_inv (sr_output s) \<and> bs_capacity (sr_output s) = sr_capacity s
     \<and> length (sr_buffer s) = length (sr_count s)
     \<and> length (sr_count s) = unat (sr_first_unread s) + unat (sr_capacity s)
     \<and> unat (sr_first_unread s) \<le> sr_read_pos s
     \<and> sr_agrees S s
     \<and> sr_next_pos s \<le> unat (sr_first_unacceptable s) \<and> sr_next_pos s \<le> length (sr_count s)
     \<and> bs_contents (sr_output s) = drop (sr_read_pos s) (take (sr_written_pos s) S)
     \<and> sr_read_pos s \<le> sr_written_pos s \<and> sr_written_pos s \<le> sr_next_pos s
     \<and> (\<not> bs_end_flag (sr_output s) \<longrightarrow> sr_written_pos s = sr_next_pos s)"

lemma sr_invD:
  assumes "sr_inv S s"
  shows "length S < 2 ^ 63" "bs_inv (sr_output s)" "bs_capacity (sr_output s) = sr_capacity s"
    "length (sr_buffer s) = length (sr_count s)"
    "length (sr_count s) = unat (sr_first_unread s) + unat (sr_capacity s)"
    "unat (sr_first_unread s) \<le> sr_read_pos s" "sr_agrees S s"
    "sr_next_pos s \<le> unat (sr_first_unacceptable s)" "sr_next_pos s \<le> length (sr_count s)"
    "bs_contents (sr_output s) = drop (sr_read_pos s) (take (sr_written_pos s) S)"
    "sr_read_pos s \<le> sr_written_pos s" "sr_written_pos s \<le> sr_next_pos s"
    "\<not> bs_end_flag (sr_output s) \<Longrightarrow> sr_written_pos s = sr_next_pos s"
  using assms by (simp_all add: sr_inv_def)

lemma sr_inv_bounds:
  assumes "sr_inv S s"
  shows "sr_next_pos s \<le> length S" "unat (sr_capacity s) < 2 ^ 63"
    "unat (bs_bytes_read (sr_output s) + sr_capacity s) = sr_read_pos s + unat (sr_capacity s)"
    "sr_read_pos s + unat (sr_capacity s) < size_limit"
    "sr_first_unacceptable s \<ge> sr_first_unassembled s"
proof -
  note d = sr_invD [OF assms]
  show n: "sr_next_pos s \<le> length S" using d(7,8) by (simp add: sr_agrees_def)
  show c: "unat (sr_capacity s) < 2 ^ 63" using bs_shapeD(1) [of "sr_output s"] d(2,3) by auto
  show "sr_read_pos s + unat (sr_capacity s) < size_limit" using n c d(1,11,12) by simp
  then show "unat (bs_bytes_read (sr_output s) + sr_capacity s) = sr_read_pos s + unat (sr_capacity s)"
    by (intro unat_plus_no_wrap) simp
  show "sr_first_unacceptable s \<ge> sr_first_unassembled s" using d(8) by (simp add: word_le_nat_alt)
qed

lemma sr_new_inv:
  assumes "unat cap < 2 ^ 63 - 1" and "length S < 2 ^ 63"
  shows "sr_inv S (sr_new cap)"
  using bs_new_correct [OF assms(1)] assms(2)
  by (simp add: sr_inv_def sr_new_def sr_agrees_def)

lemma sr_new_frame [simp]:
  "sr_output (sr_new cap) = bs_new cap" "sr_capacity (sr_new cap) = cap" "\<not> sr_eofed (sr_new cap)"
  "sr_first_unassembled (sr_new cap) = 0" "sr_first_unacceptable (sr_new cap) = 0"
  "sr_count (sr_new cap) = replicate (unat cap) 0"
  by (simp_all add: sr_new_def)

lemma sr_update_size_inv:
  assumes "sr_inv S s"
  shows "sr_inv S (sr_update_size s)"
    and "length (sr_count (sr_update_size s)) = sr_read_pos s + unat (sr_capacity s)"
  using sr_invD [OF assms] sr_inv_bounds [OF assms]
  by (auto simp: sr_inv_def sr_update_size_def Let_def sr_agrees_def nth_vec_resize)

text \<open>A substring that is cut from \<open>S\<close>.\<close>

definition sr_cut :: "bytes \<Rightarrow> bytes \<Rightarrow> uint64 \<Rightarrow> bool" where
  "sr_cut S data i \<longleftrightarrow> data = []
     \<or> (unat i + length data \<le> length S \<and> data = substr (unat i) (length data) S)"

lemma sr_store_loop_mono:
  "unat (sr_first_unacceptable s) \<le> unat (sr_first_unacceptable (sr_store_loop s data i))"
  by (induction s data i rule: sr_store_loop.induct)
    (auto simp: Let_def max_def word_le_nat_alt intro: order_trans split: if_splits)

lemma sr_store_loop_inv:
  assumes "sr_inv S s" and "sr_cut S data i"
  shows "sr_inv S (sr_store_loop s data i)"
proof (cases "data = []")
  case False
  note d = sr_invD [OF assms(1)] and b = sr_inv_bounds [OF assms(1)]
  have "length (sr_count s) < size_limit" using d(5,6) b(4) by simp
  then have "sr_agrees S (sr_store_loop s data i)"
    using d(1,4,7) assms(2) False
    by (intro sr_store_loop_agrees) (auto simp: sr_cut_def)
  moreover have "sr_next_pos s \<le> unat (sr_first_unacceptable (sr_store_loop s data i))"
    using d(8) sr_store_loop_mono order_trans by blast
  ultimately show ?thesis using d by (simp add: sr_inv_def)
qed (use assms in simp)

lemma sr_inv_shape: "sr_inv S s \<Longrightarrow> sr_shape s"
  using sr_invD [of S s] sr_inv_bounds(4) [of S s] by (simp add: sr_shape_def)

text \<open>The run of marked bytes is the next part of \<open>S\<close>.\<close>

lemma sr_run_agrees:
  assumes "sr_inv S s"
  shows "sr_next_pos s + sr_run s \<le> unat (sr_first_unacceptable s)"
    and "take (sr_run s) (drop (sr_next_pos s) (sr_buffer s)) = substr (sr_next_pos s) (sr_run s) S"
    and "unat (sr_first_unassembled s + of_nat (sr_run s)) = sr_next_pos s + sr_run s"
proof -
  note d = sr_invD [OF assms] and b = sr_inv_bounds [OF assms]
  have le: "sr_next_pos s + sr_run s \<le> length (sr_count s)"
    using sr_run_bound [OF sr_inv_shape [OF assms]] .
  have marked: "sr_count s ! i \<noteq> 0" if "sr_next_pos s \<le> i" "i < sr_next_pos s + sr_run s" for i
    using that by (rule sr_run_marked)
  show fua: "sr_next_pos s + sr_run s \<le> unat (sr_first_unacceptable s)"
  proof (cases "sr_run s")
    case 0
    then show ?thesis using d(8) by simp
  next
    case (Suc k)
    then have "sr_count s ! (sr_next_pos s + k) \<noteq> 0" by (intro marked) simp_all
    then show ?thesis using sr_agreesD(1) [OF d(7), of "sr_next_pos s + k"] Suc le by simp
  qed
  have "unat (sr_first_unacceptable s) \<le> length S" using d(7) by (simp add: sr_agrees_def)
  with fua have "sr_next_pos s + sr_run s \<le> length S" by simp
  then show "take (sr_run s) (drop (sr_next_pos s) (sr_buffer s))
      = substr (sr_next_pos s) (sr_run s) S"
    using le d(4,7) marked
    by (intro nth_equalityI) (auto simp: substr_def sr_agrees_def)
  show "unat (sr_first_unassembled s + of_nat (sr_run s)) = sr_next_pos s + sr_run s"
  proof -
    have "sr_run s < size_limit" using le d(5,6) b(4) by simp
    then have "unat (of_nat (sr_run s) :: size_t) = sr_run s" by (intro unat_of_nat_less) simp
    then show ?thesis using le d(5,6) b(4) by (subst unat_plus_no_wrap) simp_all
  qed
qed

lemma drop_take_append_substr:
  "r \<le> n \<Longrightarrow> n \<le> length S \<Longrightarrow> drop r (take n S) @ substr n k S = drop r (take (n + k) S)"
  by (simp add: take_append_substr [symmetric])

text \<open>A stream that holds a part of \<open>S\<close> and has room takes the next part of \<open>S\<close> whole.\<close>

lemma bs_write_next_part:
  assumes inv: "bs_inv out" and open_: "\<not> bs_end_flag out"
    and c: "bs_contents out = drop r (take w S)" and r: "r = unat (bs_bytes_read out)"
    and w: "w = unat (bs_bytes_written out)" and "r \<le> w" and S: "w + k \<le> length S"
    and small: "length S < 2 ^ 63" and room: "w + k \<le> r + unat (bs_capacity out)"
  shows "bs_contents (fst (bs_write out (substr w k S))) = drop r (take (w + k) S)"
    and "unat (bs_bytes_written (fst (bs_write out (substr w k S)))) = w + k"
proof -
  let ?t = "fst (bs_write out (substr w k S))"
  have len: "length (substr w k S) = k" using S by (simp add: length_substr)
  have "length (bs_contents out) + length (substr w k S) \<le> unat (bs_capacity out)"
    using room \<open>r \<le> w\<close> S by (simp add: c len)
  then have app: "bs_contents ?t = bs_contents out @ substr w k S"
    using ring.write_whole(1) [OF inv open_] by simp
  then show "bs_contents ?t = drop r (take (w + k) S)"
    using \<open>r \<le> w\<close> S by (simp add: c drop_take_append_substr)
  have "bs_inv ?t" using inv by (rule ring.invar_write)
  then have "bs_bytes_written ?t = bs_bytes_written out + of_nat k"
    using bs_written_eq [OF inv] by (simp add: bs_written_eq app len)
  moreover have "unat (of_nat k :: size_t) = k" using S small by (intro unat_of_nat_less) simp
  ultimately show "unat (bs_bytes_written ?t) = w + k"
    using S small w by (simp add: unat_plus_no_wrap)
qed

text \<open>\<open>_update_output\<close> in closed form.\<close>

lemma sr_update_output_eq:
  assumes "sr_inv S s"
  defines "f \<equiv> sr_first_unassembled s + of_nat (sr_run s)"
    and "out \<equiv> fst (bs_write (sr_output s) (substr (sr_next_pos s) (sr_run s) S))"
  shows "sr_update_output s = s\<lparr>sr_first_unassembled := f,
      sr_output := (if sr_eofed s \<and> sr_first_unacceptable s = f then bs_end_input out else out)\<rparr>"
  using sr_run_agrees(2) [OF assms(1)]
  by (simp add: sr_update_output_def sr_drain_eq sr_inv_shape [OF assms(1)] f_def out_def Let_def
      sr_empty_def)

lemma sr_update_output_frame:
  assumes inv: "sr_inv S s"
  defines "t \<equiv> sr_update_output s"
  shows "sr_next_pos t = sr_next_pos s + sr_run s"
    and "sr_first_unacceptable t = sr_first_unacceptable s" and "sr_eofed t = sr_eofed s"
    and "bs_end_flag (sr_output t) \<longleftrightarrow> bs_end_flag (sr_output s)
           \<or> sr_eofed s \<and> unat (sr_first_unacceptable s) = sr_next_pos t"
    and "bs_bytes_read (sr_output t) = bs_bytes_read (sr_output s)"
    and "sr_capacity t = sr_capacity s" and "sr_count t = sr_count s"
    and "bs_error (sr_output t) = bs_error (sr_output s)"
  using sr_run_agrees(3) [OF inv]
  by (auto simp: t_def sr_update_output_eq [OF inv] word_unat_eq_iff)

lemma sr_output_written:
  assumes inv: "sr_inv S s" and len: "length (sr_count s) = sr_read_pos s + unat (sr_capacity s)"
  defines "out \<equiv> fst (bs_write (sr_output s) (substr (sr_next_pos s) (sr_run s) S))"
  shows "unat (bs_bytes_written out)
        = (if bs_end_flag (sr_output s) then sr_written_pos s else sr_next_pos s + sr_run s)"
    and "bs_contents out = drop (sr_read_pos s) (take (unat (bs_bytes_written out)) S)"
proof -
  note d = sr_invD [OF inv] and r = sr_run_agrees [OF inv]
  have run: "sr_next_pos s + sr_run s \<le> length (sr_count s)"
    using sr_run_bound [OF sr_inv_shape [OF inv]] .
  have in_S: "sr_next_pos s + sr_run s \<le> length S" using r(1) d(7) by (simp add: sr_agrees_def)
  show "unat (bs_bytes_written out)
        = (if bs_end_flag (sr_output s) then sr_written_pos s else sr_next_pos s + sr_run s)"
    and "bs_contents out = drop (sr_read_pos s) (take (unat (bs_bytes_written out)) S)"
    using bs_write_next_part [OF d(2) _ d(10) refl refl d(11) _ d(1), of "sr_run s"]
      d(3,10,13) run len in_S
    by (cases "bs_end_flag (sr_output s)"; simp add: out_def ring.write_finished)+
qed

lemma sr_update_output_inv:
  assumes inv: "sr_inv S s" and len: "length (sr_count s) = sr_read_pos s + unat (sr_capacity s)"
  shows "sr_inv S (sr_update_output s)"
proof -
  note d = sr_invD [OF inv] and r = sr_run_agrees [OF inv]
  define out where "out = fst (bs_write (sr_output s) (substr (sr_next_pos s) (sr_run s) S))"
  note written = sr_output_written [OF inv len, folded out_def]
  have run: "sr_next_pos s + sr_run s \<le> length (sr_count s)"
    using sr_run_bound [OF sr_inv_shape [OF inv]] .
  have "sr_inv S (s\<lparr>sr_first_unassembled := sr_first_unassembled s + of_nat (sr_run s),
      sr_output := (if stop then bs_end_input out else out)\<rparr>)" for stop
    using d r(1,3) run written
    by (cases stop; cases "bs_end_flag (sr_output s)")
      (simp_all add: sr_inv_def out_def ring.invar_write sr_agrees_def)
  then show ?thesis unfolding sr_update_output_eq [OF inv] out_def [symmetric] .
qed

lemma sr_update_output_written:
  assumes "sr_inv S s" and "length (sr_count s) = sr_read_pos s + unat (sr_capacity s)"
  shows "sr_written_pos (sr_update_output s)
    = (if bs_end_flag (sr_output s) then sr_written_pos s else sr_next_pos (sr_update_output s))"
  using sr_output_written(1) [OF assms] sr_update_output_frame(1) [OF assms(1)]
  by (simp add: sr_update_output_eq [OF assms(1)])

section \<open>Pushing a substring\<close>

text \<open>The state in which \<open>_update_output\<close> finds the reassembler.\<close>

definition sr_stored :: "stream_reassembler \<Rightarrow> bytes \<Rightarrow> uint64 \<Rightarrow> bool \<Rightarrow> stream_reassembler" where
  "sr_stored s data index eof =
     (let s = sr_update_size s in sr_store_loop (s\<lparr>sr_eofed := sr_eofed s \<or> eof\<rparr>) data index)"

lemma sr_push_stored: "sr_push_substring s data index eof = sr_update_output (sr_stored s data index eof)"
  by (simp add: sr_push_substring_def sr_stored_def Let_def)

lemma sr_stored_frame [simp]:
  "sr_output (sr_stored s data index eof) = sr_output s"
  "sr_capacity (sr_stored s data index eof) = sr_capacity s"
  "sr_eofed (sr_stored s data index eof) = (sr_eofed s \<or> eof)"
  "sr_first_unassembled (sr_stored s data index eof) = sr_first_unassembled s"
  by (simp_all add: sr_stored_def sr_update_size_def Let_def)

lemma sr_inv_eofed [simp]: "sr_inv S (s\<lparr>sr_eofed := e\<rparr>) = sr_inv S s"
  by (simp add: sr_inv_def sr_agrees_def)

lemma sr_stored_inv:
  assumes "sr_inv S s" and "sr_cut S data index"
  shows "sr_inv S (sr_stored s data index eof)"
    and "length (sr_count (sr_stored s data index eof)) = sr_read_pos s + unat (sr_capacity s)"
  using sr_update_size_inv [OF assms(1)] assms(2)
  by (simp_all add: sr_stored_def Let_def sr_store_loop_inv)

lemma sr_push_inv [invar_intros]:
  assumes "sr_inv S s" and "sr_cut S data index"
  shows "sr_inv S (sr_push_substring s data index eof)"
  using sr_stored_inv [OF assms, of eof] unfolding sr_push_stored
  by (intro sr_update_output_inv) simp_all

lemma sr_push_frame:
  fixes eof :: bool
  assumes "sr_inv S s" and "sr_cut S data index"
  defines "t \<equiv> sr_push_substring s data index eof"
  shows "bs_bytes_read (sr_output t) = bs_bytes_read (sr_output s)"
    and "sr_capacity t = sr_capacity s" and "sr_eofed t = (sr_eofed s \<or> eof)"
    and "bs_error (sr_output t) = bs_error (sr_output s)"
    and "sr_next_pos s \<le> sr_next_pos t"
    and "length (sr_count t) = sr_read_pos s + unat (sr_capacity s)"
    and "bs_end_flag (sr_output t) \<longleftrightarrow> bs_end_flag (sr_output s)
           \<or> sr_eofed t \<and> unat (sr_first_unacceptable t) = sr_next_pos t"
  using sr_update_output_frame [OF sr_stored_inv(1) [OF assms(1,2), of eof]]
    sr_stored_inv(2) [OF assms(1,2), of eof]
  unfolding t_def sr_push_stored by simp_all

lemma sr_read_inv [invar_intros]:
  assumes "sr_inv S s"
  shows "sr_inv S (fst (sr_read s len))"
    and "snd (sr_read s len) = substr (sr_read_pos s) (sr_read_pos (fst (sr_read s len)) - sr_read_pos s) S"
    and "sr_read_pos s \<le> sr_read_pos (fst (sr_read s len))"
proof -
  note d = sr_invD [OF assms] and b = sr_inv_bounds [OF assms]
  let ?ret = "take (unat len) (bs_contents (sr_output s))"
  have ret: "snd (sr_read s len) = ?ret"
    and out: "sr_output (fst (sr_read s len)) = bs_pop_output (sr_output s) len"
    using d(2) by (simp_all add: sr_read_def bs_read_def Let_def bs_peek_output_correct)
  have len: "length ?ret \<le> sr_written_pos s - sr_read_pos s" using d(10,12) b(1) by simp
  then have pos: "sr_read_pos (fst (sr_read s len)) = sr_read_pos s + length ?ret"
    using d(1,2,11,12) b(1) unfolding out
    by (simp add: bs_bytes_read_pop bs_peek_output_correct unat_plus_no_wrap unat_of_nat_less)
  show "sr_read_pos s \<le> sr_read_pos (fst (sr_read s len))" using pos by simp
  have S: "bs_contents (sr_output s) = drop (sr_read_pos s) (take (sr_written_pos s) S)" by (rule d(10))
  show "snd (sr_read s len) = substr (sr_read_pos s) (sr_read_pos (fst (sr_read s len)) - sr_read_pos s) S"
    using len unfolding ret pos substr_def by (simp add: S min_def drop_take split: if_splits)
  have t: "fst (sr_read s len) = s\<lparr>sr_output := bs_pop_output (sr_output s) len\<rparr>"
    by (simp add: sr_read_def bs_read_def Let_def)
  have "drop (unat len) (bs_contents (sr_output s)) = drop (length ?ret) (bs_contents (sr_output s))"
    by (simp add: min_def)
  then have "bs_contents (bs_pop_output (sr_output s) len)
      = drop (sr_read_pos s + length ?ret) (take (sr_written_pos s) S)"
    using d(2) by (simp add: bs_pop_output_correct) (simp add: S add.commute)
  then show "sr_inv S (fst (sr_read s len))"
    using d len pos by (simp add: sr_inv_def t sr_agrees_def bs_pop_output_correct)
qed

section \<open>Progress and the end of the stream\<close>

lemma sr_store_loop_count:
  assumes "length (sr_buffer s) = length (sr_count s)" and "length (sr_count s) < size_limit"
    and "unat i + length data < size_limit" and "j < length (sr_count s)"
  shows "sr_count (sr_store_loop s data i) ! j =
    (if unat i \<le> j \<and> j < unat i + length data then sr_count s ! j + 1 else sr_count s ! j)"
  using assms
proof (induction s data i rule: sr_store_loop.induct)
  case (1 s i)
  then show ?case by simp
next
  case (2 s b data i)
  have suc: "unat (i + 1) = Suc (unat i)" using "2.prems" by (subst unat_plus_no_wrap) auto
  have full: "size_of (sr_buffer s) \<le> i \<longleftrightarrow> length (sr_count s) \<le> unat i"
    using "2.prems" by (simp add: word_le_nat_alt unat_size_of)
  show ?case
  proof (cases "length (sr_count s) \<le> unat i")
    case True
    then show ?thesis using full "2.prems" by simp
  next
    case False
    then show ?thesis
      using full "2.prems" "2.IH" [OF refl] by (auto simp: Let_def suc nth_list_update)
  qed
qed

lemma sr_store_loop_reach:
  assumes "length (sr_buffer s) = length (sr_count s)" and "length (sr_count s) < size_limit"
    and "data \<noteq> []" and "unat i + length data \<le> length (sr_count s)"
  shows "unat (sr_first_unacceptable (sr_store_loop s data i))
    = max (unat (sr_first_unacceptable s)) (unat i + length data)"
  using assms
proof (induction s data i rule: sr_store_loop.induct)
  case (1 s i)
  then show ?case by simp
next
  case (2 s b data i)
  have suc: "unat (i + 1) = Suc (unat i)" using "2.prems" by (subst unat_plus_no_wrap) auto
  have full: "\<not> size_of (sr_buffer s) \<le> i"
    using "2.prems" by (simp add: word_le_nat_alt unat_size_of)
  have mx: "unat (max (sr_first_unacceptable s) (i + 1)) = max (unat (sr_first_unacceptable s)) (Suc (unat i))"
    by (simp add: max_def word_le_nat_alt suc)
  show ?case
    using full "2.prems" "2.IH" [OF refl] mx by (cases "data = []") (auto simp: Let_def suc)
qed

lemma length_takeWhile_ge:
  "(\<And>k. k < m \<Longrightarrow> k < length xs \<and> P (xs ! k)) \<Longrightarrow> m \<le> length (takeWhile P xs)"
proof (induction xs arbitrary: m)
  case Nil
  then show ?case by force
next
  case (Cons x xs)
  show ?case
  proof (cases m)
    case (Suc n)
    have "P x" using Cons.prems [of 0] Suc by simp
    moreover have "n \<le> length (takeWhile P xs)"
      using Cons.prems [of "Suc _"] Suc by (intro Cons.IH) force
    ultimately show ?thesis using Suc by simp
  qed simp
qed

lemma sr_run_ge:
  assumes "\<And>j. sr_next_pos s \<le> j \<Longrightarrow> j < n \<Longrightarrow> j < length (sr_count s) \<and> sr_count s ! j \<noteq> 0"
  shows "n \<le> sr_next_pos s + sr_run s"
proof -
  have "n - sr_next_pos s \<le> sr_run s"
    unfolding sr_run_def
  proof (rule length_takeWhile_ge)
    fix k assume "k < n - sr_next_pos s"
    then have "sr_next_pos s + k < length (sr_count s) \<and> sr_count s ! (sr_next_pos s + k) \<noteq> 0"
      by (intro assms) simp_all
    then show "k < length (drop (sr_next_pos s) (sr_count s))
        \<and> drop (sr_next_pos s) (sr_count s) ! k \<noteq> 0" by auto
  qed
  then show ?thesis by simp
qed

text \<open>The reassembler has the byte of the stream at an index: its slot is marked.\<close>

definition sr_holds :: "stream_reassembler \<Rightarrow> nat \<Rightarrow> bool" where
  "sr_holds s i \<longleftrightarrow> i < length (sr_count s) \<and> sr_count s ! i \<noteq> 0"

lemma sr_holds_byte: "sr_inv S s \<Longrightarrow> sr_holds s i \<Longrightarrow> sr_buffer s ! i = S ! i"
  by (simp add: sr_holds_def sr_agreesD(2) [OF sr_invD(7)])

lemma sr_update_output_holds: "sr_inv S s \<Longrightarrow> sr_holds (sr_update_output s) i = sr_holds s i"
  by (simp add: sr_holds_def sr_update_output_frame(7))

text \<open>
  Which bytes a push takes: exactly those below the end of the window, and all others stay as they
  were. (A counter of duplicates that is at its maximum would wrap around to 0.)
\<close>

lemma sr_stored_holds:
  assumes inv: "sr_inv S s" and cut: "sr_cut S data index" and cnt: "\<forall>c \<in> set (sr_count s). c \<noteq> - 1"
  shows "sr_holds (sr_stored s data index eof) i \<longleftrightarrow>
    (if unat index \<le> i \<and> i < unat index + length data then i < sr_read_pos s + unat (sr_capacity s) else sr_holds s i)"
proof -
  let ?u = "(sr_update_size s)\<lparr>sr_eofed := sr_eofed s \<or> eof\<rparr>"
  note u = sr_invD [OF sr_update_size_inv(1) [OF inv]] and b = sr_inv_bounds [OF inv] and d = sr_invD [OF inv]
  have t: "sr_stored s data index eof = sr_store_loop ?u data index"
    by (simp add: sr_stored_def sr_update_size_def Let_def)
  have len: "length (sr_count ?u) = sr_read_pos s + unat (sr_capacity s)"
    using sr_update_size_inv(2) [OF inv] by simp
  have old: "sr_count ?u ! i \<noteq> - 1" "sr_count ?u ! i \<noteq> 0 \<longleftrightarrow> sr_holds s i" if "i < length (sr_count ?u)"
    using that cnt d(5,6) b(3) nth_mem [of i "sr_count s"]
    by (auto simp: sr_update_size_def Let_def vec_resize_def nth_append sr_holds_def)
  have "sr_holds s i \<Longrightarrow> i < length (sr_count ?u)" using d(5,6) len by (simp add: sr_holds_def)
  moreover have "sr_count (sr_store_loop ?u data index) ! i = (if unat index \<le> i \<and> i < unat index + length data
      then sr_count ?u ! i + 1 else sr_count ?u ! i)" if "i < length (sr_count ?u)"
  proof (cases "data = []")
    case False
    then show ?thesis using that u(4) len b(4) cut d(1) by (intro sr_store_loop_count) (auto simp: sr_cut_def)
  qed simp
  ultimately show ?thesis
    unfolding t sr_holds_def [of "sr_store_loop ?u data index"]
    using old len by (cases "i < length (sr_count ?u)") (auto simp: eq_neg_iff_add_eq_0)
qed

lemma sr_push_holds:
  assumes "sr_inv S s" and "sr_cut S data index" and "\<forall>c \<in> set (sr_count s). c \<noteq> - 1"
  shows "sr_holds (sr_push_substring s data index eof) i \<longleftrightarrow>
    (if unat index \<le> i \<and> i < unat index + length data then i < sr_read_pos s + unat (sr_capacity s) else sr_holds s i)"
  unfolding sr_push_stored sr_update_output_holds [OF sr_stored_inv(1) [OF assms(1,2)]]
  by (rule sr_stored_holds [OF assms])

text \<open>
  A substring that starts no later than the first missing byte is assembled at once, as far as it lies
  in the window.
\<close>

lemma sr_push_assembles:
  assumes inv: "sr_inv S s" and cut: "sr_cut S data index" and "unat index \<le> sr_next_pos s"
    and cnt: "\<forall>c \<in> set (sr_count s). c \<noteq> - 1"
  shows "min (unat index + length data) (sr_read_pos s + unat (sr_capacity s))
    \<le> sr_next_pos (sr_push_substring s data index eof)"
proof -
  define t where "t = sr_stored s data index eof"
  have "min (unat index + length data) (sr_read_pos s + unat (sr_capacity s)) \<le> sr_next_pos t + sr_run t"
    using sr_stored_holds [OF inv cut cnt, of eof] assms(3)
    by (intro sr_run_ge) (auto simp: t_def sr_holds_def)
  then show ?thesis
    using sr_update_output_frame(1) [OF sr_stored_inv(1) [OF inv cut, of eof]]
    by (simp add: sr_push_stored t_def)
qed

lemma sr_push_progress:
  assumes "sr_inv S s" and "sr_cut S data index" and "unat index \<le> sr_next_pos s"
    and "unat index + length data \<le> sr_read_pos s + unat (sr_capacity s)"
    and "\<forall>c \<in> set (sr_count s). c \<noteq> - 1"
  shows "unat index + length data \<le> sr_next_pos (sr_push_substring s data index eof)"
  using sr_push_assembles [OF assms(1-3,5)] assms(4) by simp

text \<open>
  The end of the stream is handled correctly as long as a push that carries it has its last byte
  inside the window, or, if it is empty, comes after the last byte was received.
\<close>

definition sr_eof_ok :: "bytes \<Rightarrow> stream_reassembler \<Rightarrow> bytes \<Rightarrow> uint64 \<Rightarrow> bool" where
  "sr_eof_ok S s data index \<longleftrightarrow> unat index + length data = length S
     \<and> (if data = [] then unat (sr_first_unacceptable s) = length S
        else length S \<le> sr_read_pos s + unat (sr_capacity s))"

definition sr_eof_inv :: "bytes \<Rightarrow> stream_reassembler \<Rightarrow> bool" where
  "sr_eof_inv S s \<longleftrightarrow> (sr_eofed s \<longrightarrow> unat (sr_first_unacceptable s) = length S)
     \<and> (bs_end_flag (sr_output s) \<longleftrightarrow> sr_eofed s \<and> sr_next_pos s = length S)
     \<and> (bs_end_flag (sr_output s) \<longrightarrow> sr_written_pos s = length S)"

lemma sr_stored_reach:
  assumes inv: "sr_inv S s" and cut: "sr_cut S data index"
    and ok: "sr_eofed s \<and> unat (sr_first_unacceptable s) = length S \<or> eof \<and> sr_eof_ok S s data index"
  shows "unat (sr_first_unacceptable (sr_stored s data index eof)) = length S"
proof -
  let ?t = "sr_stored s data index eof" and ?u = "(sr_update_size s)\<lparr>sr_eofed := sr_eofed s \<or> eof\<rparr>"
  have t: "?t = sr_store_loop ?u data index"
    by (simp add: sr_stored_def sr_update_size_def Let_def)
  have fua: "sr_first_unacceptable ?u = sr_first_unacceptable s"
    by (simp add: sr_update_size_def Let_def)
  have le: "unat (sr_first_unacceptable ?t) \<le> length S"
    using sr_invD(7) [OF sr_stored_inv(1) [OF inv cut]] by (simp add: sr_agrees_def)
  have mono: "unat (sr_first_unacceptable s) \<le> unat (sr_first_unacceptable ?t)"
    using sr_store_loop_mono [of ?u data index] by (simp only: t fua)
  show ?thesis
  proof (cases "unat (sr_first_unacceptable s) = length S")
    case True
    with le mono show ?thesis by simp
  next
    case False
    with ok have "data \<noteq> []" and "unat index + length data = length S"
      and "length S \<le> sr_read_pos s + unat (sr_capacity s)"
      by (auto simp: sr_eof_ok_def split: if_splits)
    then have "length S \<le> unat (sr_first_unacceptable ?t)"
      using sr_invD(4) [OF sr_update_size_inv(1) [OF inv]] sr_update_size_inv(2) [OF inv]
        sr_inv_bounds(4) [OF inv]
      unfolding t by (subst sr_store_loop_reach) simp_all
    with le show ?thesis by simp
  qed
qed

lemma sr_push_eof [invar_intros]:
  assumes inv: "sr_inv S s" and cut: "sr_cut S data index" and e: "sr_eof_inv S s"
    and ok: "eof \<Longrightarrow> sr_eof_ok S s data index"
  shows "sr_eof_inv S (sr_push_substring s data index eof)"
proof -
  define t where "t = sr_push_substring s data index eof"
  note f = sr_push_frame [OF inv cut, where eof = eof, folded t_def]
  have inv': "sr_inv S t" unfolding t_def using inv cut by (rule sr_push_inv)
  have fua: "sr_first_unacceptable t = sr_first_unacceptable (sr_stored s data index eof)"
    unfolding t_def sr_push_stored
    using sr_update_output_frame(2) [OF sr_stored_inv(1) [OF inv cut]] .
  have reach: "unat (sr_first_unacceptable t) = length S" if "sr_eofed t"
    using that e ok unfolding fua f(3)
    by (intro sr_stored_reach [OF inv cut]) (auto simp: sr_eof_inv_def)
  have fin: "bs_end_flag (sr_output t) \<longleftrightarrow> sr_eofed t \<and> sr_next_pos t = length S"
  proof (cases "bs_end_flag (sr_output s)")
    case True
    then have "sr_eofed t" and "length S \<le> sr_next_pos t" using e f(3,5) by (auto simp: sr_eof_inv_def)
    then show ?thesis using True f(7) sr_inv_bounds(1) [OF inv'] by simp
  next
    case False
    then show ?thesis using f(7) reach by auto
  qed
  have "sr_written_pos t = (if bs_end_flag (sr_output s) then sr_written_pos s else sr_next_pos t)"
    using sr_update_output_written [OF sr_stored_inv(1) [OF inv cut, of eof]]
      sr_stored_inv(2) [OF inv cut] by (simp add: t_def sr_push_stored)
  then have "sr_written_pos t = length S" if "bs_end_flag (sr_output t)"
    using that fin e by (auto simp: sr_eof_inv_def)
  with reach fin show ?thesis unfolding t_def [symmetric] by (simp add: sr_eof_inv_def)
qed

section \<open>Counting what is not yet assembled\<close>

lemma sr_unassembled_loop_eq:
  assumes "i \<le> sr_first_unacceptable s" and "length (sr_count s) < size_limit"
  shows "sr_unassembled_loop s i n =
    (if unat (sr_first_unacceptable s) \<le> length (sr_count s) \<or> i = sr_first_unacceptable s
     then Inr (n + of_nat (length (filter (\<lambda>c. c \<noteq> 0)
            (drop (unat i) (take (unat (sr_first_unacceptable s)) (sr_count s))))))
     else Inl (Undefined_Behaviour ''StreamReassembler::unassembled_bytes''))"
  using assms
proof (induction s i n rule: sr_unassembled_loop.induct)
  case (1 s i n)
  let ?e = "sr_first_unacceptable s"
  show ?case
  proof (cases "i = ?e")
    case True
    then show ?thesis by (subst sr_unassembled_loop.simps) simp
  next
    case False
    with "1.prems" have lt: "i < ?e" by simp
    have suc: "unat (i + 1) = Suc (unat i)" using lt by (rule unat_plus_one)
    have le: "i + 1 \<le> ?e" using lt by (simp add: word_le_nat_alt word_less_nat_alt suc)
    show ?thesis
    proof (cases "unat i < length (sr_count s)")
      case False
      then show ?thesis
        using lt by (subst sr_unassembled_loop.simps) (auto simp: word_less_nat_alt)
    next
      case True
      then have nth: "drop (unat i) (take (unat ?e) (sr_count s))
          = sr_count s ! unat i # drop (Suc (unat i)) (take (unat ?e) (sr_count s))"
        using lt by (subst Cons_nth_drop_Suc [symmetric]) (simp_all add: word_less_nat_alt)
      have "i + 1 = ?e \<Longrightarrow> unat ?e \<le> length (sr_count s)" using True suc by auto
      then show ?thesis
        using "1.IH" [OF lt True le "1.prems"(2)] lt True
        by (subst sr_unassembled_loop.simps) (auto simp: suc nth)
    qed
  qed
qed

section \<open>Histories\<close>

datatype sr_op = Sr_Push bytes uint64 bool | Sr_Read size_t

fun sr_step :: "stream_reassembler \<times> bytes \<Rightarrow> sr_op \<Rightarrow> stream_reassembler \<times> bytes" where
  "sr_step (s, got) (Sr_Push data index eof) = (sr_push_substring s data index eof, got)"
| "sr_step (s, got) (Sr_Read len) = (case sr_read s len of (s', ret) \<Rightarrow> (s', got @ ret))"

definition sr_exec :: "size_t \<Rightarrow> sr_op list \<Rightarrow> stream_reassembler \<times> bytes" where
  "sr_exec cap ops = foldl sr_step (sr_new cap, []) ops"

fun sr_op_cut :: "bytes \<Rightarrow> sr_op \<Rightarrow> bool" where
  "sr_op_cut S (Sr_Push data index eof) = sr_cut S data index"
| "sr_op_cut S (Sr_Read len) = True"

lemma sr_step_inv:
  assumes "sr_inv S s" and "got = take (sr_read_pos s) S" and "sr_op_cut S op"
    and "sr_step (s, got) op = (s', got')"
  shows "sr_inv S s' \<and> got' = take (sr_read_pos s') S"
proof (cases op)
  case (Sr_Push data index eof)
  then show ?thesis
    using assms sr_push_inv [of S s data index eof] sr_push_frame(1) [of S s data index eof] by auto
next
  case (Sr_Read len)
  have "take (sr_read_pos s) S @ substr (sr_read_pos s) (sr_read_pos (fst (sr_read s len)) - sr_read_pos s) S
      = take (sr_read_pos (fst (sr_read s len))) S"
    using sr_read_inv(3) [OF assms(1), of len] by (simp add: take_append_substr)
  then show ?thesis
    using Sr_Read assms sr_read_inv(1,2) [OF assms(1), of len] by (cases "sr_read s len") auto
qed

lemma sr_exec_inv:
  assumes "unat cap < 2 ^ 63 - 1" and "length S < 2 ^ 63" and "list_all (sr_op_cut S) ops"
    and "sr_exec cap ops = (s, got)"
  shows "sr_inv S s \<and> got = take (sr_read_pos s) S"
  using assms(3,4)
proof (induction ops arbitrary: s got rule: rev_induct)
  case Nil
  then have "s = sr_new cap" and "got = []" by (simp_all add: sr_exec_def)
  then show ?case using sr_new_inv [OF assms(1,2)] by (simp add: sr_new_def)
next
  case (snoc op ops)
  obtain t h where th: "sr_exec cap ops = (t, h)" by force
  then have "sr_inv S t \<and> h = take (sr_read_pos t) S" using snoc by simp
  moreover have "sr_step (t, h) op = (s, got)" using snoc.prems(2) th by (simp add: sr_exec_def)
  ultimately show ?case using snoc.prems(1) by (intro sr_step_inv [of S t h op]) simp_all
qed

lemma sr_drain_output: "sr_output (fst (sr_drain p s str)) = sr_output s"
  by (induction p s str rule: sr_drain.induct) (subst sr_drain.simps, simp)

lemma bs_end_input_idem: "bs_end_flag s \<Longrightarrow> bs_end_input s = s"
  by (cases s) (simp add: bs_end_input_def)

lemma sr_push_ended:
  assumes "bs_end_flag (sr_output s)"
  shows "sr_output (sr_push_substring s data index eof) = sr_output s"
proof -
  obtain t str where d: "sr_drain 0 (sr_stored s data index eof) [] = (t, str)" by force
  then have "sr_output t = sr_output s"
    using sr_drain_output [of 0 "sr_stored s data index eof" "[]"] by simp
  then show ?thesis
    using assms d by (simp add: sr_push_stored sr_update_output_def Let_def ring.write_finished
        bs_end_input_idem)
qed

section \<open>Properties\<close>

text \<open>
  (C5) Reassembly is sound: if every pushed substring is cut from a stream \<open>S\<close>, then in any
  interleaving of pushes (out of order, overlapping, repeated, beyond the window, with the end
  marker on any of them) and reads, the bytes read so far followed by the bytes waiting in the
  output are a prefix of \<open>S\<close>.
\<close>

theorem reassembler_delivers_prefix:
  assumes "unat cap < 2 ^ 63 - 1" and "length S < 2 ^ 63" and "list_all (sr_op_cut S) ops"
    and "sr_exec cap ops = (s, got)"
  shows "got @ bs_contents (sr_output s) = take (unat (bs_bytes_written (sr_output s))) S"
proof -
  have inv: "sr_inv S s" and got: "got = take (sr_read_pos s) S"
    using sr_exec_inv [OF assms] by simp_all
  have "take (sr_read_pos s) S = take (sr_read_pos s) (take (sr_written_pos s) S)"
    using sr_invD(11) [OF inv] by (simp add: min_def)
  then show ?thesis by (simp only: got sr_invD(10) [OF inv] append_take_drop_id)
qed

theorem reassembler_delivers_prefix_witness:
  "\<exists>s. sr_exec 8 [Sr_Push [3, 4] 2 True, Sr_Push [2, 3] 1 False, Sr_Push [1] 0 False, Sr_Read 3]
     = (s, [1, 2, 3]) \<and> [1, 2, 3] @ bs_contents (sr_output s) = [1, 2, 3, 4]"
proof -
  let ?ops = "[Sr_Push [3, 4] 2 True, Sr_Push [2, 3] 1 False, Sr_Push [1] 0 False, Sr_Read 3]"
  have got: "snd (sr_exec 8 ?ops) = [1, 2, 3]"
    and w: "bs_bytes_written (sr_output (fst (sr_exec 8 ?ops))) = 4" by code_simp+
  then obtain s where s: "sr_exec 8 ?ops = (s, [1, 2, 3])" by (cases "sr_exec 8 ?ops") simp
  have "[1, 2, 3] @ bs_contents (sr_output s)
      = take (unat (bs_bytes_written (sr_output s))) [1, 2, 3, 4 :: uint8]"
    using s by (intro reassembler_delivers_prefix [where cap = 8 and ops = ?ops])
      (simp_all add: sr_cut_def substr_def)
  then show ?thesis using s w by simp
qed

text \<open>
  (C15) Reassembly makes progress: a substring of \<open>S\<close> that fits in the window and starts at or
  before the first missing byte is assembled by the push itself, so that everything up to its end
  (and whatever was waiting behind it) has been handed to the output. The counters of repeated
  arrivals are assumed not to be at the maximum of their type.
\<close>

theorem reassembler_progress:
  assumes "sr_inv S s" and "sr_cut S data index" and "unat index \<le> unat (sr_left s)"
    and "unat index + length data \<le> sr_read_pos s + unat (sr_capacity_value s)"
    and "\<forall>c \<in> set (sr_count s). c \<noteq> - 1" and "\<not> bs_end_flag (sr_output s)"
  shows "unat index + length data \<le> unat (sr_left (sr_push_substring s data index eof))
    \<and> bs_contents (sr_output (sr_push_substring s data index eof))
        = drop (sr_read_pos s) (take (unat (sr_left (sr_push_substring s data index eof))) S)"
proof -
  let ?t = "sr_push_substring s data index eof"
  have "unat index + length data \<le> sr_next_pos ?t"
    using assms by (intro sr_push_progress) (simp_all add: sr_left_def sr_capacity_value_def)
  moreover have "sr_written_pos ?t = sr_next_pos ?t"
    using sr_update_output_written [OF sr_stored_inv(1) [OF assms(1,2), of eof]]
      sr_stored_inv(2) [OF assms(1,2)] assms(6) by (simp add: sr_push_stored)
  ultimately show ?thesis
    using sr_invD(10) [OF sr_push_inv [OF assms(1,2), of eof]]
      sr_push_frame(1) [OF assms(1,2), of eof] by (simp add: sr_left_def)
qed

theorem reassembler_progress_witness:
  "3 \<le> unat (sr_left (sr_push_substring (sr_new 8) [1, 2, 3] 0 False))"
  using reassembler_progress [of "[1, 2, 3, 4]" "sr_new 8" "[1, 2, 3]" 0 False]
    sr_new_inv [of 8 "[1, 2, 3, 4]"]
  by (simp add: sr_cut_def substr_def sr_left_def sr_capacity_value_def)

text \<open>
  (C17) The end of the stream: if every push that carries the end marker ends at the end of \<open>S\<close> and
  either has its last byte inside the window or is empty and comes when the last byte has already
  been received, then the output is ended exactly when the marker was seen and all of \<open>S\<close> has been
  assembled, and by then all of \<open>S\<close> has been written to it.
\<close>

theorem reassembler_end_of_stream:
  assumes "sr_inv S s" and "sr_eof_inv S s" and "sr_cut S data index"
    and "eof \<longrightarrow> sr_eof_ok S s data index"
  shows "sr_eof_inv S (sr_push_substring s data index eof)
    \<and> (bs_input_ended (sr_output (sr_push_substring s data index eof)) \<longleftrightarrow>
         (sr_eofed s \<or> eof) \<and> unat (sr_left (sr_push_substring s data index eof)) = length S)
    \<and> (bs_input_ended (sr_output (sr_push_substring s data index eof)) \<longrightarrow>
         bs_contents (sr_output (sr_push_substring s data index eof)) = drop (sr_read_pos s) S)"
proof -
  let ?t = "sr_push_substring s data index eof"
  have e: "sr_eof_inv S ?t" using assms by (intro sr_push_eof) simp_all
  then show ?thesis
    using sr_invD(10) [OF sr_push_inv [OF assms(1,3), of eof]] sr_push_frame(1,3) [OF assms(1,3), of eof]
    by (simp add: sr_eof_inv_def bs_input_ended_def sr_left_def)
qed

theorem reassembler_end_of_stream_witness:
  "bs_input_ended (sr_output (sr_push_substring (sr_new 8) [1, 2] 0 True))
   \<and> bs_contents (sr_output (sr_push_substring (sr_new 8) [1, 2] 0 True)) = [1, 2]"
proof -
  have "sr_inv [1, 2] (sr_new 8)" by (rule sr_new_inv) simp_all
  moreover have "sr_eof_inv [1, 2] (sr_new 8)" by (simp add: sr_eof_inv_def)
  moreover have "sr_left (sr_push_substring (sr_new 8) [1, 2] 0 True) = 2" by code_simp
  ultimately show ?thesis
    using reassembler_end_of_stream [of "[1, 2]" "sr_new 8" "[1, 2]" 0 True]
    by (simp add: sr_cut_def substr_def sr_eof_ok_def)
qed

text \<open>
  (C33) An empty end marker that overtakes the data ends the output at once: on a fresh reassembler
  it makes the output reach its end with nothing delivered, whatever index it names, and no data
  that is pushed afterwards is ever delivered. (The check \<open>_eofed && empty()\<close> asks whether something
  is waiting, not whether the end has been reached.)
\<close>

theorem reassembler_early_end_loses_data:
  assumes "unat cap < 2 ^ 63 - 1"
  shows "bs_eof (sr_output (sr_push_substring (sr_new cap) [] index True))
    \<and> sr_output (sr_push_substring (sr_push_substring (sr_new cap) [] index True) data i eof)
        = sr_output (sr_push_substring (sr_new cap) [] index True)"
proof -
  let ?s = "sr_push_substring (sr_new cap) [] index True"
  have inv: "sr_inv [] (sr_new cap)" using assms by (intro sr_new_inv) simp_all
  have cut: "sr_cut [] [] index" by (simp add: sr_cut_def)
  have inv': "sr_inv [] ?s" using inv cut by (rule sr_push_inv)
  then have "sr_next_pos ?s = 0" and "unat (sr_first_unacceptable ?s) = 0"
    using sr_inv_bounds(1) [OF inv'] sr_invD(7) [OF inv'] by (simp_all add: sr_agrees_def)
  then have e: "bs_end_flag (sr_output ?s)"
    using sr_push_frame(3,7) [OF inv cut, of True] by simp
  moreover have "bs_contents (sr_output ?s) = []" using sr_invD(10) [OF inv'] by simp
  ultimately show ?thesis
    using sr_invD(2) [OF inv'] by (simp add: bs_eof_def bs_buffer_empty_iff sr_push_ended)
qed

theorem reassembler_early_end_loses_data_witness:
  "bs_eof (sr_output (sr_push_substring (sr_new 8) [] 4 True))
    \<and> sr_output (sr_push_substring (sr_push_substring (sr_new 8) [] 4 True) [1, 2, 3, 4] 0 False)
        = sr_output (sr_push_substring (sr_new 8) [] 4 True)"
  by (rule reassembler_early_end_loses_data) simp

text \<open>
  \<open>unassembled_bytes\<close> counts the distinct received bytes that wait behind a gap, provided
  \<open>_first_unacceptable\<close> is within the vector; after a byte beyond the window was rejected it may
  not be, and then the count runs past the end of \<open>_count\<close>.
\<close>

theorem unassembled_bytes_counts:
  assumes "sr_inv S s"
  shows "sr_unassembled_bytes s =
    (if unat (sr_first_unacceptable s) \<le> length (sr_count s)
     then Inr (of_nat (length (filter (\<lambda>c. c \<noteq> 0)
            (drop (unat (sr_left s)) (take (unat (sr_first_unacceptable s)) (sr_count s))))))
     else Inl (Undefined_Behaviour ''StreamReassembler::unassembled_bytes''))"
proof -
  note d = sr_invD [OF assms] and b = sr_inv_bounds [OF assms]
  have "length (sr_count s) < size_limit" using d(5,6) b(4) by simp
  then have "sr_unassembled_bytes s =
    (if unat (sr_first_unacceptable s) \<le> length (sr_count s)
        \<or> sr_first_unassembled s = sr_first_unacceptable s
     then Inr (0 + of_nat (length (filter (\<lambda>c. c \<noteq> 0)
            (drop (sr_next_pos s) (take (unat (sr_first_unacceptable s)) (sr_count s))))))
     else Inl (Undefined_Behaviour ''StreamReassembler::unassembled_bytes''))"
    unfolding sr_unassembled_bytes_def using b(5) by (rule sr_unassembled_loop_eq [rotated])
  moreover have "sr_first_unassembled s = sr_first_unacceptable s \<Longrightarrow>
      unat (sr_first_unacceptable s) \<le> length (sr_count s)" using d(9) by simp
  ultimately show ?thesis by (auto simp: sr_left_def)
qed

theorem unassembled_bytes_counts_witness:
  "sr_unassembled_bytes (sr_push_substring (sr_new 2) [8, 9] 1 False)
     = Inl (Undefined_Behaviour ''StreamReassembler::unassembled_bytes'')"
proof -
  have "sr_inv [7, 8, 9] (sr_new 2)" by (rule sr_new_inv) simp_all
  then have inv: "sr_inv [7, 8, 9] (sr_push_substring (sr_new 2) [8, 9] 1 False)"
    by (rule sr_push_inv) (simp add: sr_cut_def substr_def)
  have "sr_first_unacceptable (sr_push_substring (sr_new 2) [8, 9] 1 False) = 3"
    and "length (sr_count (sr_push_substring (sr_new 2) [8, 9] 1 False)) = 2" by code_simp+
  then show ?thesis using unassembled_bytes_counts [OF inv] by simp
qed

text \<open>
  Storage: after a push the two vectors hold one slot for every byte ever read plus the
  capacity, so memory grows with the length of the stream and not with the capacity.
\<close>

theorem reassembler_storage_grows:
  assumes "sr_inv S s" and "sr_cut S data index"
  shows "length (sr_buffer (sr_push_substring s data index eof))
      = unat (bs_bytes_read (sr_output s)) + unat (sr_capacity_value s)
    \<and> length (sr_count (sr_push_substring s data index eof))
      = unat (bs_bytes_read (sr_output s)) + unat (sr_capacity_value s)"
  using sr_push_frame(6) [OF assms, of eof] sr_invD(4) [OF sr_push_inv [OF assms, of eof]]
  by (simp add: sr_capacity_value_def)

theorem reassembler_storage_grows_witness:
  "length (sr_buffer (sr_push_substring (fst (sr_read (sr_push_substring (sr_new 2) [1, 2] 0 False) 2))
      [3] 2 False)) = 4"
proof -
  let ?s = "fst (sr_read (sr_push_substring (sr_new 2) [1, 2] 0 False) 2)"
  have "sr_inv [1, 2, 3] (sr_push_substring (sr_new 2) [1, 2] 0 False)"
    by (rule sr_push_inv [OF sr_new_inv]) (simp_all add: sr_cut_def substr_def)
  then have inv: "sr_inv [1, 2, 3] ?s" by (rule sr_read_inv)
  have "bs_bytes_read (sr_output ?s) = 2" and "sr_capacity_value ?s = 2" by code_simp+
  then show ?thesis
    using reassembler_storage_grows [OF inv, of "[3]" 2 False] by (simp add: sr_cut_def substr_def)
qed

text \<open>
  The loop of \<open>_update_output\<close> reads \<open>_count\<close> one past its end whenever the window is filled
  to the last byte; its result is nevertheless the same for every value it may find there.
\<close>

theorem update_output_past_end:
  assumes "length (sr_buffer s) = length (sr_count s)" and "length (sr_count s) < size_limit"
    and "unat (sr_first_unassembled s) \<le> length (sr_count s)"
  shows "sr_drain past_end s str = sr_drain 0 s str"
  using assms by (intro sr_drain_past_end) (simp add: sr_shape_def)

theorem update_output_past_end_witness:
  "sr_drain 7 ((sr_new 1)\<lparr>sr_first_unassembled := 1\<rparr>) [] = sr_drain 0 ((sr_new 1)\<lparr>sr_first_unassembled := 1\<rparr>) []
   \<and> vec_read 7 (sr_count (sr_new 1)) 1 = 7"
proof
  show "vec_read 7 (sr_count (sr_new 1)) 1 = 7" by (simp add: vec_read_def)
  show "sr_drain 7 ((sr_new 1)\<lparr>sr_first_unassembled := 1\<rparr>) []
      = sr_drain 0 ((sr_new 1)\<lparr>sr_first_unassembled := 1\<rparr>) []"
    by (rule update_output_past_end) (simp_all add: sr_new_def)
qed

end
