(* ===== verification/Buffer.thy ===== *)
theory Buffer
  imports Prelude
begin

text \<open>
  The strings that packets are made of (\<open>libsponge/util/buffer.hh\<close>, \<open>buffer.cc\<close>): a \<open>Buffer\<close> is a
  shared, read-only string with a moving start, a \<open>BufferList\<close> and a \<open>BufferViewList\<close> are
  sequences of such pieces. Storage is never written after construction, so that sharing it is the
  same as copying it. The interface that all three offer, a byte string whose front can be
  discarded, is the locale \<open>front_discard\<close>.
\<close>

section \<open>Buffer\<close>

record buffer =
  buf_storage :: "bytes option"
  buf_starting_offset :: size_t

definition buf_empty :: buffer where
  "buf_empty = \<lparr>buf_storage = None, buf_starting_offset = 0\<rparr>"

definition buf_of_string :: "bytes \<Rightarrow> buffer" where
  "buf_of_string str = \<lparr>buf_storage = Some str, buf_starting_offset = 0\<rparr>"

definition buf_str :: "buffer \<Rightarrow> bytes" where
  "buf_str b = (case buf_storage b of None \<Rightarrow> [] | Some st \<Rightarrow> drop (unat (buf_starting_offset b)) st)"

definition buf_at :: "buffer \<Rightarrow> size_t \<Rightarrow> uint8 result" where
  "buf_at b n = (if unat n < length (buf_str b) then Inr (buf_str b ! unat n)
     else Inl (Out_Of_Range ''basic_string_view::at''))"

definition buf_size :: "buffer \<Rightarrow> size_t" where
  "buf_size b = size_of (buf_str b)"

definition buf_copy :: "buffer \<Rightarrow> bytes" where
  "buf_copy b = buf_str b"

definition buf_remove_prefix :: "size_t \<Rightarrow> buffer \<Rightarrow> buffer result" where
  "buf_remove_prefix n b =
     (if buf_size b < n then Inl (Out_Of_Range ''Buffer::remove_prefix'')
      else let b = b\<lparr>buf_starting_offset := buf_starting_offset b + n\<rparr>
           in case buf_storage b of
                None \<Rightarrow> Inr b
              | Some st \<Rightarrow> if buf_starting_offset b = size_of st
                           then Inr (b\<lparr>buf_storage := None\<rparr>) else Inr b)"

section \<open>BufferList\<close>

type_synonym buffer_list = "buffer list"

definition blist_append :: "buffer_list \<Rightarrow> buffer_list \<Rightarrow> buffer_list" where
  "blist_append bl other = bl @ other"

definition blist_to_buffer :: "buffer_list \<Rightarrow> buffer result" where
  "blist_to_buffer bl =
     (case bl of
        [] \<Rightarrow> Inr buf_empty
      | [b] \<Rightarrow> Inr b
      | _ \<Rightarrow> Inl (Runtime_Error ''BufferList: please use concatenate() to combine a multi-Buffer BufferList into one Buffer''))"

definition blist_concatenate :: "buffer_list \<Rightarrow> bytes" where
  "blist_concatenate bl = foldl (\<lambda>ret buf. ret @ buf_str buf) [] bl"

definition blist_size :: "buffer_list \<Rightarrow> size_t" where
  "blist_size bl = foldl (\<lambda>ret buf. ret + buf_size buf) 0 bl"

fun blist_remove_prefix :: "size_t \<Rightarrow> buffer_list \<Rightarrow> buffer_list result" where
  "blist_remove_prefix n [] =
     (if 0 < n then Inl (Out_Of_Range ''BufferList::remove_prefix'') else Inr [])"
| "blist_remove_prefix n (b # bl) =
     (if 0 < n then
        (if n < buf_size b then bind_res (buf_remove_prefix n b) (\<lambda>b'. Inr (b' # bl))
         else blist_remove_prefix (n - buf_size b) bl)
      else Inr (b # bl))"

section \<open>BufferViewList\<close>

text \<open>A view is the string it shows; an \<open>iovec\<close> is the string at its address and its length.\<close>

type_synonym buffer_view_list = "bytes list"

definition bview_of_string :: "bytes \<Rightarrow> buffer_view_list" where
  "bview_of_string str = [str]"

definition bview_of_list :: "buffer_list \<Rightarrow> buffer_view_list" where
  "bview_of_list buffers = map buf_str buffers"

fun bview_remove_prefix :: "size_t \<Rightarrow> buffer_view_list \<Rightarrow> buffer_view_list result" where
  "bview_remove_prefix n [] =
     (if 0 < n then Inl (Out_Of_Range ''BufferListView::remove_prefix'') else Inr [])"
| "bview_remove_prefix n (v # vl) =
     (if 0 < n then
        (if n < size_of v then Inr (drop (unat n) v # vl)
         else bview_remove_prefix (n - size_of v) vl)
      else Inr (v # vl))"

definition bview_size :: "buffer_view_list \<Rightarrow> size_t" where
  "bview_size vl = foldl (\<lambda>ret v. ret + size_of v) 0 vl"

definition bview_as_iovecs :: "buffer_view_list \<Rightarrow> (bytes \<times> size_t) list" where
  "bview_as_iovecs vl = map (\<lambda>v. (v, size_of v)) vl"

section \<open>Invariants and the common interface\<close>

text \<open>The start is inside the storage, and no string is as long as the address space.\<close>

definition buf_inv :: "buffer \<Rightarrow> bool" where
  "buf_inv b \<longleftrightarrow> (case buf_storage b of None \<Rightarrow> True
     | Some st \<Rightarrow> length st < size_limit \<and> unat (buf_starting_offset b) \<le> length st)"

definition blist_inv :: "buffer_list \<Rightarrow> bool" where
  "blist_inv bl \<longleftrightarrow> list_all buf_inv bl"

definition bview_inv :: "buffer_view_list \<Rightarrow> bool" where
  "bview_inv vl \<longleftrightarrow> list_all (\<lambda>v. length v < size_limit) vl"

lemma buf_empty_str [simp]: "buf_str buf_empty = []" "buf_inv buf_empty"
  by (simp_all add: buf_str_def buf_empty_def buf_inv_def)

lemma buf_of_string_str [simp]:
  "buf_str (buf_of_string str) = str"
  "buf_inv (buf_of_string str) \<longleftrightarrow> length str < size_limit"
  by (simp_all add: buf_str_def buf_of_string_def buf_inv_def)

lemma length_buf_str: "buf_inv b \<Longrightarrow> length (buf_str b) < size_limit"
  by (auto simp: buf_inv_def buf_str_def split: option.splits)

lemma length_buf_str_numeral [simp]: "buf_inv b \<Longrightarrow> length (buf_str b) < 18446744073709551616"
  using length_buf_str [of b] by simp

lemma unat_buf_size: "buf_inv b \<Longrightarrow> unat (buf_size b) = length (buf_str b)"
  using length_buf_str [of b] by (simp add: buf_size_def unat_size_of)

lemma blist_concatenate_eq [simp]: "blist_concatenate bl = concat (map buf_str bl)"
proof -
  have "foldl (\<lambda>ret buf. ret @ buf_str buf) acc bl = acc @ concat (map buf_str bl)" for acc
    by (induction bl arbitrary: acc) simp_all
  then show ?thesis by (simp add: blist_concatenate_def)
qed

lemma foldl_size_sum:
  "foldl (\<lambda>ret x. ret + size_of (f x)) acc xs = acc + size_of (concat (map f xs))"
  by (induction xs arbitrary: acc) simp_all

lemma blist_size_eq: "blist_size bl = size_of (blist_concatenate bl)"
  using foldl_size_sum [of buf_str 0 bl] by (simp add: blist_size_def buf_size_def)

lemma bview_size_eq: "bview_size vl = size_of (concat vl)"
  using foldl_size_sum [of "\<lambda>v. v" 0 vl] by (simp add: bview_size_def)

text \<open>
  A byte string whose front can be discarded: discarding no more than is there drops exactly that
  many bytes, and discarding more is an exception.
\<close>

locale front_discard =
  fixes discard :: "size_t \<Rightarrow> 'b \<Rightarrow> 'b result"
    and view :: "'b \<Rightarrow> bytes"
    and invar :: "'b \<Rightarrow> bool"
  assumes discard_ok: "invar b \<Longrightarrow> unat n \<le> length (view b) \<Longrightarrow>
      \<exists>b'. discard n b = Inr b' \<and> view b' = drop (unat n) (view b) \<and> invar b'"
    and discard_fails: "invar b \<Longrightarrow> length (view b) < unat n \<Longrightarrow>
      \<exists>what. discard n b = Inl (Out_Of_Range what)"
begin

lemma discard_ends: "invar b \<Longrightarrow> (\<exists>b'. discard n b = Inr b') \<longleftrightarrow> unat n \<le> length (view b)"
  using discard_ok [of b n] discard_fails [of b n] by fastforce

lemma discard_view:
  assumes "invar b" and "discard n b = Inr b'"
  shows "view b' = drop (unat n) (view b)" and "invar b'" and "unat n \<le> length (view b)"
  using assms discard_ok [of b n] discard_fails [of b n] by fastforce+

lemma discard_twice:
  assumes "invar b" and "unat m + unat n \<le> length (view b)" and "unat m + unat n < size_limit"
  shows "\<exists>b' c. bind_res (discard m b) (discard n) = Inr b' \<and> discard (m + n) b = Inr c
    \<and> view b' = view c \<and> view c = drop (unat m + unat n) (view b)"
proof -
  obtain d where d: "discard m b = Inr d" "view d = drop (unat m) (view b)" "invar d"
    using discard_ok [of b m] assms by auto
  then have "unat n \<le> length (view d)" using assms by simp
  then obtain b' where b': "discard n d = Inr b'" "view b' = drop (unat n) (view d)"
    using discard_ok [of d n] d by auto
  have mn: "unat (m + n) = unat m + unat n" using assms by (simp add: unat_plus_no_wrap)
  then obtain c where "discard (m + n) b = Inr c" "view c = drop (unat (m + n)) (view b)"
    using discard_ok [of b "m + n"] assms by auto
  then show ?thesis using d b' mn by (simp add: add.commute)
qed

end

lemma buf_remove_prefix_ok:
  assumes "buf_inv b" and "unat n \<le> length (buf_str b)"
  shows "\<exists>b'. buf_remove_prefix n b = Inr b' \<and> buf_str b' = drop (unat n) (buf_str b) \<and> buf_inv b'"
proof (cases "buf_storage b")
  case None
  then show ?thesis using assms
    by (auto simp: buf_remove_prefix_def buf_str_def buf_inv_def Let_def word_less_nat_alt
        unat_buf_size)
next
  case (Some st)
  then have st: "length st < size_limit" "unat (buf_starting_offset b) \<le> length st"
    using assms by (simp_all add: buf_inv_def)
  then have "unat (buf_starting_offset b) + unat n \<le> length st"
    using assms Some by (simp add: buf_str_def)
  moreover from this have "unat (buf_starting_offset b + n) = unat (buf_starting_offset b) + unat n"
    using st by (intro unat_plus_no_wrap) simp
  moreover from this have "buf_starting_offset b + n = size_of st \<Longrightarrow>
      length st = unat (buf_starting_offset b) + unat n"
    using st by (simp add: unat_size_of)
  ultimately show ?thesis using assms Some st unat_buf_size [OF assms(1)]
    by (auto simp: buf_remove_prefix_def buf_str_def buf_inv_def Let_def word_less_nat_alt
        add.commute)
qed

interpretation buf: front_discard buf_remove_prefix buf_str buf_inv
proof
  show "buf_inv b \<Longrightarrow> unat n \<le> length (buf_str b) \<Longrightarrow>
      \<exists>b'. buf_remove_prefix n b = Inr b' \<and> buf_str b' = drop (unat n) (buf_str b) \<and> buf_inv b'" for b n
    by (rule buf_remove_prefix_ok)
  show "buf_inv b \<Longrightarrow> length (buf_str b) < unat n \<Longrightarrow>
      \<exists>what. buf_remove_prefix n b = Inl (Out_Of_Range what)" for b n
    by (simp add: buf_remove_prefix_def word_less_nat_alt unat_buf_size)
qed

text \<open>How the loop of the two list classes consumes one piece.\<close>

lemma discard_piece:
  assumes "length xs < size_limit"
  shows "n < size_of xs \<longleftrightarrow> unat n < length xs"
    and "length xs \<le> unat n \<Longrightarrow> unat (n - size_of xs) = unat n - length xs"
  using assms by (simp_all add: word_less_nat_alt unat_size_of unat_minus_no_wrap)

lemma blist_remove_prefix_ok:
  assumes "blist_inv bl" and "unat n \<le> length (blist_concatenate bl)"
  shows "\<exists>bl'. blist_remove_prefix n bl = Inr bl'
    \<and> blist_concatenate bl' = drop (unat n) (blist_concatenate bl) \<and> blist_inv bl'"
  using assms
proof (induction n bl rule: blist_remove_prefix.induct)
  case (2 n b bl)
  then have b: "buf_inv b" "length (buf_str b) < size_limit" and bl: "blist_inv bl"
    by (simp_all add: blist_inv_def length_buf_str)
  show ?case
  proof (cases "unat n < length (buf_str b)")
    case True
    then obtain b' where "buf_remove_prefix n b = Inr b'" "buf_str b' = drop (unat n) (buf_str b)"
        "buf_inv b'"
      using buf.discard_ok [OF b(1), of n] by auto
    then show ?thesis using True b bl
      by (auto simp: buf_size_def discard_piece blist_inv_def word_gt_0)
  next
    case False
    then have "unat (n - buf_size b) = unat n - length (buf_str b)"
      using b by (simp add: buf_size_def discard_piece)
    then show ?thesis using False b bl 2
      by (auto simp: buf_size_def discard_piece blist_inv_def word_gt_0)
  qed
qed (auto simp: word_gt_0 unat_eq_0)

lemma blist_remove_prefix_fails:
  assumes "blist_inv bl" and "length (blist_concatenate bl) < unat n"
  shows "blist_remove_prefix n bl = Inl (Out_Of_Range ''BufferList::remove_prefix'')"
  using assms
proof (induction n bl rule: blist_remove_prefix.induct)
  case (2 n b bl)
  then have b: "length (buf_str b) < size_limit" and bl: "blist_inv bl"
    by (simp_all add: blist_inv_def length_buf_str)
  moreover have "unat (n - buf_size b) = unat n - length (buf_str b)"
    using b 2 by (simp add: buf_size_def discard_piece)
  ultimately show ?case using 2 by (auto simp: buf_size_def discard_piece word_gt_0)
qed (auto simp: word_gt_0 unat_eq_0)

interpretation blist: front_discard blist_remove_prefix blist_concatenate blist_inv
proof
  show "blist_inv bl \<Longrightarrow> unat n \<le> length (blist_concatenate bl) \<Longrightarrow>
      \<exists>bl'. blist_remove_prefix n bl = Inr bl'
        \<and> blist_concatenate bl' = drop (unat n) (blist_concatenate bl) \<and> blist_inv bl'" for bl n
    by (rule blist_remove_prefix_ok)
qed (blast dest: blist_remove_prefix_fails)

text \<open>The view list runs the same loop on plain strings.\<close>

lemma bview_remove_prefix_ok:
  assumes "bview_inv vl" and "unat n \<le> length (concat vl)"
  shows "\<exists>vl'. bview_remove_prefix n vl = Inr vl' \<and> concat vl' = drop (unat n) (concat vl) \<and> bview_inv vl'"
  using assms
proof (induction n vl rule: bview_remove_prefix.induct)
  case (2 n v vl)
  then have v: "length v < size_limit" and vl: "bview_inv vl" by (simp_all add: bview_inv_def)
  show ?case
  proof (cases "unat n < length v")
    case True
    then show ?thesis using v vl by (auto simp: discard_piece bview_inv_def word_gt_0)
  next
    case False
    then have "unat (n - size_of v) = unat n - length v" using v by (simp add: discard_piece)
    then show ?thesis using False v vl 2 by (auto simp: discard_piece bview_inv_def word_gt_0)
  qed
qed (auto simp: word_gt_0 unat_eq_0)

lemma bview_remove_prefix_fails:
  assumes "bview_inv vl" and "length (concat vl) < unat n"
  shows "bview_remove_prefix n vl = Inl (Out_Of_Range ''BufferListView::remove_prefix'')"
  using assms
proof (induction n vl rule: bview_remove_prefix.induct)
  case (2 n v vl)
  moreover from 2 have "unat (n - size_of v) = unat n - length v"
    by (simp add: discard_piece bview_inv_def)
  ultimately show ?case by (auto simp: discard_piece word_gt_0 bview_inv_def)
qed (auto simp: word_gt_0 unat_eq_0)

interpretation bview: front_discard bview_remove_prefix concat bview_inv
proof
  show "bview_inv vl \<Longrightarrow> unat n \<le> length (concat vl) \<Longrightarrow>
      \<exists>vl'. bview_remove_prefix n vl = Inr vl' \<and> concat vl' = drop (unat n) (concat vl) \<and> bview_inv vl'"
    for vl n by (rule bview_remove_prefix_ok)
qed (blast dest: bview_remove_prefix_fails)

section \<open>Properties\<close>

text \<open>
  Discarding the front of a \<open>BufferList\<close>: if at least \<open>n\<close> bytes are there, the list that
  remains shows exactly the bytes after the first \<open>n\<close>, whatever the pieces are, and its
  \<open>BufferViewList\<close> can be consumed to the same bytes; otherwise both throw \<open>out_of_range\<close>.
\<close>

theorem buffer_list_remove_prefix:
  assumes "blist_inv bl"
  shows "if unat n \<le> length (blist_concatenate bl)
    then \<exists>bl' vl'. blist_remove_prefix n bl = Inr bl' \<and> bview_remove_prefix n (bview_of_list bl) = Inr vl'
      \<and> blist_concatenate bl' = drop (unat n) (blist_concatenate bl) \<and> concat vl' = blist_concatenate bl'
    else blist_remove_prefix n bl = Inl (Out_Of_Range ''BufferList::remove_prefix'')
      \<and> bview_remove_prefix n (bview_of_list bl) = Inl (Out_Of_Range ''BufferListView::remove_prefix'')"
proof -
  have v: "bview_inv (bview_of_list bl)"
    using assms by (auto simp: bview_inv_def bview_of_list_def blist_inv_def list_all_iff length_buf_str)
  have c: "concat (bview_of_list bl) = blist_concatenate bl" by (simp add: bview_of_list_def)
  show ?thesis
    using blist.discard_ok [OF assms, of n] bview.discard_ok [OF v, of n]
      blist_remove_prefix_fails [OF assms, of n] bview_remove_prefix_fails [OF v, of n]
    unfolding c by (cases "unat n \<le> length (blist_concatenate bl)") fastforce+
qed

theorem buffer_list_remove_prefix_witness:
  "\<exists>bl'. blist_remove_prefix 3 [buf_of_string [1, 2], buf_of_string [3, 4]] = Inr bl'
    \<and> blist_concatenate bl' = [4]"
  using buffer_list_remove_prefix [of "[buf_of_string [1, 2], buf_of_string [3, 4]]" 3]
  by (auto simp: blist_inv_def simp del: blist_remove_prefix.simps)

end
