(* ===== verification/Parser.thy ===== *)
theory Parser
  imports Buffer
begin

text \<open>
  Reading and writing integers in network byte order (\<open>libsponge/util/parser.hh\<close>, \<open>parser.cc\<close>).
  A \<open>NetParser\<close> keeps the rest of the packet and the first thing that went wrong; after an error
  it reads zeros and consumes nothing. The template \<open>_parse_int<T>\<close> is one definition over words of
  any length. The laws that tie a reader to its writer form the locale \<open>int_codec\<close>, which is
  interpreted for the three widths that the program uses.
\<close>

section \<open>Parse results\<close>

datatype ParseResult =
    NoError
  | BadChecksum
  | PacketTooShort
  | WrongIPVersion
  | HeaderTooShort
  | TruncatedPacket
  | Unsupported

text \<open>The table of names has no entry for the last result.\<close>

fun as_string :: "ParseResult \<Rightarrow> string result" where
  "as_string NoError = Inr ''NoError''"
| "as_string BadChecksum = Inr ''BadChecksum''"
| "as_string PacketTooShort = Inr ''PacketTooShort''"
| "as_string WrongIPVersion = Inr ''WrongIPVersion''"
| "as_string HeaderTooShort = Inr ''HeaderTooShort''"
| "as_string TruncatedPacket = Inr ''TruncatedPacket''"
| "as_string Unsupported = Inl (Undefined_Behaviour ''as_string: read past the end of _names'')"

section \<open>NetParser\<close>

record net_parser =
  np_buffer :: buffer
  np_get_error :: ParseResult

definition np_new :: "buffer \<Rightarrow> net_parser" where
  "np_new b = \<lparr>np_buffer = b, np_get_error = NoError\<rparr>"

definition np_set_error :: "ParseResult \<Rightarrow> net_parser \<Rightarrow> net_parser" where
  "np_set_error res p = p\<lparr>np_get_error := res\<rparr>"

definition np_error :: "net_parser \<Rightarrow> bool" where
  "np_error p \<longleftrightarrow> np_get_error p \<noteq> NoError"

definition np_check_size :: "size_t \<Rightarrow> net_parser \<Rightarrow> net_parser" where
  "np_check_size n p = (if buf_size (np_buffer p) < n then np_set_error PacketTooShort p else p)"

text \<open>The loop of \<open>_parse_int\<close>, over the indices that are left.\<close>

fun np_read_loop :: "buffer \<Rightarrow> size_t list \<Rightarrow> 'a::len word \<Rightarrow> 'a word result" where
  "np_read_loop b [] ret = Inr ret"
| "np_read_loop b (i # is) ret =
     bind_res (buf_at b i) (\<lambda>c. np_read_loop b is (push_bit 8 ret + ucast c))"

definition np_parse_int :: "net_parser \<Rightarrow> ('a::len word \<times> net_parser) result" where
  "np_parse_int p =
     (let len = LENGTH('a) div 8;
          p = np_check_size (of_nat len) p
      in if np_error p then Inr (0, p)
         else bind_res (np_read_loop (np_buffer p) (map of_nat [0..<len]) 0) (\<lambda>ret.
              bind_res (buf_remove_prefix (of_nat len) (np_buffer p)) (\<lambda>b.
              Inr (ret, p\<lparr>np_buffer := b\<rparr>))))"

definition np_u32 :: "net_parser \<Rightarrow> (uint32 \<times> net_parser) result" where
  "np_u32 p = np_parse_int p"

definition np_u16 :: "net_parser \<Rightarrow> (uint16 \<times> net_parser) result" where
  "np_u16 p = np_parse_int p"

definition np_u8 :: "net_parser \<Rightarrow> (uint8 \<times> net_parser) result" where
  "np_u8 p = np_parse_int p"

definition np_remove_prefix :: "size_t \<Rightarrow> net_parser \<Rightarrow> net_parser result" where
  "np_remove_prefix n p =
     (let p = np_check_size n p
      in if np_error p then Inr p
         else bind_res (buf_remove_prefix n (np_buffer p)) (\<lambda>b. Inr (p\<lparr>np_buffer := b\<rparr>)))"

section \<open>NetUnparser\<close>

definition nu_unparse_int :: "bytes \<Rightarrow> 'a::len word \<Rightarrow> bytes" where
  "nu_unparse_int s val =
     (let len = LENGTH('a) div 8
      in foldl (\<lambda>s i. s @ [ucast (drop_bit ((len - i - 1) * 8) val AND 0xff)]) s [0..<len])"

definition nu_u32 :: "bytes \<Rightarrow> uint32 \<Rightarrow> bytes" where
  "nu_u32 s val = nu_unparse_int s val"

definition nu_u16 :: "bytes \<Rightarrow> uint16 \<Rightarrow> bytes" where
  "nu_u16 s val = nu_unparse_int s val"

definition nu_u8 :: "bytes \<Rightarrow> uint8 \<Rightarrow> bytes" where
  "nu_u8 s val = nu_unparse_int s val"

section \<open>Big-endian values\<close>

definition be_nat :: "bytes \<Rightarrow> nat" where
  "be_nat bs = foldl (\<lambda>r b. r * 256 + unat b) 0 bs"

definition be_bytes :: "'a::len word \<Rightarrow> bytes" where
  "be_bytes v = nu_unparse_int [] v"

lemma foldl_snoc: "foldl (\<lambda>s i. s @ [f i]) s is = s @ map f is"
  by (induction "is" arbitrary: s) simp_all

lemma nu_unparse_int_eq:
  "nu_unparse_int s (v :: 'a::len word) = s @ be_bytes v"
  by (simp add: be_bytes_def nu_unparse_int_def Let_def foldl_snoc)

lemma low_byte: "(ucast (w AND 0xff) :: uint8) = of_nat (unat w)"
proof -
  have "(0xff :: 'a::len word) = mask 8" by (simp add: mask_eq_exp_minus_1)
  then have "w AND 0xff = take_bit 8 w" by (simp add: take_bit_eq_mask)
  then have "unat (ucast (w AND 0xff) :: uint8) = take_bit 8 (unat w)"
    by (simp add: unsigned_ucast_eq unsigned_take_bit_eq)
  also have "\<dots> = unat (of_nat (unat w) :: uint8)" by (simp add: unsigned_ucast_eq)
  finally show ?thesis by (rule unat_eqD)
qed

lemma be_bytes_eq:
  "be_bytes (v :: 'a::len word) =
    map (\<lambda>i. of_nat (unat v div 256 ^ (LENGTH('a) div 8 - i - 1))) [0..<LENGTH('a) div 8]"
proof -
  have "unat (drop_bit (k * 8) v) = unat v div 256 ^ k" for k
  proof -
    have "(2 :: nat) ^ (k * 8) = (2 ^ 8) ^ k" by (simp only: mult.commute [of k] power_mult)
    moreover have "unat (drop_bit (k * 8) v) = unat v div 2 ^ (k * 8)"
      by (simp only: unat_drop_bit_eq) (simp add: drop_bit_eq_div)
    ultimately show ?thesis by simp
  qed
  then show ?thesis by (simp add: be_bytes_def nu_unparse_int_def Let_def foldl_snoc low_byte)
qed

lemma length_be_bytes [simp]: "length (be_bytes (v :: 'a::len word)) = LENGTH('a) div 8"
  by (simp add: be_bytes_eq)

lemma be_nat_snoc [simp]: "be_nat (bs @ [b]) = be_nat bs * 256 + unat b" "be_nat [] = 0"
  by (simp_all add: be_nat_def)

lemma be_nat_digits:
  "be_nat (map (\<lambda>i. of_nat (n div 256 ^ (k - i - 1))) [0..<k]) = n mod 256 ^ k"
proof (induction k arbitrary: n)
  case (Suc k)
  have "map (\<lambda>i. of_nat (n div 256 ^ (Suc k - i - 1)) :: uint8) [0..<k]
      = map (\<lambda>i. of_nat (n div 256 div 256 ^ (k - i - 1))) [0..<k]"
  proof (rule map_cong)
    show "of_nat (n div 256 ^ (Suc k - i - 1)) = (of_nat (n div 256 div 256 ^ (k - i - 1)) :: uint8)"
      if "i \<in> set [0..<k]" for i
    proof -
      from that have "Suc k - i - 1 = Suc (k - i - 1)" by auto
      then show ?thesis by (simp only: power_Suc div_mult2_eq)
    qed
  qed simp
  then have "be_nat (map (\<lambda>i. of_nat (n div 256 ^ (Suc k - i - 1))) [0..<k]) = n div 256 mod 256 ^ k"
    using Suc.IH [of "n div 256"] by (simp only:)
  then have "be_nat (map (\<lambda>i. of_nat (n div 256 ^ (Suc k - i - 1))) [0..<Suc k])
      = n div 256 mod 256 ^ k * 256 + n mod 256"
    by (simp add: unat_of_nat take_bit_eq_mod)
  also have "\<dots> = n mod 256 ^ Suc k" by (simp add: mod_mult2_eq)
  finally show ?case .
qed simp

lemma be_nat_be_bytes [simp]:
  assumes "8 dvd LENGTH('a)"
  shows "be_nat (be_bytes (v :: 'a::len word)) = unat v"
proof -
  have "(256 :: nat) ^ (LENGTH('a) div 8) = 2 ^ LENGTH('a)"
    using assms power_mult [of "2 :: nat" 8 "LENGTH('a) div 8"] by simp
  then show ?thesis
    using unsigned_less [of v, where 'a = nat] by (simp only: be_bytes_eq be_nat_digits mod_less)
qed

text \<open>What the loop of \<open>_parse_int\<close> computes, and the buffer that it leaves.\<close>

lemma np_read_loop_eq:
  assumes "i + k \<le> length (buf_str b)" and "i + k < size_limit"
  shows "np_read_loop b (map of_nat [i..<i + k]) (of_nat n :: 'a::len word) =
    Inr (of_nat (foldl (\<lambda>r c. r * 256 + unat c) n (take k (drop i (buf_str b)))))"
  using assms
proof (induction k arbitrary: i n)
  case (Suc k)
  have at: "buf_at b (of_nat i) = Inr (buf_str b ! i)"
    using Suc.prems by (simp add: buf_at_def unat_of_nat_less)
  have "push_bit 8 (of_nat n) + ucast (buf_str b ! i) = (of_nat (n * 256 + unat (buf_str b ! i)) :: 'a word)"
    by (simp add: push_bit_eq_mult)
  moreover have "[i..<i + Suc k] = i # [Suc i..<Suc i + k]" by (simp add: upt_rec)
  moreover have "take (Suc k) (drop i (buf_str b)) = buf_str b ! i # take k (drop (Suc i) (buf_str b))"
    using Suc.prems by (simp add: Cons_nth_drop_Suc [symmetric])
  ultimately show ?case using Suc.IH [of "Suc i" "n * 256 + unat (buf_str b ! i)"] Suc.prems at by simp
qed simp

definition buf_skip :: "nat \<Rightarrow> buffer \<Rightarrow> buffer" where
  "buf_skip n b = (case buf_remove_prefix (of_nat n) b of Inr b' \<Rightarrow> b' | Inl _ \<Rightarrow> b)"

lemma buf_skip:
  assumes "buf_inv b" and "n \<le> length (buf_str b)"
  shows "buf_remove_prefix (of_nat n) b = Inr (buf_skip n b)"
    and "buf_str (buf_skip n b) = drop n (buf_str b)"
    and "buf_inv (buf_skip n b)"
proof -
  have "n < size_limit" using assms length_buf_str [OF assms(1)] by linarith
  then have "unat (of_nat n :: size_t) = n" by (intro unat_of_nat_less) simp
  then obtain b' where "buf_remove_prefix (of_nat n) b = Inr b' \<and> buf_str b' = drop n (buf_str b) \<and> buf_inv b'"
    using buf.discard_ok [OF assms(1), of "of_nat n"] assms(2) by auto
  then show "buf_remove_prefix (of_nat n) b = Inr (buf_skip n b)"
    and "buf_str (buf_skip n b) = drop n (buf_str b)" and "buf_inv (buf_skip n b)"
    by (simp_all add: buf_skip_def)
qed

lemma np_check_size_ok:
  assumes "buf_inv (np_buffer p)"
  shows "n < size_limit \<Longrightarrow> np_check_size (of_nat n) p =
    (if length (buf_str (np_buffer p)) < n then p\<lparr>np_get_error := PacketTooShort\<rparr> else p)"
  using assms
  by (simp add: np_check_size_def np_set_error_def word_less_nat_alt unat_buf_size unat_of_nat_less)

lemma np_parse_int_ok:
  fixes p :: net_parser
  defines "str \<equiv> buf_str (np_buffer p)"
  assumes "buf_inv (np_buffer p)" and "np_get_error p = NoError" and "LENGTH('a) div 8 \<le> length str"
  shows "np_parse_int p = Inr (of_nat (be_nat (take (LENGTH('a) div 8) str)) :: 'a::len word,
    p\<lparr>np_buffer := buf_skip (LENGTH('a) div 8) (np_buffer p)\<rparr>)"
proof -
  have "LENGTH('a) div 8 < size_limit" 
    using assms(4) length_buf_str [OF assms(2)] unfolding str_def by linarith
  then show ?thesis
    using assms np_read_loop_eq [of 0 "LENGTH('a) div 8" "np_buffer p" 0, where 'a = 'a]
    by (simp add: np_parse_int_def Let_def np_check_size_ok np_error_def buf_skip be_nat_def)
qed

lemma np_parse_int_fails:
  fixes p :: net_parser
  assumes "buf_inv (np_buffer p)" and "LENGTH('a) div 8 < size_limit"
    and "length (buf_str (np_buffer p)) < LENGTH('a) div 8 \<or> np_get_error p \<noteq> NoError"
  shows "np_parse_int p = Inr (0 :: 'a::len word,
    p\<lparr>np_get_error := if length (buf_str (np_buffer p)) < LENGTH('a) div 8 then PacketTooShort
        else np_get_error p\<rparr>)"
  using assms by (auto simp: np_parse_int_def Let_def np_check_size_ok np_error_def)

lemma np_remove_prefix_ok:
  assumes "buf_inv (np_buffer p)" and "np_get_error p = NoError" and "n \<le> length (buf_str (np_buffer p))"
  shows "np_remove_prefix (of_nat n) p = Inr (p\<lparr>np_buffer := buf_skip n (np_buffer p)\<rparr>)"
proof -
  have "n < size_limit" using assms length_buf_str [OF assms(1)] by linarith
  then show ?thesis
    using assms by (simp add: np_remove_prefix_def Let_def np_check_size_ok np_error_def buf_skip)
qed

lemma np_remove_prefix_fails:
  assumes "buf_inv (np_buffer p)" and "n < size_limit"
    and "length (buf_str (np_buffer p)) < n \<or> np_get_error p \<noteq> NoError"
  shows "np_remove_prefix (of_nat n) p = Inr (p\<lparr>np_get_error :=
    if length (buf_str (np_buffer p)) < n then PacketTooShort else np_get_error p\<rparr>)"
  using assms by (auto simp: np_remove_prefix_def Let_def np_check_size_ok np_error_def)

text \<open>The big-endian field of \<open>w\<close> bytes at an offset.\<close>

definition be_field :: "nat \<Rightarrow> nat \<Rightarrow> bytes \<Rightarrow> 'a::len word" where
  "be_field off w str = of_nat (be_nat (take w (drop off str)))"

text \<open>A parser without an error in front of the string \<open>str\<close>.\<close>

definition np_reads :: "net_parser \<Rightarrow> bytes \<Rightarrow> bool" where
  "np_reads p str \<longleftrightarrow> buf_inv (np_buffer p) \<and> np_get_error p = NoError \<and> buf_str (np_buffer p) = str"

lemma np_reads_new: "buf_inv b \<Longrightarrow> np_reads (np_new b) (buf_str b)"
  by (simp add: np_reads_def np_new_def)

lemma np_reads_skip:
  "np_reads p str \<Longrightarrow> w \<le> length str \<Longrightarrow> np_reads (p\<lparr>np_buffer := buf_skip w (np_buffer p)\<rparr>) (drop w str)"
  by (auto simp: np_reads_def buf_skip)

lemma np_remove_prefix_reads:
  "np_reads p str \<Longrightarrow> n \<le> length str \<Longrightarrow> \<exists>q. np_remove_prefix (of_nat n) p = Inr q \<and> np_reads q (drop n str)"
  using np_remove_prefix_ok [of p n] np_reads_skip [of p str n] by (auto simp: np_reads_def)

text \<open>A parser that has failed, or will fail before it has read \<open>k\<close> more bytes.\<close>

definition np_low :: "net_parser \<Rightarrow> nat \<Rightarrow> bool" where
  "np_low p k \<longleftrightarrow> buf_inv (np_buffer p) \<and> (np_get_error p = PacketTooShort
     \<or> np_get_error p = NoError \<and> length (buf_str (np_buffer p)) < k)"

lemma np_low_0: "np_low p 0 \<Longrightarrow> np_get_error p = PacketTooShort"
  by (simp add: np_low_def)

lemma np_low_new: "buf_inv b \<Longrightarrow> length (buf_str b) < k \<Longrightarrow> np_low (np_new b) k"
  by (simp add: np_low_def np_new_def)

lemma np_remove_prefix_short: "np_get_error p = PacketTooShort \<Longrightarrow> np_remove_prefix n p = Inr p"
  by (simp add: np_remove_prefix_def np_check_size_def np_set_error_def np_error_def Let_def)

section \<open>The codecs of the three widths\<close>

text \<open>
  A reader and a writer of a field of \<open>width\<close> bytes. The writer appends; the reader gives back what
  the writer wrote and leaves the rest; a packet that is too short is marked, and a marked parser
  reads zeros and consumes nothing. No read throws.
\<close>

locale int_codec =
  fixes rd :: "net_parser \<Rightarrow> ('a::len word \<times> net_parser) result"
    and wr :: "bytes \<Rightarrow> 'a word \<Rightarrow> bytes"
    and width :: nat
  assumes wr_append: "wr s v = s @ be_bytes v"
    and wr_width: "length (be_bytes (v :: 'a word)) = width"
    and value_bytes: "be_nat (be_bytes (v :: 'a word)) = unat v"
    and rd_ok: "buf_inv (np_buffer p) \<Longrightarrow> np_get_error p = NoError \<Longrightarrow>
      width \<le> length (buf_str (np_buffer p)) \<Longrightarrow>
      rd p = Inr (of_nat (be_nat (take width (buf_str (np_buffer p)))),
        p\<lparr>np_buffer := buf_skip width (np_buffer p)\<rparr>)"
    and rd_fails: "buf_inv (np_buffer p) \<Longrightarrow>
      length (buf_str (np_buffer p)) < width \<or> np_get_error p \<noteq> NoError \<Longrightarrow>
      rd p = Inr (0, p\<lparr>np_get_error :=
        if length (buf_str (np_buffer p)) < width then PacketTooShort else np_get_error p\<rparr>)"
begin

lemma rd_step:
  assumes "np_reads p str" and "width \<le> length str"
  shows "\<exists>q. rd p = Inr (of_nat (be_nat (take width str)), q) \<and> np_reads q (drop width str)"
  using assms rd_ok [of p] np_reads_skip [of p str width] by (auto simp: np_reads_def)

lemma rd_at:
  assumes "np_reads p (drop off str)" and "n \<le> length str" and "off + width \<le> n"
  shows "\<exists>q. rd p = Inr (be_field off width str, q) \<and> np_reads q (drop (off + width) str)"
  using rd_step [OF assms(1)] assms(2,3) by (simp add: be_field_def add.commute)

lemma rd_wr:
  assumes "np_reads p (wr [] v @ rest)"
  shows "\<exists>q. rd p = Inr (v, q) \<and> np_reads q rest"
  using rd_step [OF assms] wr_width [of v] by (simp add: wr_append value_bytes)

lemma rd_total: "buf_inv (np_buffer p) \<Longrightarrow> \<exists>v q. rd p = Inr (v, q) \<and> buf_inv (np_buffer q)"
  using rd_ok [of p] rd_fails [of p] buf_skip(3) [of "np_buffer p" width]
  by (cases "length (buf_str (np_buffer p)) < width \<or> np_get_error p \<noteq> NoError") auto

lemma rd_low: "np_low p (width + k) \<Longrightarrow> \<exists>v q. rd p = Inr (v, q) \<and> np_low q k"
  using rd_ok [of p] rd_fails [of p] buf_skip [of "np_buffer p" width]
  by (cases "length (buf_str (np_buffer p)) < width") (auto simp: np_low_def)

lemma wr_inj: "wr s v = wr s w \<Longrightarrow> v = w"
  using value_bytes [of v] value_bytes [of w] by (simp add: wr_append unat_eqD)

end

interpretation u32: int_codec np_u32 nu_u32 4
proof
  show "np_u32 p = Inr (of_nat (be_nat (take 4 (buf_str (np_buffer p)))),
      p\<lparr>np_buffer := buf_skip 4 (np_buffer p)\<rparr>)"
    if "buf_inv (np_buffer p)" "np_get_error p = NoError" "4 \<le> length (buf_str (np_buffer p))" for p
    using that np_parse_int_ok [of p, where 'a = 32] by (simp add: np_u32_def)
  show "np_u32 p = Inr (0, p\<lparr>np_get_error :=
      if length (buf_str (np_buffer p)) < 4 then PacketTooShort else np_get_error p\<rparr>)"
    if "buf_inv (np_buffer p)" "length (buf_str (np_buffer p)) < 4 \<or> np_get_error p \<noteq> NoError" for p
    using that np_parse_int_fails [of p, where 'a = 32] by (simp add: np_u32_def)
qed (simp_all add: nu_u32_def nu_unparse_int_eq)

interpretation u16: int_codec np_u16 nu_u16 2
proof
  show "np_u16 p = Inr (of_nat (be_nat (take 2 (buf_str (np_buffer p)))),
      p\<lparr>np_buffer := buf_skip 2 (np_buffer p)\<rparr>)"
    if "buf_inv (np_buffer p)" "np_get_error p = NoError" "2 \<le> length (buf_str (np_buffer p))" for p
    using that np_parse_int_ok [of p, where 'a = 16] by (simp add: np_u16_def)
  show "np_u16 p = Inr (0, p\<lparr>np_get_error :=
      if length (buf_str (np_buffer p)) < 2 then PacketTooShort else np_get_error p\<rparr>)"
    if "buf_inv (np_buffer p)" "length (buf_str (np_buffer p)) < 2 \<or> np_get_error p \<noteq> NoError" for p
    using that np_parse_int_fails [of p, where 'a = 16] by (simp add: np_u16_def)
qed (simp_all add: nu_u16_def nu_unparse_int_eq)

interpretation u8: int_codec np_u8 nu_u8 1
proof
  show "np_u8 p = Inr (of_nat (be_nat (take 1 (buf_str (np_buffer p)))),
      p\<lparr>np_buffer := buf_skip 1 (np_buffer p)\<rparr>)"
    if "buf_inv (np_buffer p)" "np_get_error p = NoError" "1 \<le> length (buf_str (np_buffer p))" for p
    using that np_parse_int_ok [of p, where 'a = 8] by (simp add: np_u8_def)
  show "np_u8 p = Inr (0, p\<lparr>np_get_error :=
      if length (buf_str (np_buffer p)) < 1 then PacketTooShort else np_get_error p\<rparr>)"
    if "buf_inv (np_buffer p)" "length (buf_str (np_buffer p)) < 1 \<or> np_get_error p \<noteq> NoError" for p
    using that np_parse_int_fails [of p, where 'a = 8] by (simp add: np_u8_def)
qed (simp_all add: nu_u8_def nu_unparse_int_eq)

text \<open>Facts that carry the proofs about packet formats.\<close>

lemmas codec_write = u32.wr_append u16.wr_append u8.wr_append

end
