(* ===== verification/Internet_Checksum.thy ===== *)
theory Internet_Checksum
  imports Parser
begin

text \<open>
  The Internet checksum (\<open>InternetChecksum\<close> of \<open>libsponge/util/util.hh\<close> and \<open>util.cc\<close>): a 32-bit
  running sum of big-endian 16-bit words, and the loop that folds its carries back in. The folded
  value is shown to be the ones' complement sum, and a packet whose checksum field holds the value
  computed with the field zeroed is shown to verify.
\<close>

record internet_checksum =
  ck_sum :: uint32
  ck_parity :: bool

definition ck_new :: "uint32 \<Rightarrow> internet_checksum" where
  "ck_new initial_sum = \<lparr>ck_sum = initial_sum, ck_parity = False\<rparr>"

fun ck_add :: "internet_checksum \<Rightarrow> bytes \<Rightarrow> internet_checksum" where
  "ck_add c [] = c"
| "ck_add c (b # data) =
     (let val = ucast b :: uint16;
          val = if \<not> ck_parity c then push_bit 8 val else val
      in ck_add (c\<lparr>ck_sum := ck_sum c + ucast val, ck_parity := \<not> ck_parity c\<rparr>) data)"

function ck_fold :: "uint32 \<Rightarrow> uint32" where
  "ck_fold ret = (if 0xffff < ret then ck_fold (drop_bit 16 ret + (ret AND 0xffff)) else ret)"
  by pat_completeness auto

definition carry_sum :: "nat \<Rightarrow> nat" where
  "carry_sum x = x div 65536 + x mod 65536"

lemma carry_sum_eq: "x = x div 65536 * 65535 + carry_sum x"
  using div_mult_mod_eq [of x 65536] unfolding carry_sum_def by linarith

lemma carry_sum_less: "65535 < x \<Longrightarrow> carry_sum x < x"
proof -
  assume "65535 < x"
  then have "0 < x div 65536" by (simp add: div_greater_zero_iff)
  then show ?thesis using carry_sum_eq [of x] by linarith
qed

lemma carry_sum_pos: "0 < x \<Longrightarrow> 0 < carry_sum x"
  using div_mult_mod_eq [of x 65536] unfolding carry_sum_def by (cases "x div 65536") auto

lemma carry_sum_mod: "carry_sum x mod 65535 = x mod 65535"
  using carry_sum_eq [of x] by (metis mod_mult_self3)

lemma unat_low_half: "unat ((ret :: uint32) AND 0xffff) = unat ret mod 65536"
proof -
  have "ret AND 0xffff = ret AND mask 16" by (simp add: mask_eq_exp_minus_1)
  also have "\<dots> = take_bit 16 ret" by (rule take_bit_eq_mask [symmetric])
  finally have "unat (ret AND 0xffff) = take_bit 16 (unat ret)" by (simp only: unsigned_take_bit_eq)
  then show ?thesis by (simp add: take_bit_eq_mod)
qed

lemma unat_carry: "unat (drop_bit 16 (ret :: uint32) + (ret AND 0xffff)) = carry_sum (unat ret)"
proof -
  have h: "unat (drop_bit 16 ret) = unat ret div 65536"
    by (simp only: unat_drop_bit_eq) (simp add: drop_bit_eq_div)
  have "unat ret < 2 ^ 32" using unsigned_less [of ret, where 'a = nat] by simp
  then have "unat ret div 65536 < 65536" by (simp add: less_mult_imp_div_less)
  moreover have "unat ret mod 65536 < 65536" by simp
  ultimately have "unat (drop_bit 16 ret) + unat (ret AND 0xffff) < 2 ^ LENGTH(32)"
    unfolding h unat_low_half by simp
  then show ?thesis by (simp only: unat_plus_no_wrap h unat_low_half carry_sum_def)
qed

termination ck_fold
proof (relation "measure unat")
  show "(drop_bit 16 ret + (ret AND 0xffff), ret) \<in> measure unat" if "0xffff < ret" for ret :: uint32
  proof -
    from that have "65535 < unat ret" by (simp add: word_less_nat_alt)
    then show ?thesis by (simp only: in_measure unat_carry carry_sum_less)
  qed
qed simp

declare ck_fold.simps [simp del]

definition ck_value :: "internet_checksum \<Rightarrow> uint16" where
  "ck_value c = ucast (NOT (ck_fold (ck_sum c)))"

section \<open>The ones' complement sum\<close>

lemma ck_fold_correct:
  "unat (ck_fold x) \<le> 65535 \<and> unat (ck_fold x) mod 65535 = unat x mod 65535
    \<and> (unat (ck_fold x) = 0 \<longleftrightarrow> unat x = 0)"
proof (induction x rule: ck_fold.induct)
  case (1 x)
  show ?case
  proof (cases "0xffff < x")
    case True
    then have "65535 < unat x" by (simp add: word_less_nat_alt)
    then show ?thesis
      using 1 [OF True] True carry_sum_pos [of "unat x"]
      by (simp add: ck_fold.simps [of x] unat_carry carry_sum_mod)
  next
    case False
    then show ?thesis by (simp add: ck_fold.simps [of x] word_less_nat_alt not_less)
  qed
qed

text \<open>The ones' complement residue of a sum: the representative in 1..65535, or 0 for 0.\<close>

definition ones_residue :: "nat \<Rightarrow> nat" where
  "ones_residue n = (if n = 0 then 0 else (n - 1) mod 65535 + 1)"

lemma mod_pred: "0 < n \<Longrightarrow> (n + 65534) mod 65535 = (n - 1) mod (65535 :: nat)"
proof -
  assume "0 < n"
  then have "n + 65534 = n - 1 + 65535" by simp
  then show ?thesis by (simp only: mod_add_self2)
qed

lemma ones_residue_unique:
  assumes "r \<le> 65535" and "r mod 65535 = n mod 65535" and "r = 0 \<longleftrightarrow> n = 0"
  shows "r = ones_residue n"
proof (cases "r = 0")
  case False
  have "(r + 65534) mod 65535 = (n + 65534) mod 65535" by (rule mod_add_cong [OF assms(2) refl])
  then have "(r - 1) mod 65535 = (n - 1) mod 65535" using False assms(3) by (simp only: mod_pred)
  then show ?thesis using False assms by (simp add: ones_residue_def)
qed (use assms in \<open>simp add: ones_residue_def\<close>)

lemma ones_residue_complement: "0 < n + (65535 - ones_residue n) \<and> 65535 dvd n + (65535 - ones_residue n)"
proof (cases n)
  case (Suc m)
  obtain q r where m: "m = q * 65535 + r" and r: "r < 65535" and "m mod 65535 = r"
    by (metis div_mult_mod_eq mod_less_divisor zero_less_numeral)
  then have "n + (65535 - ones_residue n) = (q + 1) * 65535" using Suc by (simp add: ones_residue_def)
  then show ?thesis by simp
qed (simp add: ones_residue_def)

lemma unat_ck_value: "unat (ck_value c) = 65535 - ones_residue (unat (ck_sum c))"
proof -
  let ?f = "ck_fold (ck_sum c)"
  have f: "unat ?f = ones_residue (unat (ck_sum c))" "unat ?f \<le> 65535"
    using ck_fold_correct [of "ck_sum c"] by (auto intro: ones_residue_unique)
  have "NOT ?f = 0xffffffff - ?f" by (simp add: not_eq_complement)
  then have "unat (NOT ?f) = 0xffffffff - unat ?f" using f(2) by (simp add: unat_minus_no_wrap)
  then have "unat (ck_value c) = (0xffffffff - unat ?f) mod 65536"
    by (simp add: ck_value_def unsigned_ucast_eq take_bit_eq_mod)
  also have "0xffffffff - unat ?f = (65535 - unat ?f) + 65535 * 65536" using f(2) by simp
  also have "\<dots> mod 65536 = 65535 - unat ?f" by (subst mod_mult_self1) simp
  finally show ?thesis using f(1) by simp
qed

text \<open>The sum over the natural numbers, and the bound under which 32 bits hold it.\<close>

fun byte_sum :: "bool \<Rightarrow> bytes \<Rightarrow> nat" where
  "byte_sum parity [] = 0"
| "byte_sum parity (b # bs) = (if parity then unat b else unat b * 256) + byte_sum (\<not> parity) bs"

lemma byte_sum_append:
  "byte_sum parity (xs @ ys) = byte_sum parity xs + byte_sum (parity \<noteq> odd (length xs)) ys"
proof (induction xs arbitrary: parity)
  case (Cons x xs)
  show ?case using Cons.IH [of "\<not> parity"] by (cases "odd (length xs)"; cases parity) simp_all
qed simp

lemma unat_byte: "unat (b :: uint8) < 256"
  using unsigned_less [of b, where 'a = nat] by simp

lemma byte_sum_bound: "byte_sum parity bs \<le> 65280 * length bs"
proof (induction bs arbitrary: parity)
  case (Cons b bs)
  show ?case using Cons.IH [of "\<not> parity"] unat_byte [of b] by (cases parity) simp_all
qed simp

lemma unat_byte_word:
  "unat (ucast (if \<not> parity then push_bit 8 (ucast (b :: uint8)) else ucast b :: uint16) :: uint32)
    = (if parity then unat b else unat b * 256)"
proof -
  have "unat (push_bit 8 (ucast b :: uint16)) = unat b * 256"
    using unat_byte [of b]
    by (simp add: push_bit_eq_mult unat_word_ariths unsigned_ucast_eq take_bit_nat_eq_self)
  moreover have "unat b < 65536" using unat_byte [of b] by simp
  ultimately show ?thesis using unat_byte [of b]
    by (simp add: unsigned_ucast_eq take_bit_nat_eq_self)
qed

lemma ck_add_parity: "ck_parity (ck_add c bs) \<longleftrightarrow> (ck_parity c \<noteq> odd (length bs))"
  by (induction bs arbitrary: c) (auto simp: Let_def)

lemma ck_add_append: "ck_add c (xs @ ys) = ck_add (ck_add c xs) ys"
  by (induction xs arbitrary: c) (simp_all add: Let_def)

lemma ck_add_sum:
  assumes "unat (ck_sum c) + byte_sum (ck_parity c) bs < 2 ^ 32"
  shows "unat (ck_sum (ck_add c bs)) = unat (ck_sum c) + byte_sum (ck_parity c) bs"
  using assms
proof (induction bs arbitrary: c)
  case (Cons b bs)
  let ?v = "ucast (if \<not> ck_parity c then push_bit 8 (ucast b) else ucast b :: uint16) :: uint32"
  let ?c = "c\<lparr>ck_sum := ck_sum c + ?v, ck_parity := \<not> ck_parity c\<rparr>"
  have v: "unat ?v = (if ck_parity c then unat b else unat b * 256)" by (rule unat_byte_word)
  have "unat (ck_sum c + ?v) = unat (ck_sum c) + unat ?v"
    using Cons.prems by (intro unat_plus_no_wrap) (simp only: v, auto)
  then show ?case using Cons.IH [of ?c] Cons.prems
    by (simp add: Let_def v del: ucast_id)
qed simp

text \<open>No packet of the program is long enough for the 32-bit sum to wrap.\<close>

lemma ck_add_new_sum:
  assumes "length bs < 65536" and "unat init < 2 ^ 24"
  shows "unat (ck_sum (ck_add (ck_new init) bs)) = unat init + byte_sum False bs"
  using assms byte_sum_bound [of False bs] ck_add_sum [of "ck_new init" bs] by (simp add: ck_new_def)

lemma ck_value_zero_iff:
  assumes "length bs < 65536" and "unat init < 2 ^ 24"
  shows "ck_value (ck_add (ck_new init) bs) = 0 \<longleftrightarrow>
    0 < unat init + byte_sum False bs \<and> 65535 dvd unat init + byte_sum False bs"
proof -
  let ?S = "unat init + byte_sum False bs"
  have "ck_value (ck_add (ck_new init) bs) = 0 \<longleftrightarrow> 65535 - ones_residue ?S = 0"
    by (simp only: unat_0_iff [symmetric] unat_ck_value ck_add_new_sum [OF assms])
  also have "\<dots> \<longleftrightarrow> 0 < ?S \<and> (?S - 1) mod 65535 = 65534"
    using mod_less_divisor [of 65535 "?S - 1"] by (auto simp: ones_residue_def)
  also have "\<dots> \<longleftrightarrow> 0 < ?S \<and> ?S mod 65535 = 0"
    by (cases ?S) (auto simp: mod_Suc)
  finally show ?thesis by (simp only: dvd_eq_mod_eq_0)
qed

lemma byte_sum_be_bytes: "byte_sum False (be_bytes (c :: uint16)) = unat c"
proof -
  have "be_bytes c = [of_nat (unat c div 256), of_nat (unat c)]"
    by (simp add: be_bytes_eq upt_rec numeral_2_eq_2)
  moreover have "unat c div 256 < 256"
    using unsigned_less [of c, where 'a = nat] by (simp add: less_mult_imp_div_less)
  ultimately show ?thesis by (simp add: unat_of_nat unsigned_ucast_eq take_bit_eq_mod)
qed

lemma ck_value_filled:
  assumes "even (length pre)" and "length pre + length post + 2 < 65536" and "unat init < 2 ^ 24"
    and "c = ck_value (ck_add (ck_new init) (pre @ [0, 0] @ post))"
  shows "ck_value (ck_add (ck_new init) (pre @ be_bytes c @ post)) = 0"
proof -
  let ?S = "unat init + byte_sum False (pre @ [0, 0] @ post)"
  have c: "unat c = 65535 - ones_residue ?S"
    unfolding assms(4) unat_ck_value using assms by (subst ck_add_new_sum) simp_all
  have "unat init + byte_sum False (pre @ be_bytes c @ post) = ?S + unat c"
    using assms(1) by (simp add: byte_sum_append byte_sum_be_bytes)
  moreover have "0 < ?S + unat c \<and> 65535 dvd ?S + unat c"
    unfolding c by (rule ones_residue_complement)
  ultimately show ?thesis using assms(2,3) by (subst ck_value_zero_iff) (simp_all add: add.assoc)
qed

lemma byte_sum_update:
  assumes "i < length bs"
  shows "byte_sum parity (bs[i := b]) + (if parity \<noteq> odd i then 1 else 256) * unat (bs ! i)
    = byte_sum parity bs + (if parity \<noteq> odd i then 1 else 256) * unat b"
  using assms
proof (induction bs arbitrary: parity i)
  case (Cons x bs)
  show ?case
  proof (cases i)
    case (Suc j)
    then show ?thesis using Cons.IH [of j "\<not> parity"] Cons.prems by (cases parity; cases "odd j") simp_all
  qed simp
qed simp

lemma dvd_below: "(m :: nat) dvd a \<Longrightarrow> m dvd b \<Longrightarrow> a \<noteq> b \<Longrightarrow> m \<le> b - a \<or> m \<le> a - b"
  by (metis dvd_diff_nat dvd_imp_le linorder_neqE_nat zero_less_diff)

text \<open>
  The sum as RFC 1071 defines it: of the 16-bit words in network order, the last byte of data of odd
  length standing for a word with a zero byte after it.
\<close>

fun word_sum :: "bytes \<Rightarrow> nat" where
  "word_sum [] = 0"
| "word_sum [hi] = 256 * unat hi"
| "word_sum (hi # lo # bs) = (256 * unat hi + unat lo) + word_sum bs"

lemma byte_sum_word_sum: "byte_sum False bs = word_sum bs"
  by (induction bs rule: word_sum.induct) simp_all

lemma ck_add_concat: "foldl ck_add c parts = ck_add c (concat parts)"
  by (induction parts arbitrary: c) (simp_all add: ck_add_append)

section \<open>Properties\<close>

text \<open>
  (C29) \<open>InternetChecksum::value\<close> is the complement of the ones' complement sum: however the data is
  cut into the parts that are given to \<open>add\<close> one after the other, parts of odd length included, folding
  the carries of the 32-bit sum terminates and gives the representative in 1..65535 (0 for an empty
  sum) of the sum of the big-endian 16-bit words of the whole data, the last one padded.
\<close>

theorem checksum_value:
  assumes "length (concat parts) < 65536" and "unat init < 2 ^ 24"
  shows "unat (ck_value (foldl ck_add (ck_new init) parts))
    = 65535 - ones_residue (unat init + word_sum (concat parts))"
  by (simp only: ck_add_concat unat_ck_value ck_add_new_sum [OF assms] byte_sum_word_sum)

theorem checksum_value_witness:
  "unat (ck_value (ck_add (ck_add (ck_add (ck_new 0) [0xff]) [0xfe, 0x00]) [0x03])) = 65533
    \<and> unat (ck_value (ck_add (ck_new 0) [0xff, 0xfe, 0x00, 0x03])) = 65533"
  using checksum_value [of "[[0xff], [0xfe, 0x00], [0x03]]" 0] checksum_value [of "[[0xff, 0xfe, 0x00, 0x03]]" 0]
  by (simp add: ones_residue_def)

text \<open>
  Computing and checking agree: when the 16-bit field at an even offset holds the value
  computed over the packet with that field zeroed, the value over the whole packet is 0.
\<close>

theorem checksum_verifies:
  assumes "even (length pre)" and "length pre + length post + 2 < 65536" and "unat init < 2 ^ 24"
    and "c = ck_value (ck_add (ck_new init) (pre @ [0, 0] @ post))"
  shows "ck_value (ck_add (ck_new init) (pre @ be_bytes c @ post)) = 0"
  using assms by (rule ck_value_filled)

theorem checksum_verifies_witness:
  "ck_value (ck_add (ck_new 6) [0x45, 0x00, 0xba, 0xe5, 0x00, 0x14]) = 0"
proof -
  have "ck_value (ck_add (ck_new 6) ([0x45, 0x00] @ [0, 0] @ [0x00, 0x14])) = 0xbae5"
    by (simp add: ck_new_def ck_value_def ck_fold.simps)
  then have "ck_value (ck_add (ck_new 6) ([0x45, 0x00] @ be_bytes (0xbae5 :: uint16) @ [0x00, 0x14])) = 0"
    by (intro checksum_verifies) simp_all
  then show ?thesis by (simp add: be_bytes_eq upt_rec)
qed

text \<open>
  A packet that verifies does not verify any more after a change of any one of its bytes.
\<close>

theorem checksum_detects_change:
  assumes "ck_value (ck_add (ck_new init) bs) = 0" and "i < length bs" and "b \<noteq> bs ! i"
    and "length bs < 65536" and "unat init < 2 ^ 24"
  shows "ck_value (ck_add (ck_new init) (bs[i := b])) \<noteq> 0"
proof
  assume "ck_value (ck_add (ck_new init) (bs[i := b])) = 0"
  then have d: "65535 dvd unat init + byte_sum False (bs[i := b])"
      "65535 dvd unat init + byte_sum False bs"
    using assms ck_value_zero_iff [of bs init] ck_value_zero_iff [of "bs[i := b]" init] by simp_all
  have "unat b \<noteq> unat (bs ! i)" using assms(3) by (auto dest: unat_eqD)
  then have "unat init + byte_sum False (bs[i := b]) \<noteq> unat init + byte_sum False bs"
    using byte_sum_update [OF assms(2), of False b] by (auto split: if_splits)
  then show False
    using dvd_below [OF d] byte_sum_update [OF assms(2), of False b] unat_byte [of b] unat_byte [of "bs ! i"]
    by (auto split: if_splits)
qed

theorem checksum_detects_change_witness:
  "ck_value (ck_add (ck_new 6) ([0x45, 0x00, 0xba, 0xe5, 0x00, 0x14][5 := 0x15])) \<noteq> 0"
  by (rule checksum_detects_change) (simp_all add: ck_new_def ck_value_def ck_fold.simps)

end
