(* ===== verification/TCP_Segment.thy ===== *)
theory TCP_Segment
  imports Internet_Checksum Wrapping_Integers
begin

text \<open>
  TCP headers and segments (\<open>libsponge/tcp_helpers/tcp_header.hh\<close>, \<open>tcp_header.cc\<close>,
  \<open>tcp_segment.hh\<close>, \<open>tcp_segment.cc\<close>): the fields, parsing and serialising, and the length in
  sequence space.
\<close>

section \<open>TCPHeader\<close>

record tcp_header =
  th_sport :: uint16
  th_dport :: uint16
  th_seqno :: WrappingInt32
  th_ackno :: WrappingInt32
  th_doff :: uint8
  th_urg :: bool
  th_ack :: bool
  th_psh :: bool
  th_rst :: bool
  th_syn :: bool
  th_fin :: bool
  th_win :: uint16
  th_cksum :: uint16
  th_uptr :: uint16

definition th_LENGTH :: size_t where
  "th_LENGTH = 20"

definition th_new :: tcp_header where
  "th_new = \<lparr>th_sport = 0, th_dport = 0, th_seqno = WrappingInt32 0, th_ackno = WrappingInt32 0,
     th_doff = 5, th_urg = False, th_ack = False, th_psh = False, th_rst = False, th_syn = False,
     th_fin = False, th_win = 0, th_cksum = 0, th_uptr = 0\<rparr>"

text \<open>\<open>parse\<close> assigns every field before it looks at any of them.\<close>

definition th_parse :: "net_parser \<Rightarrow> (tcp_header \<times> net_parser \<times> ParseResult) result" where
  "th_parse p =
     bind_res (np_u16 p) (\<lambda>(sport, p).
     bind_res (np_u16 p) (\<lambda>(dport, p).
     bind_res (np_u32 p) (\<lambda>(seqno, p).
     bind_res (np_u32 p) (\<lambda>(ackno, p).
     bind_res (np_u8 p) (\<lambda>(off_b, p).
     bind_res (np_u8 p) (\<lambda>(fl_b, p).
     bind_res (np_u16 p) (\<lambda>(win, p).
     bind_res (np_u16 p) (\<lambda>(cksum, p).
     bind_res (np_u16 p) (\<lambda>(uptr, p).
     let doff = drop_bit 4 off_b;
         h = \<lparr>th_sport = sport, th_dport = dport, th_seqno = WrappingInt32 seqno,
              th_ackno = WrappingInt32 ackno, th_doff = doff,
              th_urg = (fl_b AND 0x20 \<noteq> 0), th_ack = (fl_b AND 0x10 \<noteq> 0),
              th_psh = (fl_b AND 0x08 \<noteq> 0), th_rst = (fl_b AND 0x04 \<noteq> 0),
              th_syn = (fl_b AND 0x02 \<noteq> 0), th_fin = (fl_b AND 0x01 \<noteq> 0),
              th_win = win, th_cksum = cksum, th_uptr = uptr\<rparr>
     in if doff < 5 then Inr (h, p, HeaderTooShort)
        else bind_res (np_remove_prefix (ucast doff * 4 - th_LENGTH) p) (\<lambda>p.
             if np_error p then Inr (h, p, np_get_error p) else Inr (h, p, NoError)))))))))))"

definition th_flags :: "tcp_header \<Rightarrow> uint8" where
  "th_flags h = (if th_urg h then 0x20 else 0) OR (if th_ack h then 0x10 else 0)
     OR (if th_psh h then 0x08 else 0) OR (if th_rst h then 0x04 else 0)
     OR (if th_syn h then 0x02 else 0) OR (if th_fin h then 0x01 else 0)"

definition th_serialize :: "tcp_header \<Rightarrow> bytes result" where
  "th_serialize h =
     (if th_doff h < 5 then Inl (Runtime_Error ''TCP header too short'')
      else let ret = [];
               ret = nu_u16 ret (th_sport h);
               ret = nu_u16 ret (th_dport h);
               ret = nu_u32 ret (raw_value (th_seqno h));
               ret = nu_u32 ret (raw_value (th_ackno h));
               ret = nu_u8 ret (push_bit 4 (th_doff h));
               ret = nu_u8 ret (th_flags h);
               ret = nu_u16 ret (th_win h);
               ret = nu_u16 ret (th_cksum h);
               ret = nu_u16 ret (th_uptr h)
           in Inr (vec_resize (4 * unat (th_doff h)) 0 ret))"

text \<open>\<open>operator==\<close> leaves out the ports and the checksum.\<close>

definition th_eq :: "tcp_header \<Rightarrow> tcp_header \<Rightarrow> bool" where
  "th_eq a b \<longleftrightarrow> wint_eq (th_seqno a) (th_seqno b) \<and> wint_eq (th_ackno a) (th_ackno b)
     \<and> th_doff a = th_doff b \<and> th_urg a = th_urg b \<and> th_ack a = th_ack b \<and> th_psh a = th_psh b
     \<and> th_rst a = th_rst b \<and> th_syn a = th_syn b \<and> th_fin a = th_fin b \<and> th_win a = th_win b
     \<and> th_uptr a = th_uptr b"

section \<open>TCPSegment\<close>

record tcp_segment =
  seg_header :: tcp_header
  seg_payload :: buffer

definition seg_new :: tcp_segment where
  "seg_new = \<lparr>seg_header = th_new, seg_payload = buf_empty\<rparr>"

definition seg_parse :: "tcp_segment \<Rightarrow> buffer \<Rightarrow> uint32 \<Rightarrow> (tcp_segment \<times> ParseResult) result" where
  "seg_parse seg b datagram_layer_checksum =
     (let check = ck_add (ck_new datagram_layer_checksum) (buf_str b)
      in if ck_value check \<noteq> 0 then Inr (seg, BadChecksum)
         else bind_res (th_parse (np_new b)) (\<lambda>(h, p, _).
              Inr (\<lparr>seg_header = h, seg_payload = np_buffer p\<rparr>, np_get_error p)))"

definition seg_length :: "tcp_segment \<Rightarrow> size_t" where
  "seg_length seg = size_of (buf_str (seg_payload seg)) + (if th_syn (seg_header seg) then 1 else 0)
     + (if th_fin (seg_header seg) then 1 else 0)"

definition seg_serialize :: "tcp_segment \<Rightarrow> uint32 \<Rightarrow> buffer_list result" where
  "seg_serialize seg datagram_layer_checksum =
     (let header_out = (seg_header seg)\<lparr>th_cksum := 0\<rparr>
      in bind_res (th_serialize header_out) (\<lambda>str.
         let check = ck_add (ck_new datagram_layer_checksum) str;
             check = ck_add check (buf_str (seg_payload seg));
             header_out = header_out\<lparr>th_cksum := ck_value check\<rparr>
         in bind_res (th_serialize header_out) (\<lambda>str.
            Inr (blist_append (blist_append [] [buf_of_string str]) [seg_payload seg]))))"

definition set_payload :: "buffer \<Rightarrow> tcp_segment \<Rightarrow> tcp_segment" where
  [simp]: "set_payload v seg = seg\<lparr>seg_payload := v\<rparr>"

definition set_ack :: "bool \<Rightarrow> tcp_segment \<Rightarrow> tcp_segment" where
  [simp]: "set_ack v seg = seg\<lparr>seg_header := (seg_header seg)\<lparr>th_ack := v\<rparr>\<rparr>"

definition set_syn :: "bool \<Rightarrow> tcp_segment \<Rightarrow> tcp_segment" where
  [simp]: "set_syn v seg = seg\<lparr>seg_header := (seg_header seg)\<lparr>th_syn := v\<rparr>\<rparr>"

definition set_fin :: "bool \<Rightarrow> tcp_segment \<Rightarrow> tcp_segment" where
  [simp]: "set_fin v seg = seg\<lparr>seg_header := (seg_header seg)\<lparr>th_fin := v\<rparr>\<rparr>"

definition set_rst :: "bool \<Rightarrow> tcp_segment \<Rightarrow> tcp_segment" where
  [simp]: "set_rst v seg = seg\<lparr>seg_header := (seg_header seg)\<lparr>th_rst := v\<rparr>\<rparr>"

definition set_psh :: "bool \<Rightarrow> tcp_segment \<Rightarrow> tcp_segment" where
  [simp]: "set_psh v seg = seg\<lparr>seg_header := (seg_header seg)\<lparr>th_psh := v\<rparr>\<rparr>"

definition set_urg :: "bool \<Rightarrow> tcp_segment \<Rightarrow> tcp_segment" where
  [simp]: "set_urg v seg = seg\<lparr>seg_header := (seg_header seg)\<lparr>th_urg := v\<rparr>\<rparr>"

definition set_seqno :: "WrappingInt32 \<Rightarrow> tcp_segment \<Rightarrow> tcp_segment" where
  [simp]: "set_seqno v seg = seg\<lparr>seg_header := (seg_header seg)\<lparr>th_seqno := v\<rparr>\<rparr>"

definition set_ackno :: "WrappingInt32 \<Rightarrow> tcp_segment \<Rightarrow> tcp_segment" where
  [simp]: "set_ackno v seg = seg\<lparr>seg_header := (seg_header seg)\<lparr>th_ackno := v\<rparr>\<rparr>"

definition set_cksum :: "uint16 \<Rightarrow> tcp_segment \<Rightarrow> tcp_segment" where
  [simp]: "set_cksum v seg = seg\<lparr>seg_header := (seg_header seg)\<lparr>th_cksum := v\<rparr>\<rparr>"

definition set_urgptr :: "uint16 \<Rightarrow> tcp_segment \<Rightarrow> tcp_segment" where
  [simp]: "set_urgptr v seg = seg\<lparr>seg_header := (seg_header seg)\<lparr>th_uptr := v\<rparr>\<rparr>"

definition set_window_size :: "uint16 \<Rightarrow> tcp_segment \<Rightarrow> tcp_segment" where
  [simp]: "set_window_size v seg = seg\<lparr>seg_header := (seg_header seg)\<lparr>th_win := v\<rparr>\<rparr>"

section \<open>The header on the wire\<close>

text \<open>The fields of a header at their offsets.\<close>

definition th_fields :: "bytes \<Rightarrow> tcp_header" where
  "th_fields str =
     (let fl_b = be_field 13 1 str :: uint8
      in \<lparr>th_sport = be_field 0 2 str, th_dport = be_field 2 2 str,
          th_seqno = WrappingInt32 (be_field 4 4 str), th_ackno = WrappingInt32 (be_field 8 4 str),
          th_doff = drop_bit 4 (be_field 12 1 str),
          th_urg = (fl_b AND 0x20 \<noteq> 0), th_ack = (fl_b AND 0x10 \<noteq> 0),
          th_psh = (fl_b AND 0x08 \<noteq> 0), th_rst = (fl_b AND 0x04 \<noteq> 0),
          th_syn = (fl_b AND 0x02 \<noteq> 0), th_fin = (fl_b AND 0x01 \<noteq> 0),
          th_win = be_field 14 2 str, th_cksum = be_field 16 2 str, th_uptr = be_field 18 2 str\<rparr>)"

lemma th_parse_fields:
  assumes p: "np_reads p str" and len: "20 \<le> length str"
  shows "\<exists>q. np_reads q (drop 20 str) \<and>
    th_parse p = (let h = th_fields str
      in if th_doff h < 5 then Inr (h, q, HeaderTooShort)
         else bind_res (np_remove_prefix (ucast (th_doff h) * 4 - 20) q)
                (\<lambda>q. Inr (h, q, np_get_error q)))"
proof -
  obtain q1 where q1: "np_u16 p = Inr (be_field 0 2 str, q1)" "np_reads q1 (drop 2 str)"
    using u16.rd_at [of p 0 str, OF _ len] p by (auto simp: numeral_2_eq_2)
  obtain q2 where q2: "np_u16 q1 = Inr (be_field 2 2 str, q2)" "np_reads q2 (drop 4 str)"
    using u16.rd_at [OF q1(2) len] by auto
  obtain q3 where q3: "np_u32 q2 = Inr (be_field 4 4 str, q3)" "np_reads q3 (drop 8 str)"
    using u32.rd_at [OF q2(2) len] by auto
  obtain q4 where q4: "np_u32 q3 = Inr (be_field 8 4 str, q4)" "np_reads q4 (drop 12 str)"
    using u32.rd_at [OF q3(2) len] by auto
  obtain q5 where q5: "np_u8 q4 = Inr (be_field 12 1 str, q5)" "np_reads q5 (drop 13 str)"
    using u8.rd_at [OF q4(2) len] by auto
  obtain q6 where q6: "np_u8 q5 = Inr (be_field 13 1 str, q6)" "np_reads q6 (drop 14 str)"
    using u8.rd_at [OF q5(2) len] by auto
  obtain q7 where q7: "np_u16 q6 = Inr (be_field 14 2 str, q7)" "np_reads q7 (drop 16 str)"
    using u16.rd_at [OF q6(2) len] by auto
  obtain q8 where q8: "np_u16 q7 = Inr (be_field 16 2 str, q8)" "np_reads q8 (drop 18 str)"
    using u16.rd_at [OF q7(2) len] by auto
  obtain q9 where q9: "np_u16 q8 = Inr (be_field 18 2 str, q9)" "np_reads q9 (drop 20 str)"
    using u16.rd_at [OF q8(2) len] by auto
  have "(if np_error q then Inr (h, q, np_get_error q) else Inr (h, q, NoError))
      = (Inr (h, q, np_get_error q) :: (tcp_header \<times> net_parser \<times> ParseResult) result)" for q h
    by (simp add: np_error_def)
  then show ?thesis using q9(2)
    by (intro exI [of _ q9]) (simp add: th_parse_def q1 q2 q3 q4 q5 q6 q7 q8 q9 Let_def
        th_fields_def th_LENGTH_def)
qed

lemma th_parse_short:
  assumes "buf_inv b" and "length (buf_str b) < 20"
  shows "\<exists>h q r. th_parse (np_new b) = Inr (h, q, r) \<and> np_get_error q = PacketTooShort"
proof -
  let ?p = "np_new b"
  obtain v1 q1 where q1: "np_u16 ?p = Inr (v1, q1)" "np_low q1 18"
    using u16.rd_low [of ?p 18] np_low_new [OF assms] by auto
  obtain v2 q2 where q2: "np_u16 q1 = Inr (v2, q2)" "np_low q2 16"
    using u16.rd_low [of q1 16] q1 by auto
  obtain v3 q3 where q3: "np_u32 q2 = Inr (v3, q3)" "np_low q3 12"
    using u32.rd_low [of q2 12] q2 by auto
  obtain v4 q4 where q4: "np_u32 q3 = Inr (v4, q4)" "np_low q4 8"
    using u32.rd_low [of q3 8] q3 by auto
  obtain v5 q5 where q5: "np_u8 q4 = Inr (v5, q5)" "np_low q5 7"
    using u8.rd_low [of q4 7] q4 by auto
  obtain v6 q6 where q6: "np_u8 q5 = Inr (v6, q6)" "np_low q6 6"
    using u8.rd_low [of q5 6] q5 by auto
  obtain v7 q7 where q7: "np_u16 q6 = Inr (v7, q7)" "np_low q7 4"
    using u16.rd_low [of q6 4] q6 by auto
  obtain v8 q8 where q8: "np_u16 q7 = Inr (v8, q8)" "np_low q8 2"
    using u16.rd_low [of q7 2] q7 by auto
  obtain v9 q9 where q9: "np_u16 q8 = Inr (v9, q9)" "np_get_error q9 = PacketTooShort"
    using u16.rd_low [of q8 0] q8 np_low_0 by auto
  show ?thesis
    by (simp add: th_parse_def q1 q2 q3 q4 q5 q6 q7 q8 q9 np_remove_prefix_short Let_def np_error_def)
qed

text \<open>The wire format as a concatenation.\<close>

definition th_wire :: "tcp_header \<Rightarrow> bytes" where
  "th_wire h = be_bytes (th_sport h) @ be_bytes (th_dport h) @ be_bytes (raw_value (th_seqno h))
     @ be_bytes (raw_value (th_ackno h)) @ be_bytes (push_bit 4 (th_doff h)) @ be_bytes (th_flags h)
     @ be_bytes (th_win h) @ be_bytes (th_cksum h) @ be_bytes (th_uptr h)"

lemma length_th_wire [simp]: "length (th_wire h) = 20"
  by (simp add: th_wire_def)

lemma th_serialize_wire:
  "5 \<le> th_doff h \<Longrightarrow> th_serialize h = Inr (th_wire h @ replicate (4 * unat (th_doff h) - 20) 0)"
proof -
  assume "5 \<le> th_doff h"
  then have "5 \<le> unat (th_doff h)" by (simp add: word_le_nat_alt)
  then show ?thesis using \<open>5 \<le> th_doff h\<close>
    by (simp add: th_serialize_def Let_def codec_write vec_resize_def th_wire_def not_less)
qed

lemma be_field_bytes:
  assumes "8 dvd LENGTH('a)" and "length pre = off"
  shows "be_field off (LENGTH('a) div 8) (pre @ be_bytes (v :: 'a::len word) @ post) = v"
  using assms by (simp add: be_field_def)

lemma th_flags_bits:
  "th_flags h AND 0x20 \<noteq> 0 \<longleftrightarrow> th_urg h" "th_flags h AND 0x10 \<noteq> 0 \<longleftrightarrow> th_ack h"
  "th_flags h AND 0x08 \<noteq> 0 \<longleftrightarrow> th_psh h" "th_flags h AND 0x04 \<noteq> 0 \<longleftrightarrow> th_rst h"
  "th_flags h AND 0x02 \<noteq> 0 \<longleftrightarrow> th_syn h" "th_flags h AND 0x01 \<noteq> 0 \<longleftrightarrow> th_fin h"
  by (simp_all add: th_flags_def)

lemma doff_nibble: "d < 16 \<Longrightarrow> drop_bit 4 (push_bit 4 d) = (d :: uint8)"
proof -
  assume "d < 16"
  then have "unat d < 16" by (simp add: word_less_nat_alt)
  have "unat (push_bit 4 d) = unat d * 16"
    using \<open>unat d < 16\<close> by (simp add: push_bit_eq_mult unat_word_ariths)
  then have "unat (drop_bit 4 (push_bit 4 d)) = unat d"
    by (simp only: unat_drop_bit_eq) (simp add: drop_bit_eq_div)
  then show ?thesis by (rule unat_eqD)
qed

lemma th_fields_wire: "th_doff h < 16 \<Longrightarrow> th_fields (th_wire h @ rest) = h"
  by (simp add: th_fields_def Let_def th_wire_def be_field_def th_flags_bits doff_nibble)

text \<open>The bytes that the options take, as \<open>parse\<close> computes them.\<close>

lemma option_bytes: "5 \<le> d \<Longrightarrow> ucast (d :: uint8) * 4 - 20 = (of_nat (4 * unat d - 20) :: size_t)"
proof -
  assume "5 \<le> d"
  then have "5 \<le> unat d" by (simp add: word_le_nat_alt)
  then have "(of_nat (4 * unat d - 20) :: size_t) = of_nat (4 * unat d) - of_nat 20"
    by (intro of_nat_diff) simp
  then show ?thesis by (simp add: mult.commute)
qed

lemma np_remove_prefix_result:
  assumes "np_reads q str" and "n < size_limit"
  shows "\<exists>r. np_remove_prefix (of_nat n) q = Inr r
    \<and> np_get_error r = (if n \<le> length str then NoError else PacketTooShort)
    \<and> (n \<le> length str \<longrightarrow> buf_str (np_buffer r) = drop n str)"
  using assms np_remove_prefix_reads [of q str n] np_remove_prefix_fails [of q n]
  by (cases "n \<le> length str") (auto simp: np_reads_def)

lemma th_parse_result:
  assumes "buf_inv b" and "20 \<le> length (buf_str b)"
  defines "h \<equiv> th_fields (buf_str b)"
  shows "\<exists>q. th_parse (np_new b) = Inr (h, q, if th_doff h < 5 then HeaderTooShort
      else if 4 * unat (th_doff h) \<le> length (buf_str b) then NoError else PacketTooShort)
    \<and> np_get_error q = (if th_doff h < 5 \<or> 4 * unat (th_doff h) \<le> length (buf_str b)
        then NoError else PacketTooShort)
    \<and> (np_get_error q = NoError \<longrightarrow> buf_str (np_buffer q) = drop (max 20 (4 * unat (th_doff h))) (buf_str b))"
proof -
  obtain q where q: "np_reads q (drop 20 (buf_str b))"
    and p: "th_parse (np_new b) = (if th_doff h < 5 then Inr (h, q, HeaderTooShort)
         else bind_res (np_remove_prefix (ucast (th_doff h) * 4 - 20) q)
                (\<lambda>q. Inr (h, q, np_get_error q)))"
    using th_parse_fields [OF np_reads_new [OF assms(1)] assms(2)] by (auto simp: h_def Let_def)
  show ?thesis
  proof (cases "th_doff h < 5")
    case True
    then have "4 * unat (th_doff h) \<le> 20" by (simp add: word_less_nat_alt)
    then show ?thesis using True p q by (auto simp: np_reads_def max_def)
  next
    case False
    then have d: "5 \<le> unat (th_doff h)" "5 \<le> th_doff h" by (simp_all add: word_less_nat_alt word_le_nat_alt)
    have "4 * unat (th_doff h) - 20 < size_limit" using unat_byte [of "th_doff h"] by simp
    from np_remove_prefix_result [OF q this] obtain r where
      r: "np_remove_prefix (of_nat (4 * unat (th_doff h) - 20)) q = Inr r"
        "np_get_error r = (if 4 * unat (th_doff h) - 20 \<le> length (drop 20 (buf_str b)) then NoError else PacketTooShort)"
        "4 * unat (th_doff h) - 20 \<le> length (drop 20 (buf_str b)) \<longrightarrow>
          buf_str (np_buffer r) = drop (4 * unat (th_doff h) - 20) (drop 20 (buf_str b))" by auto
    then show ?thesis using False p d assms(2)
      by (intro exI [of _ r]) (auto simp: option_bytes)
  qed
qed

section \<open>The segment on the wire\<close>

lemma th_wire_cksum:
  "th_wire (h\<lparr>th_cksum := c\<rparr>) = take 16 (th_wire h) @ be_bytes c @ be_bytes (th_uptr h)"
  by (simp add: th_wire_def th_flags_def)

lemma seg_serialize_wire:
  fixes seg :: tcp_segment and d :: uint32
  defines "h \<equiv> seg_header seg" and "pad \<equiv> replicate (4 * unat (th_doff (seg_header seg)) - 20) (0 :: uint8)"
    and "body \<equiv> buf_str (seg_payload seg)"
  defines "c \<equiv> ck_value (ck_add (ck_new d) (take 16 (th_wire h) @ [0, 0] @ be_bytes (th_uptr h) @ pad @ body))"
  assumes "5 \<le> th_doff h"
  shows "\<exists>bl. seg_serialize seg d = Inr bl \<and> blist_concatenate bl = th_wire (h\<lparr>th_cksum := c\<rparr>) @ pad @ body"
proof -
  have "th_wire (h\<lparr>th_cksum := 0\<rparr>) = take 16 (th_wire h) @ [0, 0] @ be_bytes (th_uptr h)"
    by (simp add: th_wire_cksum be_bytes_eq upt_rec)
  then show ?thesis using assms
    by (simp add: seg_serialize_def th_serialize_wire Let_def blist_append_def ck_add_append)
qed

text \<open>Any buffer with the bytes of a serialised segment parses to that segment.\<close>

lemma seg_roundtrip:
  assumes "5 \<le> th_doff (seg_header seg)" and "th_doff (seg_header seg) < 16"
    and "4 * unat (th_doff (seg_header seg)) + length (buf_str (seg_payload seg)) < 65536"
    and "unat d < 2 ^ 24"
  shows "\<exists>bl c. seg_serialize seg d = Inr bl
    \<and> length (blist_concatenate bl) = 4 * unat (th_doff (seg_header seg)) + length (buf_str (seg_payload seg))
    \<and> (\<forall>b old. buf_inv b \<and> buf_str b = blist_concatenate bl \<longrightarrow>
         (\<exists>p. seg_parse old b d
             = Inr (\<lparr>seg_header = (seg_header seg)\<lparr>th_cksum := c\<rparr>, seg_payload = p\<rparr>, NoError)
           \<and> buf_str p = buf_str (seg_payload seg)))"
proof -
  define h where "h = seg_header seg"
  define rest where "rest = replicate (4 * unat (th_doff h) - 20) 0 @ buf_str (seg_payload seg)"
  define c where "c = ck_value (ck_add (ck_new d) (take 16 (th_wire h) @ [0, 0] @ be_bytes (th_uptr h) @ rest))"
  define g where "g = h\<lparr>th_cksum := c\<rparr>"
  obtain bl where bl: "seg_serialize seg d = Inr bl" "blist_concatenate bl = th_wire g @ rest"
    using seg_serialize_wire [of seg d] assms(1) by (auto simp: h_def rest_def c_def g_def)
  have d5: "5 \<le> unat (th_doff h)" using assms(1) by (simp add: h_def word_le_nat_alt)
  have len: "length (th_wire g @ rest) = 4 * unat (th_doff h) + length (buf_str (seg_payload seg))"
    using d5 by (simp add: rest_def)
  have "ck_value (ck_add (ck_new d) (th_wire g @ rest)) = 0"
    unfolding g_def th_wire_cksum append_assoc using len assms(3,4)
    by (intro ck_value_filled) (simp_all add: c_def h_def)
  moreover have "th_fields (th_wire g @ rest) = g"
    using assms(2) by (simp add: th_fields_wire g_def h_def)
  moreover have "drop (4 * unat (th_doff h)) (th_wire g @ rest) = buf_str (seg_payload seg)"
    using d5 by (simp add: rest_def)
  moreover have "max 20 (4 * unat (th_doff h)) = 4 * unat (th_doff h)" using d5 by simp
  ultimately have "\<exists>p. seg_parse old b d = Inr (\<lparr>seg_header = g, seg_payload = p\<rparr>, NoError)
      \<and> buf_str p = buf_str (seg_payload seg)" if "buf_inv b" "buf_str b = th_wire g @ rest" for b old
    using th_parse_result [OF that(1)] that(2) len d5 by (auto simp: seg_parse_def g_def)
  then show ?thesis using bl len by (auto simp: g_def h_def)
qed

section \<open>Properties\<close>

text \<open>
  (C24) Segments survive the wire: a segment whose data offset is legal serialises, and parsing the
  concatenated bytes with the same pseudo-header sum gives back the payload and every header field,
  with the checksum filled in. (Packets are shorter than 64 KiB, so that the 32-bit sum is exact.)
\<close>

theorem tcp_segment_roundtrip:
  assumes "5 \<le> th_doff (seg_header seg)" and "th_doff (seg_header seg) < 16"
    and "4 * unat (th_doff (seg_header seg)) + length (buf_str (seg_payload seg)) < 65536"
    and "unat d < 2 ^ 24"
  shows "\<exists>bl c b. seg_serialize seg d = Inr bl
    \<and> seg_parse old (buf_of_string (blist_concatenate bl)) d
        = Inr (\<lparr>seg_header = (seg_header seg)\<lparr>th_cksum := c\<rparr>, seg_payload = b\<rparr>, NoError)
    \<and> buf_str b = buf_str (seg_payload seg)"
proof -
  obtain bl c where bl: "seg_serialize seg d = Inr bl"
      "length (blist_concatenate bl) = 4 * unat (th_doff (seg_header seg)) + length (buf_str (seg_payload seg))"
      "\<And>b. buf_inv b \<Longrightarrow> buf_str b = blist_concatenate bl \<Longrightarrow>
         \<exists>p. seg_parse old b d
             = Inr (\<lparr>seg_header = (seg_header seg)\<lparr>th_cksum := c\<rparr>, seg_payload = p\<rparr>, NoError)
           \<and> buf_str p = buf_str (seg_payload seg)"
    using seg_roundtrip [OF assms] by blast
  have "buf_inv (buf_of_string (blist_concatenate bl))" using bl(2) assms(3) by simp
  from bl(3) [OF this] bl(1) show ?thesis by auto
qed

theorem tcp_segment_roundtrip_witness:
  "\<exists>bl c b. seg_serialize (set_syn True (set_payload (buf_of_string [104, 105]) seg_new)) 6 = Inr bl
    \<and> seg_parse seg_new (buf_of_string (blist_concatenate bl)) 6
        = Inr (\<lparr>seg_header = th_new\<lparr>th_syn := True, th_cksum := c\<rparr>, seg_payload = b\<rparr>, NoError)
    \<and> buf_str b = [104, 105]"
  using tcp_segment_roundtrip [of "set_syn True (set_payload (buf_of_string [104, 105]) seg_new)" 6 seg_new]
  by (simp add: seg_new_def th_new_def)

text \<open>
  (C34) What \<open>TCPSegment::parse\<close> answers, for every packet and pseudo-header sum: it never throws; a
  packet that does not verify is rejected and leaves the segment unchanged; a verified packet is too
  short if it ends inside the fixed header or inside the options that the data offset announces;
  every other verified packet is accepted. That includes a data offset below 5: \<open>TCPHeader::parse\<close>
  answers \<open>HeaderTooShort\<close>, but \<open>TCPSegment::parse\<close> drops that answer and reports the parser's own
  state, which is \<open>NoError\<close>.
\<close>

theorem tcp_segment_parse_result:
  assumes "buf_inv b"
  shows "\<exists>seg'. seg_parse seg b d = Inr (seg',
      if ck_value (ck_add (ck_new d) (buf_str b)) \<noteq> 0 then BadChecksum
      else if length (buf_str b) < 20 then PacketTooShort
      else if th_doff (th_fields (buf_str b)) < 5 then NoError
      else if length (buf_str b) < 4 * unat (th_doff (th_fields (buf_str b))) then PacketTooShort
      else NoError)
    \<and> (ck_value (ck_add (ck_new d) (buf_str b)) \<noteq> 0 \<longrightarrow> seg' = seg)"
proof (cases "length (buf_str b) < 20")
  case True
  then show ?thesis using th_parse_short [OF assms True] by (auto simp: seg_parse_def)
next
  case False
  then show ?thesis using th_parse_result [OF assms] by (auto simp: seg_parse_def)
qed

theorem tcp_segment_parse_result_witness:
  "\<exists>seg'. seg_parse seg_new (buf_of_string
      [0, 0, 0, 0,  0, 0, 0, 0,  0, 0, 0, 0,  0x40, 0, 0, 0,  0xbf, 0xff, 0, 0]) 0 = Inr (seg', NoError)"
  using tcp_segment_parse_result [of "buf_of_string
      [0, 0, 0, 0,  0, 0, 0, 0,  0, 0, 0, 0,  0x40, 0, 0, 0,  0xbf, 0xff, 0, 0]" seg_new 0]
  by (simp add: ck_new_def ck_value_def ck_fold.simps th_fields_def be_field_def be_nat_def)

end
