(* ===== verification/Segment_Stream.thy ===== *)
theory Segment_Stream
  imports TCP_Segment
begin

text \<open>
  What sender and receiver have to agree on: which segments belong to a byte stream, and where in
  its sequence space. Absolute position 0 is the SYN, the byte at stream index \<open>i\<close> is at
  \<open>i + 1\<close>, and the FIN comes after the last byte.
\<close>

section \<open>Segments of one stream\<close>

text \<open>
  A segment of the stream \<open>S\<close> with initial sequence number \<open>isn\<close>, at absolute position \<open>pos\<close>: the
  SYN is at 0, and the payload is cut from \<open>S\<close>. A segment that takes no sequence numbers may carry
  any sequence number.
\<close>

definition seg_at :: "bytes \<Rightarrow> WrappingInt32 \<Rightarrow> nat \<Rightarrow> tcp_segment \<Rightarrow> bool" where
  "seg_at S isn pos seg \<longleftrightarrow>
     th_seqno (seg_header seg) = wrap (of_nat pos) isn \<and> (th_syn (seg_header seg) \<longleftrightarrow> pos = 0)
     \<and> pos - 1 + length (buf_str (seg_payload seg)) \<le> length S
     \<and> buf_str (seg_payload seg) = substr (pos - 1) (length (buf_str (seg_payload seg))) S
     \<and> (th_fin (seg_header seg) \<longrightarrow> pos - 1 + length (buf_str (seg_payload seg)) = length S)"

definition seg_bare :: "tcp_segment \<Rightarrow> bool" where
  "seg_bare seg \<longleftrightarrow> \<not> th_syn (seg_header seg) \<and> \<not> th_fin (seg_header seg) \<and> buf_str (seg_payload seg) = []"

definition seg_of_stream :: "bytes \<Rightarrow> WrappingInt32 \<Rightarrow> tcp_segment \<Rightarrow> bool" where
  "seg_of_stream S isn seg \<longleftrightarrow> seg_bare seg \<or> (\<exists>pos. seg_at S isn pos seg)"

definition seg_end :: "nat \<Rightarrow> tcp_segment \<Rightarrow> nat" where
  "seg_end pos seg = pos + length (buf_str (seg_payload seg)) + (if th_syn (seg_header seg) then 1 else 0)
     + (if th_fin (seg_header seg) then 1 else 0)"

lemma seg_at_end: "seg_at S isn pos seg \<Longrightarrow> seg_end pos seg \<le> length S + 2"
  by (auto simp: seg_at_def seg_end_def)

lemma seg_at_pos: "seg_at S isn pos seg \<Longrightarrow> pos \<le> length S + 1"
  by (auto simp: seg_at_def)

lemma seg_bare_length: "seg_bare seg \<Longrightarrow> seg_length seg = 0"
  by (simp add: seg_bare_def seg_length_def)

lemma unat_seg_end:
  assumes "seg_at S isn pos seg" and "length S + 2 < 2 ^ 31"
  shows "unat (of_nat pos + seg_length seg) = seg_end pos seg"
proof -
  have "of_nat pos + seg_length seg = (of_nat (seg_end pos seg) :: uint64)"
    by (simp add: seg_length_def seg_end_def)
  then show ?thesis using seg_at_end [OF assms(1)] assms(2) by (simp add: unat_of_nat_less)
qed

text \<open>A segment built with the setters, for concrete inputs.\<close>

abbreviation seg_make :: "uint32 \<Rightarrow> bool \<Rightarrow> bool \<Rightarrow> bytes \<Rightarrow> tcp_segment" where
  "seg_make sn syn fin data \<equiv>
     set_seqno (WrappingInt32 sn) (set_syn syn (set_fin fin (set_payload (buf_of_string data) seg_new)))"

text \<open>Writing more bytes to the stream does not take segments away, except for its end.\<close>

lemma seg_at_append: "seg_at S isn pos seg \<Longrightarrow> \<not> th_fin (seg_header seg) \<Longrightarrow> seg_at (S @ T) isn pos seg"
  by (auto simp: seg_at_def substr_def)

lemma seg_of_stream_append:
  "seg_of_stream S isn seg \<Longrightarrow> \<not> th_fin (seg_header seg) \<Longrightarrow> seg_of_stream (S @ T) isn seg"
  by (auto simp: seg_of_stream_def dest: seg_at_append)

end
