(* ===== verification/TCP_Receiver.thy ===== *)
theory TCP_Receiver
  imports Stream_Reassembler Segment_Stream
begin

text \<open>
  The receiving half of a connection (\<open>libsponge/tcp_receiver.hh\<close>, \<open>tcp_receiver.cc\<close>): it turns
  segments into pushes on the reassembler and computes the acknowledgment number and the window.
  \<open>_checkpoint\<close> is the absolute sequence number that will be acknowledged: 0 is the SYN, the
  byte at stream index \<open>i\<close> is \<open>i + 1\<close>, the FIN comes after the last byte.
\<close>

section \<open>State and operations\<close>

record tcp_receiver =
  rcv_reassembler :: stream_reassembler
  rcv_isn :: uint32
  rcv_is_set :: bool
  rcv_ended :: bool
  rcv_checkpoint :: uint64
  rcv_capacity :: size_t

definition rcv_new :: "size_t \<Rightarrow> tcp_receiver" where
  "rcv_new capacity = \<lparr>rcv_reassembler = sr_new capacity, rcv_isn = 0, rcv_is_set = False,
     rcv_ended = False, rcv_checkpoint = 0, rcv_capacity = capacity\<rparr>"

text \<open>The last part of \<open>segment_received\<close>: moving the acknowledgment.\<close>

definition rcv_update_checkpoint :: "tcp_receiver \<Rightarrow> uint64 \<Rightarrow> tcp_segment \<Rightarrow> tcp_receiver" where
  "rcv_update_checkpoint r index seg =
     (if index = 0 \<or> index = rcv_checkpoint r then
        let r = r\<lparr>rcv_checkpoint := index + seg_length seg\<rparr>
        in if rcv_checkpoint r < sr_left (rcv_reassembler r) + 1 then
             let r = r\<lparr>rcv_checkpoint := sr_left (rcv_reassembler r) + 1\<rparr>
             in if rcv_ended r \<and> sr_distance (rcv_reassembler r) = 0
                then r\<lparr>rcv_checkpoint := rcv_checkpoint r + 1\<rparr> else r
           else r
      else r)"

definition rcv_segment_received :: "tcp_receiver \<Rightarrow> tcp_segment \<Rightarrow> tcp_receiver" where
  "rcv_segment_received r seg =
     (let header = seg_header seg;
          r = (if th_syn header
               then r\<lparr>rcv_isn := raw_value (th_seqno header), rcv_is_set := True, rcv_checkpoint := 0\<rparr>
               else r)
      in if \<not> rcv_is_set r then r
         else let index = unwrap (th_seqno header) (WrappingInt32 (rcv_isn r)) (rcv_checkpoint r);
                  stream_index = index - 1;
                  stream_index = (if th_syn header then stream_index + 1 else stream_index);
                  r = (if th_fin header then r\<lparr>rcv_ended := True\<rparr> else r);
                  data = buf_str (seg_payload seg);
                  r = r\<lparr>rcv_reassembler :=
                        sr_push_substring (rcv_reassembler r) data stream_index (th_fin header)\<rparr>
              in rcv_update_checkpoint r index seg)"

definition rcv_ackno :: "tcp_receiver \<Rightarrow> WrappingInt32 option" where
  "rcv_ackno r = (if \<not> rcv_is_set r then None
     else Some (wrap (rcv_checkpoint r) (WrappingInt32 (rcv_isn r))))"

definition rcv_window_size :: "tcp_receiver \<Rightarrow> size_t" where
  "rcv_window_size r = sr_capacity_value (rcv_reassembler r)
     - bs_buffer_size (sr_output (rcv_reassembler r))"

definition rcv_unassembled_bytes :: "tcp_receiver \<Rightarrow> size_t result" where
  "rcv_unassembled_bytes r = sr_unassembled_bytes (rcv_reassembler r)"

definition rcv_stream_out :: "tcp_receiver \<Rightarrow> byte_stream" where
  "rcv_stream_out r = sr_output (rcv_reassembler r)"

text \<open>The two things that the rest of the program does to the inbound stream through the reference
  that \<open>stream_out\<close> returns.\<close>

definition rcv_read :: "tcp_receiver \<Rightarrow> size_t \<Rightarrow> tcp_receiver \<times> bytes" where
  "rcv_read r len = (case sr_read (rcv_reassembler r) len of (s, ret) \<Rightarrow> (r\<lparr>rcv_reassembler := s\<rparr>, ret))"

definition rcv_set_error :: "tcp_receiver \<Rightarrow> tcp_receiver" where
  "rcv_set_error r = r\<lparr>rcv_reassembler := (rcv_reassembler r)\<lparr>sr_output :=
     bs_set_error (sr_output (rcv_reassembler r))\<rparr>\<rparr>"

datatype ReceiverState = RCV_LISTEN | RCV_SYN_RECV | RCV_FIN_RECV | RCV_ERROR

definition rcv_state :: "tcp_receiver \<Rightarrow> ReceiverState" where
  "rcv_state r =
     (if bs_error (rcv_stream_out r) then RCV_ERROR
      else if rcv_ackno r = None then RCV_LISTEN
      else if \<not> bs_input_ended (rcv_stream_out r) then RCV_SYN_RECV
      else RCV_FIN_RECV)"

section \<open>The invariant\<close>

abbreviation rcv_next :: "tcp_receiver \<Rightarrow> nat" where
  "rcv_next r \<equiv> sr_next_pos (rcv_reassembler r)"

definition rcv_inv :: "bytes \<Rightarrow> WrappingInt32 \<Rightarrow> tcp_receiver \<Rightarrow> bool" where
  "rcv_inv S isn r \<longleftrightarrow> length S + 2 < 2 ^ 31 \<and> sr_inv S (rcv_reassembler r)
     \<and> sr_capacity (rcv_reassembler r) = rcv_capacity r
     \<and> unat (rcv_checkpoint r) \<le> length S + 2
     \<and> (if rcv_is_set r then WrappingInt32 (rcv_isn r) = isn
        else rcv_checkpoint r = 0 \<and> \<not> rcv_ended r \<and> rcv_next r = 0)"

lemma rcv_new_inv: "unat cap < 2 ^ 63 - 1 \<Longrightarrow> length S + 2 < 2 ^ 31 \<Longrightarrow> rcv_inv S isn (rcv_new cap)"
  by (simp add: rcv_inv_def rcv_new_def sr_new_inv)

text \<open>The state in which the payload is pushed.\<close>

definition rcv_opened :: "tcp_receiver \<Rightarrow> tcp_segment \<Rightarrow> tcp_receiver" where
  "rcv_opened r seg = (if th_syn (seg_header seg)
     then r\<lparr>rcv_isn := raw_value (th_seqno (seg_header seg)), rcv_is_set := True, rcv_checkpoint := 0\<rparr> else r)"

definition rcv_pushed :: "tcp_receiver \<Rightarrow> tcp_segment \<Rightarrow> uint64 \<Rightarrow> tcp_receiver" where
  "rcv_pushed r seg stream_index = r\<lparr>rcv_ended := rcv_ended r \<or> th_fin (seg_header seg),
     rcv_reassembler := sr_push_substring (rcv_reassembler r) (buf_str (seg_payload seg)) stream_index
       (th_fin (seg_header seg))\<rparr>"

lemma rcv_segment_received_eq:
  fixes seg :: tcp_segment and r :: tcp_receiver
  defines "o1 \<equiv> rcv_opened r seg"
  defines "index \<equiv> unwrap (th_seqno (seg_header seg)) (WrappingInt32 (rcv_isn o1)) (rcv_checkpoint o1)"
  shows "rcv_segment_received r seg = (if \<not> rcv_is_set o1 then o1
    else rcv_update_checkpoint
      (rcv_pushed o1 seg (if th_syn (seg_header seg) then index else index - 1)) index seg)"
proof -
  have eq: "(if th_fin (seg_header seg) then r\<lparr>rcv_ended := True\<rparr> else r)
      = r\<lparr>rcv_ended := rcv_ended r \<or> th_fin (seg_header seg)\<rparr>" for r :: tcp_receiver
    by (cases r) simp
  show ?thesis
    by (simp add: rcv_segment_received_def Let_def eq o1_def index_def rcv_opened_def rcv_pushed_def)
qed

lemma rcv_opened_inv:
  assumes "rcv_inv S isn r" and "seg_of_stream S isn seg"
  shows "rcv_inv S isn (rcv_opened r seg)"
  using assms by (auto simp: rcv_inv_def rcv_opened_def seg_of_stream_def seg_at_def seg_bare_def)

lemma rcv_index:
  assumes "rcv_inv S isn r" and "rcv_is_set r" and "seg_at S isn pos seg"
  shows "unwrap (th_seqno (seg_header seg)) (WrappingInt32 (rcv_isn r)) (rcv_checkpoint r) = of_nat pos"
proof -
  have "pos < 2 ^ 31" and cp: "unat (rcv_checkpoint r) < 2 ^ 31"
    using seg_at_pos [OF assms(3)] assms(1) by (simp_all add: rcv_inv_def)
  then have "seq_near (of_nat pos) (rcv_checkpoint r)"
    by (intro seq_near_small) (simp_all add: unat_of_nat_less)
  then show ?thesis using assms by (simp add: rcv_inv_def seg_at_def seqno.dec_enc)
qed

text \<open>The stream index at which the payload of a segment at \<open>pos\<close> is pushed.\<close>

definition seg_stream_index :: "nat \<Rightarrow> tcp_segment \<Rightarrow> uint64" where
  "seg_stream_index pos seg = (if th_syn (seg_header seg) then of_nat pos else of_nat pos - 1)"

lemma seg_stream_index:
  assumes "seg_at S isn pos seg" and "length S + 2 < 2 ^ 31"
  shows "unat (seg_stream_index pos seg) = pos - 1"
    and "sr_cut S (buf_str (seg_payload seg)) (seg_stream_index pos seg)"
proof -
  have "pos < 2 ^ 31" using seg_at_pos [OF assms(1)] assms(2) by simp
  then have p: "unat (of_nat pos :: uint64) = pos" by (simp add: unat_of_nat_less)
  have "unat (of_nat pos - 1 :: uint64) = pos - 1" if "0 < pos"
    using that p by (subst unat_minus_no_wrap) simp_all
  then show e: "unat (seg_stream_index pos seg) = pos - 1"
    using assms(1) p by (auto simp: seg_stream_index_def seg_at_def)
  show "sr_cut S (buf_str (seg_payload seg)) (seg_stream_index pos seg)"
    using assms(1) unfolding sr_cut_def e seg_at_def by blast
qed

lemma rcv_received_at:
  assumes "rcv_inv S isn r" and "seg_at S isn pos seg" and "rcv_is_set r \<or> th_syn (seg_header seg)"
  shows "rcv_segment_received r seg = rcv_update_checkpoint
    (rcv_pushed (rcv_opened r seg) seg (seg_stream_index pos seg)) (of_nat pos) seg"
proof -
  have o: "rcv_inv S isn (rcv_opened r seg)"
    using assms by (intro rcv_opened_inv) (auto simp: seg_of_stream_def)
  have "rcv_is_set (rcv_opened r seg)" using assms(3) by (auto simp: rcv_opened_def)
  then show ?thesis using rcv_index [OF o _ assms(2)]
    by (simp add: rcv_segment_received_eq seg_stream_index_def)
qed

lemma rcv_pushed_frame [simp]:
  "rcv_isn (rcv_pushed r seg i) = rcv_isn r" "rcv_is_set (rcv_pushed r seg i) = rcv_is_set r"
  "rcv_checkpoint (rcv_pushed r seg i) = rcv_checkpoint r"
  "rcv_capacity (rcv_pushed r seg i) = rcv_capacity r"
  by (simp_all add: rcv_pushed_def)

lemma rcv_pushed_inv:
  assumes "rcv_inv S isn r" and "rcv_is_set r" and "sr_cut S (buf_str (seg_payload seg)) i"
  shows "rcv_inv S isn (rcv_pushed r seg i)"
  using assms sr_push_inv [of S "rcv_reassembler r" "buf_str (seg_payload seg)" i "th_fin (seg_header seg)"]
    sr_push_frame(2) [of S "rcv_reassembler r" "buf_str (seg_payload seg)" i "th_fin (seg_header seg)"]
  by (simp add: rcv_inv_def rcv_pushed_def)

text \<open>What \<open>rcv_update_checkpoint\<close> does, over the natural numbers.\<close>

lemma rcv_update_checkpoint_frame [simp]:
  "rcv_reassembler (rcv_update_checkpoint r index seg) = rcv_reassembler r"
  "rcv_isn (rcv_update_checkpoint r index seg) = rcv_isn r"
  "rcv_is_set (rcv_update_checkpoint r index seg) = rcv_is_set r"
  "rcv_ended (rcv_update_checkpoint r index seg) = rcv_ended r"
  "rcv_capacity (rcv_update_checkpoint r index seg) = rcv_capacity r"
  by (simp_all add: rcv_update_checkpoint_def Let_def)

lemma unat_left: 
  assumes "rcv_inv S isn r"
  shows "unat (sr_left (rcv_reassembler r) + 1) = rcv_next r + 1"
    and "unat (sr_left (rcv_reassembler r) + 1 + 1) = rcv_next r + 2"
proof -
  have "rcv_next r + 2 < 2 ^ 31"
    using assms sr_inv_bounds(1) [of S "rcv_reassembler r"] by (simp add: rcv_inv_def)
  then show "unat (sr_left (rcv_reassembler r) + 1) = rcv_next r + 1"
    and "unat (sr_left (rcv_reassembler r) + 1 + 1) = rcv_next r + 2"
    by (simp_all add: sr_left_def unat_word_ariths)
qed

lemma unat_update_checkpoint:
  assumes "rcv_inv S isn r"
  shows "unat (rcv_checkpoint (rcv_update_checkpoint r index seg)) =
    (if index = 0 \<or> index = rcv_checkpoint r then
       if unat (index + seg_length seg) \<le> rcv_next r
       then rcv_next r + 1 + (if rcv_ended r \<and> sr_distance (rcv_reassembler r) = 0 then 1 else 0)
       else unat (index + seg_length seg)
     else unat (rcv_checkpoint r))"
  using unat_left [OF assms]
  by (auto simp: rcv_update_checkpoint_def Let_def word_less_nat_alt)

lemma rcv_update_checkpoint_inv:
  assumes "rcv_inv S isn r" and "rcv_is_set r"
    and "index = 0 \<or> index = rcv_checkpoint r \<Longrightarrow> unat (index + seg_length seg) \<le> length S + 2"
  shows "rcv_inv S isn (rcv_update_checkpoint r index seg)"
  using assms unat_update_checkpoint [OF assms(1), of index seg]
    sr_inv_bounds(1) [of S "rcv_reassembler r"]
  by (auto simp: rcv_inv_def)

text \<open>Every segment of the stream is ignored or becomes a push of a part of the stream.\<close>

lemma rcv_received_cases:
  assumes inv: "rcv_inv S isn r" and seg: "seg_of_stream S isn seg"
  obtains "rcv_segment_received r seg = r"
  | i index where "rcv_is_set (rcv_opened r seg)" "sr_cut S (buf_str (seg_payload seg)) i"
      "rcv_segment_received r seg = rcv_update_checkpoint (rcv_pushed (rcv_opened r seg) seg i) index seg"
      "index = 0 \<or> index = rcv_checkpoint (rcv_opened r seg) \<Longrightarrow> unat (index + seg_length seg) \<le> length S + 2"
proof -
  have o: "rcv_inv S isn (rcv_opened r seg)" using assms by (rule rcv_opened_inv)
  consider "\<not> rcv_is_set (rcv_opened r seg)"
    | "seg_bare seg" "rcv_is_set (rcv_opened r seg)"
    | pos where "seg_at S isn pos seg" "rcv_is_set (rcv_opened r seg)"
    using seg by (auto simp: seg_of_stream_def)
  then show thesis
  proof cases
    case 1
    then show thesis
      using that(1) by (auto simp: rcv_segment_received_eq rcv_opened_def split: if_splits)
  next
    case 2
    show thesis
      by (rule that(2) [OF 2(2) _ rcv_segment_received_eq [of r seg, simplified 2(2) not_True_eq_False if_False]])
        (use 2 o in \<open>auto simp: seg_bare_def sr_cut_def seg_bare_length rcv_inv_def\<close>)
  next
    case 3
    have len: "length S + 2 < 2 ^ 31" using inv by (simp add: rcv_inv_def)
    have "rcv_is_set r \<or> th_syn (seg_header seg)" using 3(2) by (simp add: rcv_opened_def split: if_splits)
    then show thesis
      using that(2) [OF 3(2) seg_stream_index(2) [OF 3(1) len] rcv_received_at [OF inv 3(1)]]
        unat_seg_end [OF 3(1) len] seg_at_end [OF 3(1)] by simp
  qed
qed

lemma rcv_segment_received_inv [invar_intros]:
  assumes inv: "rcv_inv S isn r" and seg: "seg_of_stream S isn seg"
  shows "rcv_inv S isn (rcv_segment_received r seg)"
  using assms
proof (cases rule: rcv_received_cases)
  case (2 i index)
  then have "rcv_inv S isn (rcv_pushed (rcv_opened r seg) seg i)"
    using rcv_opened_inv [OF inv seg] by (intro rcv_pushed_inv)
  then show ?thesis unfolding 2(3) using 2 by (intro rcv_update_checkpoint_inv) simp_all
qed (use inv in simp)

lemma rcv_read_inv [invar_intros]:
  assumes "rcv_inv S isn r"
  shows "rcv_inv S isn (fst (rcv_read r len))"
proof -
  have "sr_inv S (fst (sr_read (rcv_reassembler r) len))"
    using assms by (intro sr_read_inv) (simp add: rcv_inv_def)
  moreover have "sr_capacity (fst (sr_read s len)) = sr_capacity s"
      "sr_first_unassembled (fst (sr_read s len)) = sr_first_unassembled s" for s
    by (simp_all add: sr_read_def split: prod.splits)
  ultimately show ?thesis using assms
    by (cases "sr_read (rcv_reassembler r) len") (simp add: rcv_inv_def rcv_read_def, metis fst_conv)
qed

lemma rcv_set_error_inv [invar_intros]: "rcv_inv S isn r \<Longrightarrow> rcv_inv S isn (rcv_set_error r)"
  by (auto simp: rcv_inv_def rcv_set_error_def sr_inv_def sr_agrees_def)

section \<open>Histories\<close>

text \<open>What the receiver is asked to do, with the bytes handed to the reader so far.\<close>

datatype rcv_op = Rcv_Segment tcp_segment | Rcv_Read size_t

fun rcv_step :: "tcp_receiver \<times> bytes \<Rightarrow> rcv_op \<Rightarrow> tcp_receiver \<times> bytes" where
  "rcv_step (r, got) (Rcv_Segment seg) = (rcv_segment_received r seg, got)"
| "rcv_step (r, got) (Rcv_Read len) = (case rcv_read r len of (r', ret) \<Rightarrow> (r', got @ ret))"

definition rcv_exec :: "size_t \<Rightarrow> rcv_op list \<Rightarrow> tcp_receiver \<times> bytes" where
  "rcv_exec cap ops = foldl rcv_step (rcv_new cap, []) ops"

fun rcv_op_ok :: "bytes \<Rightarrow> WrappingInt32 \<Rightarrow> rcv_op \<Rightarrow> bool" where
  "rcv_op_ok S isn (Rcv_Segment seg) = seg_of_stream S isn seg"
| "rcv_op_ok S isn (Rcv_Read len) = True"

abbreviation rcv_read_pos :: "tcp_receiver \<Rightarrow> nat" where
  "rcv_read_pos r \<equiv> sr_read_pos (rcv_reassembler r)"

lemma rcv_received_read_pos:
  assumes inv: "rcv_inv S isn r" and seg: "seg_of_stream S isn seg"
  shows "rcv_read_pos (rcv_segment_received r seg) = rcv_read_pos r"
  using assms
proof (cases rule: rcv_received_cases)
  case (2 i index)
  then show ?thesis
    using inv sr_push_frame(1) [of S "rcv_reassembler r" "buf_str (seg_payload seg)" i]
    by (simp add: rcv_pushed_def rcv_opened_def rcv_inv_def)
qed simp

lemma rcv_step_inv:
  assumes "rcv_inv S isn r" and "got = take (rcv_read_pos r) S" and "rcv_op_ok S isn op"
    and "rcv_step (r, got) op = (r', got')"
  shows "rcv_inv S isn r' \<and> got' = take (rcv_read_pos r') S"
proof (cases op)
  case (Rcv_Segment seg)
  then show ?thesis using assms rcv_segment_received_inv rcv_received_read_pos by auto
next
  case (Rcv_Read len)
  have s: "sr_inv S (rcv_reassembler r)" using assms(1) by (simp add: rcv_inv_def)
  obtain s' ret where sr: "sr_read (rcv_reassembler r) len = (s', ret)" by force
  have "take (rcv_read_pos r) S @ substr (rcv_read_pos r) (sr_read_pos s' - rcv_read_pos r) S
      = take (sr_read_pos s') S"
    using sr_read_inv(3) [OF s, of len] sr by (simp add: take_append_substr)
  moreover have "rcv_inv S isn (fst (rcv_read r len))" using assms(1) by (rule rcv_read_inv)
  ultimately show ?thesis
    using Rcv_Read assms sr sr_read_inv(2) [OF s, of len] by (auto simp: rcv_read_def)
qed

lemma rcv_exec_inv:
  assumes "unat cap < 2 ^ 63 - 1" and "length S + 2 < 2 ^ 31" and "list_all (rcv_op_ok S isn) ops"
    and "rcv_exec cap ops = (r, got)"
  shows "rcv_inv S isn r \<and> got = take (rcv_read_pos r) S"
  using assms(3,4)
proof (induction ops arbitrary: r got rule: rev_induct)
  case Nil
  then show ?case using rcv_new_inv [OF assms(1,2), of isn] by (auto simp: rcv_exec_def rcv_new_def)
next
  case (snoc op ops)
  obtain t h where th: "rcv_exec cap ops = (t, h)" by force
  then have "rcv_inv S isn t \<and> h = take (rcv_read_pos t) S" using snoc by simp
  moreover have "rcv_step (t, h) op = (r, got)" using snoc.prems(2) th by (simp add: rcv_exec_def)
  ultimately show ?case using snoc.prems(1) by (intro rcv_step_inv [of S isn t h op]) simp_all
qed

section \<open>Acknowledgments\<close>

text \<open>Nothing is acknowledged that has not been assembled; the FIN only once the stream is complete.\<close>

definition rcv_ack_inv :: "bytes \<Rightarrow> tcp_receiver \<Rightarrow> bool" where
  "rcv_ack_inv S r \<longleftrightarrow> sr_eof_inv S (rcv_reassembler r)
     \<and> (rcv_ended r \<longleftrightarrow> sr_eofed (rcv_reassembler r))
     \<and> (rcv_is_set r \<longrightarrow> unat (rcv_checkpoint r)
          \<le> rcv_next r + 1 + (if bs_input_ended (rcv_stream_out r) then 1 else 0))"

text \<open>A segment that the receiver can take whole.\<close>

definition rcv_fits :: "bytes \<Rightarrow> tcp_receiver \<Rightarrow> nat \<Rightarrow> tcp_segment \<Rightarrow> bool" where
  "rcv_fits S r pos seg \<longleftrightarrow>
     pos - 1 + length (buf_str (seg_payload seg)) \<le> rcv_read_pos r + unat (rcv_capacity r)
     \<and> (th_fin (seg_header seg) \<longrightarrow>
          sr_eof_ok S (rcv_reassembler r) (buf_str (seg_payload seg)) (seg_stream_index pos seg))
     \<and> (\<forall>c \<in> set (sr_count (rcv_reassembler r)). c \<noteq> - 1)"

lemma rcv_new_ack_inv: "0 < length S \<Longrightarrow> rcv_ack_inv S (rcv_new cap)"
  by (simp add: rcv_ack_inv_def rcv_new_def sr_eof_inv_def)

lemma rcv_opened_reassembler [simp]:
  "rcv_reassembler (rcv_opened r seg) = rcv_reassembler r" "rcv_ended (rcv_opened r seg) = rcv_ended r"
  "rcv_capacity (rcv_opened r seg) = rcv_capacity r"
  by (simp_all add: rcv_opened_def)

lemma rcv_pushed_ack:
  assumes inv: "rcv_inv S isn r" and ack: "rcv_ack_inv S r" and seg: "seg_at S isn pos seg"
    and fits: "rcv_fits S r pos seg"
  defines "t \<equiv> rcv_pushed (rcv_opened r seg) seg (seg_stream_index pos seg)"
  shows "sr_eof_inv S (rcv_reassembler t)" and "rcv_ended t \<longleftrightarrow> sr_eofed (rcv_reassembler t)"
    and "rcv_next r \<le> rcv_next t"
    and "bs_input_ended (rcv_stream_out r) \<Longrightarrow> bs_input_ended (rcv_stream_out t)"
    and "pos \<le> rcv_next r + 1 \<Longrightarrow> pos - 1 + length (buf_str (seg_payload seg)) \<le> rcv_next t"
proof -
  let ?s = "rcv_reassembler r" and ?d = "buf_str (seg_payload seg)" and ?i = "seg_stream_index pos seg"
  have len: "length S + 2 < 2 ^ 31" and s: "sr_inv S ?s" using inv by (simp_all add: rcv_inv_def)
  note i = seg_stream_index [OF seg len]
  have t: "rcv_reassembler t = sr_push_substring ?s ?d ?i (th_fin (seg_header seg))"
    by (simp add: t_def rcv_pushed_def)
  note f = sr_push_frame [OF s i(2), of "th_fin (seg_header seg)"]
  show "sr_eof_inv S (rcv_reassembler t)"
    unfolding t using ack fits i(2) by (intro sr_push_eof [OF s]) (auto simp: rcv_ack_inv_def rcv_fits_def)
  show "rcv_ended t \<longleftrightarrow> sr_eofed (rcv_reassembler t)"
    using ack f(3) by (auto simp: t_def rcv_pushed_def rcv_ack_inv_def)
  show "rcv_next r \<le> rcv_next t" using f(5) by (simp add: t)
  show "bs_input_ended (rcv_stream_out r) \<Longrightarrow> bs_input_ended (rcv_stream_out t)"
    using f(7) by (simp add: t rcv_stream_out_def bs_input_ended_def)
  show "pos \<le> rcv_next r + 1 \<Longrightarrow> pos - 1 + length ?d \<le> rcv_next t"
    using sr_push_progress [OF s i(2), of "th_fin (seg_header seg)"] fits inv
    by (auto simp: i(1) t rcv_fits_def rcv_inv_def)
qed

lemma rcv_ended_iff:
  assumes "sr_eof_inv S (rcv_reassembler r)" and "rcv_ended r \<longleftrightarrow> sr_eofed (rcv_reassembler r)"
  shows "rcv_ended r \<and> sr_distance (rcv_reassembler r) = 0 \<longleftrightarrow> bs_input_ended (rcv_stream_out r)"
proof -
  let ?s = "rcv_reassembler r"
  have "sr_distance ?s = 0 \<longleftrightarrow> unat (sr_first_unacceptable ?s) = sr_next_pos ?s"
    by (auto simp: sr_distance_def dest: unat_eqD)
  then show ?thesis using assms by (auto simp: sr_eof_inv_def rcv_stream_out_def bs_input_ended_def)
qed

lemma rcv_ack_step:
  assumes inv: "rcv_inv S isn r" and ack: "rcv_ack_inv S r" and seg: "seg_at S isn pos seg"
    and fits: "rcv_fits S r pos seg" and set: "rcv_is_set r \<or> th_syn (seg_header seg)"
  shows "rcv_ack_inv S (rcv_segment_received r seg)"
    and "pos = 0 \<or> pos = unat (rcv_checkpoint r) \<Longrightarrow>
      seg_end pos seg \<le> unat (rcv_checkpoint (rcv_segment_received r seg))"
    and "pos \<noteq> 0 \<Longrightarrow> pos \<noteq> unat (rcv_checkpoint r) \<Longrightarrow>
      rcv_checkpoint (rcv_segment_received r seg) = rcv_checkpoint r"
proof -
  define t where "t = rcv_pushed (rcv_opened r seg) seg (seg_stream_index pos seg)"
  note p = rcv_pushed_ack [OF inv ack seg fits, folded t_def]
  have len: "length S + 2 < 2 ^ 31" using inv by (simp add: rcv_inv_def)
  have r': "rcv_segment_received r seg = rcv_update_checkpoint t (of_nat pos) seg"
    unfolding t_def by (rule rcv_received_at [OF inv seg set])
  have so: "seg_of_stream S isn seg" using seg by (auto simp: seg_of_stream_def)
  have ti: "rcv_inv S isn t" unfolding t_def
    using rcv_opened_inv [OF inv so] seg_stream_index(2) [OF seg len] set
    by (intro rcv_pushed_inv) (auto simp: rcv_opened_def)
  have cp: "rcv_checkpoint t = (if pos = 0 then 0 else rcv_checkpoint r)"
    using seg by (simp add: t_def rcv_opened_def seg_at_def)
  have p64: "unat (of_nat pos :: uint64) = pos"
    using seg_at_pos [OF seg] len by (intro unat_of_nat_less) simp
  have move: "of_nat pos = (0 :: uint64) \<or> of_nat pos = rcv_checkpoint t \<longleftrightarrow>
      pos = 0 \<or> pos = unat (rcv_checkpoint r)"
    using p64 by (auto simp: cp dest: unat_eqD arg_cong [of _ _ unat])
  define end' where "end' = (if bs_input_ended (rcv_stream_out t) then 1 else 0 :: nat)"
  have cp': "unat (rcv_checkpoint (rcv_segment_received r seg)) =
      (if pos = 0 \<or> pos = unat (rcv_checkpoint r)
       then if seg_end pos seg \<le> rcv_next t then rcv_next t + 1 + end' else seg_end pos seg
       else unat (rcv_checkpoint r))"
    unfolding r' unat_update_checkpoint [OF ti] move unat_seg_end [OF seg len]
      rcv_ended_iff [OF p(1,2)] end'_def by (simp add: cp)
  show "pos = 0 \<or> pos = unat (rcv_checkpoint r) \<Longrightarrow>
      seg_end pos seg \<le> unat (rcv_checkpoint (rcv_segment_received r seg))"
    unfolding cp' by auto
  show "pos \<noteq> 0 \<Longrightarrow> pos \<noteq> unat (rcv_checkpoint r) \<Longrightarrow>
      rcv_checkpoint (rcv_segment_received r seg) = rcv_checkpoint r"
    using cp' by (auto intro: unat_eqD)
  have "unat (rcv_checkpoint (rcv_segment_received r seg)) \<le> rcv_next t + 1 + end'"
  proof (cases "pos = 0 \<or> pos = unat (rcv_checkpoint r)")
    case False
    then have "rcv_is_set r" using set seg by (auto simp: seg_at_def)
    then have "unat (rcv_checkpoint r) \<le> rcv_next r + 1 + (if bs_input_ended (rcv_stream_out r) then 1 else 0)"
      using ack by (simp add: rcv_ack_inv_def)
    also have "\<dots> \<le> rcv_next t + 1 + end'" using p(3,4) by (auto simp: end'_def)
    finally show ?thesis using cp' False by simp
  next
    case True
    have "pos \<le> rcv_next r + 1"
      using True ack set seg seg_at_pos [OF seg]
      by (auto simp: rcv_ack_inv_def sr_eof_inv_def rcv_stream_out_def bs_input_ended_def seg_at_def
          split: if_splits)
    then have pr: "pos - 1 + length (buf_str (seg_payload seg)) \<le> rcv_next t" by (rule p(5))
    moreover have "end' = 1" if "th_fin (seg_header seg)"
    proof -
      have "length S \<le> rcv_next t" using that seg pr by (simp add: seg_at_def)
      moreover have "rcv_next t \<le> length S"
        using ti sr_inv_bounds(1) by (auto simp: rcv_inv_def)
      moreover have "sr_eofed (rcv_reassembler t)" using p(2) that by (simp add: t_def rcv_pushed_def)
      ultimately show ?thesis
        using p(1) by (simp add: sr_eof_inv_def end'_def rcv_stream_out_def bs_input_ended_def)
    qed
    ultimately have "seg_end pos seg \<le> rcv_next t + 1 + end'"
      using seg by (auto simp: seg_end_def seg_at_def)
    then show ?thesis using cp' True by simp
  qed
  then show "rcv_ack_inv S (rcv_segment_received r seg)"
    using p(1,2) by (simp add: rcv_ack_inv_def r' end'_def rcv_stream_out_def)
qed

section \<open>The window\<close>

lemma rcv_window_size:
  assumes "rcv_inv S isn r"
  shows "unat (rcv_window_size r) + length (bs_contents (rcv_stream_out r)) = unat (rcv_capacity r)"
    and "\<not> bs_input_ended (rcv_stream_out r) \<Longrightarrow>
      rcv_next r + unat (rcv_window_size r) = rcv_read_pos r + unat (rcv_capacity r)"
proof -
  have s: "sr_inv S (rcv_reassembler r)" and cap: "sr_capacity (rcv_reassembler r) = rcv_capacity r"
    using assms by (simp_all add: rcv_inv_def)
  note d = sr_invD [OF s]
  let ?o = "sr_output (rcv_reassembler r)"
  have sh: "bs_shape ?o" using d(2) by simp
  have le: "length (bs_contents ?o) \<le> unat (rcv_capacity r)"
    using length_contents_le [OF sh] d(3) cap by simp
  have w: "unat (rcv_window_size r) = unat (rcv_capacity r) - length (bs_contents ?o)"
    using le unat_buffer_size [OF sh]
    by (simp add: rcv_window_size_def sr_capacity_value_def cap unat_minus_no_wrap)
  then show "unat (rcv_window_size r) + length (bs_contents (rcv_stream_out r)) = unat (rcv_capacity r)"
    using le by (simp add: rcv_stream_out_def)
  have "length (bs_contents ?o) = sr_written_pos (rcv_reassembler r) - rcv_read_pos r"
    using d(10,12) sr_inv_bounds(1) [OF s] by simp
  then show "\<not> bs_input_ended (rcv_stream_out r) \<Longrightarrow>
      rcv_next r + unat (rcv_window_size r) = rcv_read_pos r + unat (rcv_capacity r)"
    using w le d(11) d(13) by (auto simp: rcv_stream_out_def bs_input_ended_def)
qed

lemma rcv_received_reassembler:
  assumes "rcv_inv S isn r" and "seg_at S isn pos seg" and "rcv_is_set r \<or> th_syn (seg_header seg)"
  shows "rcv_reassembler (rcv_segment_received r seg) = sr_push_substring (rcv_reassembler r)
    (buf_str (seg_payload seg)) (seg_stream_index pos seg) (th_fin (seg_header seg))"
  by (simp add: rcv_received_at [OF assms] rcv_pushed_def)

lemma rcv_received_holds:
  assumes inv: "rcv_inv S isn r" and seg: "seg_at S isn pos seg" and "rcv_is_set r \<or> th_syn (seg_header seg)"
    and "\<forall>c \<in> set (sr_count (rcv_reassembler r)). c \<noteq> - 1"
  shows "sr_holds (rcv_reassembler (rcv_segment_received r seg)) i \<longleftrightarrow>
    (if pos - 1 \<le> i \<and> i < pos - 1 + length (buf_str (seg_payload seg))
     then i < rcv_read_pos r + unat (rcv_capacity r) else sr_holds (rcv_reassembler r) i)"
proof -
  have len: "length S + 2 < 2 ^ 31" and s: "sr_inv S (rcv_reassembler r)"
      and cap: "sr_capacity (rcv_reassembler r) = rcv_capacity r"
    using inv by (simp_all add: rcv_inv_def)
  note i = seg_stream_index [OF seg len]
  show ?thesis
    using sr_push_holds [OF s i(2) assms(4), where eof = "th_fin (seg_header seg)"]
    unfolding rcv_received_reassembler [OF assms(1-3)] i(1) cap .
qed

lemma rcv_received_beyond:
  fixes seg :: tcp_segment and r :: tcp_receiver
  defines "t \<equiv> rcv_segment_received r seg" and "n \<equiv> length (buf_str (seg_payload seg))"
  assumes inv: "rcv_inv S isn r" and set: "rcv_is_set r" and live: "\<not> bs_input_ended (rcv_stream_out r)"
    and cnt: "\<forall>c \<in> set (sr_count (rcv_reassembler r)). c \<noteq> - 1"
    and seg: "seg_at S isn pos seg" and syn: "\<not> th_syn (seg_header seg)" and fin: "\<not> th_fin (seg_header seg)"
    and pos: "pos = unat (rcv_checkpoint r)" "pos = rcv_next r + 1" and long: "unat (rcv_window_size r) < n"
  shows "rcv_ackno t = Some (wrap (of_nat (pos + n)) isn)"
    and "rcv_next t = rcv_next r + unat (rcv_window_size r)"
    and "rcv_next t \<le> i \<Longrightarrow> i < pos - 1 + n \<Longrightarrow> \<not> sr_holds (rcv_reassembler t) i"
proof -
  have len: "length S + 2 < 2 ^ 31" and s: "sr_inv S (rcv_reassembler r)"
      and cap: "sr_capacity (rcv_reassembler r) = rcv_capacity r"
    using inv by (simp_all add: rcv_inv_def)
  have so: "seg_of_stream S isn seg" using seg by (auto simp: seg_of_stream_def)
  have st: "rcv_is_set r \<or> th_syn (seg_header seg)" using set by simp
  note i = seg_stream_index [OF seg len] and w = rcv_window_size(2) [OF inv live]
  have push: "rcv_reassembler t = sr_push_substring (rcv_reassembler r) (buf_str (seg_payload seg))
      (seg_stream_index pos seg) (th_fin (seg_header seg))"
    unfolding t_def by (rule rcv_received_reassembler [OF inv seg st])
  have ti: "rcv_inv S isn t" unfolding t_def using inv so by (rule rcv_segment_received_inv)
  have "rcv_next t \<le> rcv_read_pos r + unat (rcv_capacity r)"
    using sr_push_frame(6) [OF s i(2)] sr_invD(9) [of S "rcv_reassembler t"] ti
    by (simp add: rcv_inv_def push cap)
  moreover have "min (rcv_next r + n) (rcv_read_pos r + unat (rcv_capacity r)) \<le> rcv_next t"
    using sr_push_assembles [OF s i(2) _ cnt, of "th_fin (seg_header seg)", unfolded i(1)] pos(2)
    unfolding push n_def cap by simp
  ultimately show nx: "rcv_next t = rcv_next r + unat (rcv_window_size r)" using w long by simp
  show "rcv_next t \<le> i \<Longrightarrow> i < pos - 1 + n \<Longrightarrow> \<not> sr_holds (rcv_reassembler t) i"
    using rcv_received_holds [OF inv seg st cnt, of i] nx w pos(2) by (simp add: t_def n_def)
  have p64: "of_nat pos = rcv_checkpoint r" using pos(1) by simp
  have e: "of_nat pos + seg_length seg = (of_nat (pos + n) :: uint64)" using syn fin by (simp add: seg_length_def n_def)
  have u: "unat (of_nat (pos + n) :: uint64) = pos + n"
    using unat_seg_end [OF seg len] syn fin unfolding e by (simp add: seg_end_def n_def)
  define v where "v = rcv_pushed (rcv_opened r seg) seg (seg_stream_index pos seg)"
  have t: "t = rcv_update_checkpoint v (of_nat pos) seg"
    unfolding t_def v_def by (rule rcv_received_at [OF inv seg st])
  have vi: "rcv_inv S isn v" unfolding v_def
    using rcv_opened_inv [OF inv so] i(2) set by (intro rcv_pushed_inv) (simp_all add: rcv_opened_def)
  have v: "rcv_checkpoint v = rcv_checkpoint r" "rcv_next v = rcv_next t" using syn by (simp_all add: v_def rcv_opened_def t)
  have "unat (rcv_checkpoint t) = pos + n"
    unfolding t unat_update_checkpoint [OF vi] e u using v p64 nx pos(2) long by simp
  then have "rcv_checkpoint t = of_nat (pos + n)" by (metis unat_eqD u)
  moreover have "rcv_is_set t" using set syn by (simp add: t v_def rcv_opened_def)
  ultimately show "rcv_ackno t = Some (wrap (of_nat (pos + n)) isn)"
    using ti by (simp add: rcv_ackno_def rcv_inv_def)
qed

section \<open>Properties\<close>

text \<open>
  (C8) A receiver delivers a prefix of what was sent: whatever segments of one stream arrive, in
  whatever order, repeated, overlapping or beyond the window, mixed with segments that carry nothing,
  and whenever the application reads, the bytes read so far followed by the bytes waiting are a
  prefix of that stream. (Streams are shorter than \<open>2^31 - 2\<close> bytes, so that no sequence number is
  ambiguous.)
\<close>

theorem tcp_receiver_delivers_prefix:
  assumes "unat cap < 2 ^ 63 - 1" and "length S + 2 < 2 ^ 31" and "list_all (rcv_op_ok S isn) ops"
    and "rcv_exec cap ops = (r, got)"
  shows "got @ bs_contents (rcv_stream_out r) = take (unat (bs_bytes_written (rcv_stream_out r))) S"
proof -
  have "rcv_inv S isn r" and got: "got = take (rcv_read_pos r) S"
    using rcv_exec_inv [OF assms] by simp_all
  then have inv: "sr_inv S (rcv_reassembler r)" by (simp add: rcv_inv_def)
  have "take (rcv_read_pos r) S = take (rcv_read_pos r) (take (sr_written_pos (rcv_reassembler r)) S)"
    using sr_invD(11) [OF inv] by (simp add: min_def)
  then show ?thesis
    by (simp only: got sr_invD(10) [OF inv] append_take_drop_id rcv_stream_out_def)
qed

theorem tcp_receiver_delivers_prefix_witness:
  "\<exists>r. rcv_exec 8 [Rcv_Segment (seg_make 7 False False []), Rcv_Segment (seg_make 0xffffffff True False []),
      Rcv_Segment (seg_make 2 False True [3, 4]), Rcv_Segment (seg_make 0 False False [1, 2, 3]), Rcv_Read 3]
     = (r, [1, 2, 3]) \<and> [1, 2, 3] @ bs_contents (rcv_stream_out r) = [1, 2, 3, 4]"
proof -
  let ?ops = "[Rcv_Segment (seg_make 7 False False []), Rcv_Segment (seg_make 0xffffffff True False []),
      Rcv_Segment (seg_make 2 False True [3, 4]), Rcv_Segment (seg_make 0 False False [1, 2, 3]), Rcv_Read 3]"
  have got: "snd (rcv_exec 8 ?ops) = [1, 2, 3]"
    and w: "bs_bytes_written (rcv_stream_out (fst (rcv_exec 8 ?ops))) = 4" by code_simp+
  then obtain r where r: "rcv_exec 8 ?ops = (r, [1, 2, 3])" by (cases "rcv_exec 8 ?ops") simp
  have "seg_of_stream [1, 2, 3, 4] (WrappingInt32 0xffffffff) (seg_make 7 False False [])"
    by (simp add: seg_of_stream_def seg_bare_def seg_new_def th_new_def)
  moreover have "seg_at [1, 2, 3, 4] (WrappingInt32 0xffffffff) 0 (seg_make 0xffffffff True False [])"
      "seg_at [1, 2, 3, 4] (WrappingInt32 0xffffffff) 3 (seg_make 2 False True [3, 4])"
      "seg_at [1, 2, 3, 4] (WrappingInt32 0xffffffff) 1 (seg_make 0 False False [1, 2, 3])"
    by (simp_all add: seg_at_def seg_new_def th_new_def substr_def wrap_of_nat)
  ultimately have "list_all (rcv_op_ok [1, 2, 3, 4] (WrappingInt32 0xffffffff)) ?ops"
    by (simp only: list.pred_inject rcv_op_ok.simps) (simp only: seg_of_stream_def, blast)
  then have "[1, 2, 3] @ bs_contents (rcv_stream_out r)
      = take (unat (bs_bytes_written (rcv_stream_out r))) [1, 2, 3, 4 :: uint8]"
    using r by (intro tcp_receiver_delivers_prefix [where cap = 8 and ops = ?ops]) simp_all
  then show ?thesis using r w by simp
qed

text \<open>
  (C18) Acknowledgments are sound and timely: a segment that the receiver can take whole leaves the
  acknowledgment at or before the first missing byte (one more when the stream is complete and its
  end was seen), and a segment that starts where the acknowledgment stands is acknowledged to its end.
\<close>

theorem tcp_receiver_acks:
  assumes "rcv_inv S isn r" and "rcv_ack_inv S r" and "seg_at S isn pos seg" and "rcv_fits S r pos seg"
    and "rcv_is_set r \<or> th_syn (seg_header seg)"
  shows "rcv_inv S isn (rcv_segment_received r seg) \<and> rcv_ack_inv S (rcv_segment_received r seg)
    \<and> rcv_ackno (rcv_segment_received r seg)
        = Some (wrap (rcv_checkpoint (rcv_segment_received r seg)) isn)
    \<and> unat (rcv_checkpoint (rcv_segment_received r seg))
        \<le> rcv_next (rcv_segment_received r seg) + 1
          + (if bs_input_ended (rcv_stream_out (rcv_segment_received r seg)) then 1 else 0)
    \<and> (pos = 0 \<or> pos = unat (rcv_checkpoint r) \<longrightarrow>
         seg_end pos seg \<le> unat (rcv_checkpoint (rcv_segment_received r seg)))"
proof -
  let ?r = "rcv_segment_received r seg"
  have so: "seg_of_stream S isn seg" using assms(3) by (auto simp: seg_of_stream_def)
  have i: "rcv_inv S isn ?r" using assms(1) so by (rule rcv_segment_received_inv)
  have set: "rcv_is_set ?r"
    using rcv_received_at [OF assms(1,3,5)] assms(5) by (auto simp: rcv_opened_def)
  show ?thesis using i set rcv_ack_step(1,2) [OF assms]
    by (simp add: rcv_ackno_def rcv_inv_def rcv_ack_inv_def)
qed

theorem tcp_receiver_acks_witness:
  "seg_end 0 (seg_make 5 True True [1, 2])
    \<le> unat (rcv_checkpoint (rcv_segment_received (rcv_new 8) (seg_make 5 True True [1, 2])))"
proof -
  let ?seg = "seg_make 5 True True [1, 2]"
  have "rcv_inv [1, 2] (WrappingInt32 5) (rcv_new 8)" by (rule rcv_new_inv) simp_all
  moreover have "rcv_ack_inv [1, 2] (rcv_new 8)" by (rule rcv_new_ack_inv) simp
  moreover have "seg_at [1, 2] (WrappingInt32 5) 0 ?seg"
    by (simp add: seg_at_def seg_new_def th_new_def substr_def)
  moreover have "rcv_fits [1, 2] (rcv_new 8) 0 ?seg"
    by (simp add: rcv_fits_def rcv_new_def seg_new_def th_new_def sr_eof_ok_def seg_stream_index_def)
  ultimately show ?thesis
    using tcp_receiver_acks [of "[1, 2]" "WrappingInt32 5" "rcv_new 8" 0 ?seg] by simp
qed

text \<open>
  (C19) The advertised window is exact. It is the free part of the capacity; while the stream goes on
  it begins at the first missing byte; and when a segment of the stream arrives, the receiver takes
  exactly the bytes of its payload that lie below the end of the window, keeps those that it had, and
  takes nothing else. Every byte it has is the byte of the stream at that place. (Each slot counts its
  duplicates, and no counter is at its maximum.)
\<close>

theorem tcp_receiver_window:
  assumes "rcv_inv S isn r" and "seg_at S isn pos seg" and "rcv_is_set r \<or> th_syn (seg_header seg)"
    and "\<not> bs_input_ended (rcv_stream_out r)" and "\<forall>c \<in> set (sr_count (rcv_reassembler r)). c \<noteq> - 1"
  shows "unat (rcv_window_size r) + length (bs_contents (rcv_stream_out r)) = unat (rcv_capacity r)
    \<and> rcv_next r + unat (rcv_window_size r) = rcv_read_pos r + unat (rcv_capacity r)
    \<and> (\<forall>i. sr_holds (rcv_reassembler (rcv_segment_received r seg)) i \<longleftrightarrow>
         (if pos - 1 \<le> i \<and> i < pos - 1 + length (buf_str (seg_payload seg))
          then i < rcv_next r + unat (rcv_window_size r) else sr_holds (rcv_reassembler r) i))
    \<and> (\<forall>i. sr_holds (rcv_reassembler (rcv_segment_received r seg)) i \<longrightarrow>
         sr_buffer (rcv_reassembler (rcv_segment_received r seg)) ! i = S ! i)"
proof -
  have "seg_of_stream S isn seg" using assms(2) by (auto simp: seg_of_stream_def)
  then have "sr_inv S (rcv_reassembler (rcv_segment_received r seg))"
    using rcv_segment_received_inv [OF assms(1)] by (simp add: rcv_inv_def)
  then show ?thesis
    using rcv_window_size [OF assms(1)] rcv_received_holds [OF assms(1-3,5)] assms(4) sr_holds_byte by auto
qed

theorem tcp_receiver_window_witness:
  "let r = rcv_segment_received (rcv_new 3) (seg_make 5 True False [1]);
       t = rcv_segment_received r (seg_make 7 False False [2, 3, 4])
   in unat (rcv_window_size r) = 2 \<and> rcv_next r = 1
     \<and> sr_holds (rcv_reassembler t) 2 \<and> \<not> sr_holds (rcv_reassembler t) 3"
proof -
  let ?r = "rcv_segment_received (rcv_new 3) (seg_make 5 True False [1])"
  let ?S = "[1, 2, 3, 4] :: bytes" and ?isn = "WrappingInt32 5" and ?seg = "seg_make 7 False False [2, 3, 4]"
  have at: "seg_at ?S ?isn 0 (seg_make 5 True False [1])" "seg_at ?S ?isn 2 ?seg"
    by (simp_all add: seg_at_def seg_new_def th_new_def substr_def wrap_of_nat)
  have inv: "rcv_inv ?S ?isn ?r"
  proof (rule rcv_segment_received_inv)
    show "rcv_inv ?S ?isn (rcv_new 3)" by (rule rcv_new_inv) simp_all
    show "seg_of_stream ?S ?isn (seg_make 5 True False [1])" using at(1) unfolding seg_of_stream_def by blast
  qed
  have r: "rcv_is_set ?r" "\<not> bs_input_ended (rcv_stream_out ?r)" "sr_count (rcv_reassembler ?r) = [1, 0, 0]"
      "unat (rcv_window_size ?r) = 2" "rcv_next ?r = 1"
    by code_simp+
  then show ?thesis
    using tcp_receiver_window [OF inv at(2)] by (simp add: Let_def seg_new_def)
qed

text \<open>
  (C35) Bytes that do not fit the window are acknowledged all the same: whenever a segment arrives in
  order whose payload is longer than the window, the acknowledgment moves to the end of the segment,
  while the receiver has assembled only what fits the window and has none of the bytes after it.
\<close>

theorem tcp_receiver_acks_discarded_data:
  fixes S isn r pos seg
  defines "t \<equiv> rcv_segment_received r seg" and "n \<equiv> length (buf_str (seg_payload seg))"
  assumes "rcv_inv S isn r" and "rcv_is_set r" and "\<not> bs_input_ended (rcv_stream_out r)"
    and "\<forall>c \<in> set (sr_count (rcv_reassembler r)). c \<noteq> - 1"
    and "seg_at S isn pos seg" and "\<not> th_syn (seg_header seg)" and "\<not> th_fin (seg_header seg)"
    and "pos = unat (rcv_checkpoint r)" and "pos = rcv_next r + 1" and "unat (rcv_window_size r) < n"
  shows "rcv_ackno t = Some (wrap (of_nat (pos + n)) isn)
    \<and> rcv_next t = rcv_next r + unat (rcv_window_size r)
    \<and> (\<forall>i. rcv_next t \<le> i \<and> i < pos - 1 + n \<longrightarrow> \<not> sr_holds (rcv_reassembler t) i)"
  using rcv_received_beyond [OF assms(3-11) assms(12) [unfolded n_def]] by (simp add: t_def n_def)

theorem tcp_receiver_acks_discarded_data_witness:
  "let r = rcv_segment_received (rcv_new 1) (seg_make 5 True False []);
       t = rcv_segment_received r (seg_make 6 False False [1, 2])
   in unat (rcv_window_size r) = 1 \<and> rcv_ackno t = Some (WrappingInt32 8) \<and> rcv_next t = 1
     \<and> \<not> sr_holds (rcv_reassembler t) 1"
proof -
  let ?r = "rcv_segment_received (rcv_new 1) (seg_make 5 True False [])"
  let ?S = "[1, 2] :: bytes" and ?isn = "WrappingInt32 5" and ?seg = "seg_make 6 False False [1, 2]"
  have at: "seg_at ?S ?isn 0 (seg_make 5 True False [])" "seg_at ?S ?isn 1 ?seg"
    by (simp_all add: seg_at_def seg_new_def th_new_def substr_def wrap_of_nat)
  have inv: "rcv_inv ?S ?isn ?r"
  proof (rule rcv_segment_received_inv)
    show "rcv_inv ?S ?isn (rcv_new 1)" by (rule rcv_new_inv) simp_all
    show "seg_of_stream ?S ?isn (seg_make 5 True False [])" using at(1) unfolding seg_of_stream_def by blast
  qed
  have r: "rcv_is_set ?r" "\<not> bs_input_ended (rcv_stream_out ?r)" "sr_count (rcv_reassembler ?r) = [0]"
      "unat (rcv_window_size ?r) = 1" "rcv_next ?r = 0" "rcv_checkpoint ?r = 1"
    by code_simp+
  have "unat (rcv_window_size ?r) < length (buf_str (seg_payload ?seg))" using r(4) by simp
  then show ?thesis
    using tcp_receiver_acks_discarded_data [OF inv r(1,2) _ at(2)] r(3-)
    by (simp add: Let_def seg_new_def th_new_def wrap_of_nat)
qed

text \<open>
  A segment that starts before the acknowledgment and reaches beyond it, such as a
  retransmission cut differently, is assembled but does not move the acknowledgment, which then stays
  behind the first missing byte.
\<close>

theorem tcp_receiver_overlap_not_acked:
  assumes "rcv_inv S isn r" and "rcv_ack_inv S r" and "seg_at S isn pos seg" and "rcv_fits S r pos seg"
    and "rcv_is_set r" and "0 < pos" and "pos < unat (rcv_checkpoint r)"
    and "unat (rcv_checkpoint r) < pos + length (buf_str (seg_payload seg))"
  shows "rcv_ackno (rcv_segment_received r seg) = rcv_ackno r
    \<and> unat (rcv_checkpoint (rcv_segment_received r seg)) \<le> rcv_next (rcv_segment_received r seg)"
proof -
  let ?r = "rcv_segment_received r seg"
  have cp: "rcv_checkpoint ?r = rcv_checkpoint r"
    using assms by (intro rcv_ack_step(3) [OF assms(1-4)]) simp_all
  have r': "?r = rcv_update_checkpoint (rcv_pushed (rcv_opened r seg) seg (seg_stream_index pos seg)) (of_nat pos) seg"
    using assms by (intro rcv_received_at [OF assms(1,3)]) simp
  have "\<not> th_syn (seg_header seg)" using assms by (auto simp: seg_at_def)
  then have "rcv_isn ?r = rcv_isn r" "rcv_is_set ?r = rcv_is_set r" by (simp_all add: r' rcv_opened_def)
  moreover have "pos \<le> rcv_next r + 1"
    using assms(2,5,7) by (auto simp: rcv_ack_inv_def split: if_splits)
  ultimately show ?thesis
    using cp rcv_pushed_ack(5) [OF assms(1-4)] assms(6,8) by (auto simp: rcv_ackno_def r')
qed

theorem tcp_receiver_overlap_not_acked_witness:
  "rcv_ackno (rcv_segment_received (rcv_segment_received (rcv_new 8) (seg_make 5 True False [1, 2]))
      (seg_make 7 False False [2, 3])) = Some (WrappingInt32 8)"
proof -
  let ?r = "rcv_segment_received (rcv_new 8) (seg_make 5 True False [1, 2])"
    and ?seg = "seg_make 7 False False [2, 3]" and ?S = "[1, 2, 3, 4] :: bytes" and ?isn = "WrappingInt32 5"
  have new: "rcv_inv ?S ?isn (rcv_new 8)" "rcv_ack_inv ?S (rcv_new 8)"
    by (rule rcv_new_inv rcv_new_ack_inv; simp)+
  have at: "seg_at ?S ?isn 0 (seg_make 5 True False [1, 2])" "seg_at ?S ?isn 2 ?seg"
    by (simp_all add: seg_at_def seg_new_def th_new_def substr_def wrap_of_nat)
  have "rcv_fits ?S (rcv_new 8) 0 (seg_make 5 True False [1, 2])"
    by (simp add: rcv_fits_def rcv_new_def seg_new_def th_new_def)
  then have "rcv_ack_inv ?S ?r"
    using new at(1) by (intro rcv_ack_step(1)) (simp_all add: seg_new_def)
  moreover have "rcv_inv ?S ?isn ?r"
    using new at(1) by (intro rcv_segment_received_inv) (auto simp: seg_of_stream_def)
  moreover have "rcv_is_set ?r" "rcv_checkpoint ?r = 3" "rcv_ackno ?r = Some (WrappingInt32 8)"
      "rcv_capacity ?r = 8" "sr_count (rcv_reassembler ?r) = [1, 1, 0, 0, 0, 0, 0, 0]"
    by code_simp+
  moreover from this have "rcv_fits ?S ?r 2 ?seg"
    by (simp add: rcv_fits_def seg_new_def th_new_def)
  ultimately show ?thesis
    using tcp_receiver_overlap_not_acked [of ?S ?isn ?r 2 ?seg] at(2) by (simp add: seg_new_def)
qed

end
