(* ===== verification/TCP_Sending_Window.thy ===== *)
theory TCP_Sending_Window
  imports TCP_Segment
begin

text \<open>
  The outstanding segments of a sender (\<open>libsponge/tcp_sending_window.hh\<close>,
  \<open>tcp_sending_window.cc\<close>): the queue of segments that have been sent and not acknowledged, each
  with the time until it is sent again, the first unacknowledged and the next sequence number, and
  the size of the peer's window.
\<close>

section \<open>State and operations\<close>

record sent_segment =
  ss_segment :: tcp_segment
  ss_remaining_rto :: uint32

record sending_window =
  win_buffer :: "sent_segment list"
  win_isn :: WrappingInt32
  win_first_seqno :: uint64
  win_window_size :: uint64
  win_next_seqno :: uint64

definition win_shrink_front :: "size_t \<Rightarrow> sending_window \<Rightarrow> sending_window result" where
  "win_shrink_front n w =
     (if win_window_size w < n then Inl (Runtime_Error ''Cannot shrink window by more than its size'')
      else Inr (w\<lparr>win_window_size := win_window_size w - n, win_first_seqno := win_first_seqno w + n\<rparr>))"

definition win_expand_back :: "size_t \<Rightarrow> sending_window \<Rightarrow> sending_window" where
  "win_expand_back n w = w\<lparr>win_window_size := win_window_size w + n\<rparr>"

definition win_advance :: "size_t \<Rightarrow> sending_window \<Rightarrow> sending_window result" where
  "win_advance n w = win_shrink_front n (win_expand_back n w)"

definition win_set_window_size :: "size_t \<Rightarrow> sending_window \<Rightarrow> sending_window" where
  "win_set_window_size n w = w\<lparr>win_window_size := n\<rparr>"

definition win_new :: "WrappingInt32 \<Rightarrow> size_t \<Rightarrow> sending_window" where
  "win_new isn window_size = \<lparr>win_buffer = [], win_isn = isn, win_first_seqno = 0,
     win_window_size = window_size, win_next_seqno = 0\<rparr>"

definition win_buffer_empty :: "sending_window \<Rightarrow> bool" where
  "win_buffer_empty w \<longleftrightarrow> win_buffer w = []"

definition win_buffer_size :: "sending_window \<Rightarrow> size_t" where
  "win_buffer_size w = size_of (win_buffer w)"

definition win_window_closed :: "sending_window \<Rightarrow> bool" where
  "win_window_closed w \<longleftrightarrow> win_window_size w = 0"

definition win_bytes_in_flight :: "sending_window \<Rightarrow> size_t" where
  "win_bytes_in_flight w = win_next_seqno w - win_first_seqno w"

definition win_space :: "sending_window \<Rightarrow> size_t" where
  "win_space w = win_window_size w - win_bytes_in_flight w"

text \<open>\<open>space() <= 0\<close> compares unsigned numbers.\<close>

definition win_full :: "sending_window \<Rightarrow> bool" where
  "win_full w = (if win_window_closed w then True
     else if win_buffer_empty w then False
     else win_space w \<le> 0)"

definition win_add_segment :: "tcp_segment \<Rightarrow> uint32 \<Rightarrow> sending_window \<Rightarrow> sending_window result" where
  "win_add_segment segment rto w =
     (if win_full w then Inl (Runtime_Error ''Cannot add segment to full window'')
      else Inr (w\<lparr>win_buffer := win_buffer w @ [\<lparr>ss_segment = segment, ss_remaining_rto = rto\<rparr>],
        win_next_seqno := unwrap (th_seqno (seg_header segment)) (win_isn w) (win_next_seqno w)
          + seg_length segment\<rparr>))"

definition ss_seqno :: "sending_window \<Rightarrow> sent_segment \<Rightarrow> uint64" where
  "ss_seqno w s = unwrap (th_seqno (seg_header (ss_segment s))) (win_isn w) (win_next_seqno w)"

text \<open>
  The loop of \<open>ack_received\<close> counts down from the last segment to the last one that starts before
  the acknowledgment; the last argument is \<open>i + 1\<close>, and \<open>None\<close> stands for \<open>i == size_t(-1)\<close>.
\<close>

fun win_scan :: "sending_window \<Rightarrow> uint64 \<Rightarrow> nat \<Rightarrow> nat option" where
  "win_scan w ack_seqno 0 = None"
| "win_scan w ack_seqno (Suc i) =
     (if ack_seqno > ss_seqno w (win_buffer w ! i) then Some i else win_scan w ack_seqno i)"

definition win_ack_received ::
  "WrappingInt32 \<Rightarrow> uint16 \<Rightarrow> sending_window \<Rightarrow> (bool \<times> sending_window) result" where
  "win_ack_received ackno window_size w =
     (let ack_seqno = unwrap ackno (win_isn w) (win_next_seqno w)
      in if ack_seqno > win_next_seqno w \<or> ack_seqno < win_first_seqno w then Inr (False, w)
         else if ack_seqno = win_first_seqno w
         then Inr (False, win_set_window_size (ucast window_size) w)
         else case win_scan w ack_seqno (length (win_buffer w)) of
                None \<Rightarrow> Inl (Undefined_Behaviour ''TCPSendingWindow::ack_received: erase before begin'')
              | Some i \<Rightarrow>
                  let w = w\<lparr>win_buffer := drop i (win_buffer w)\<rparr>;
                      s = win_buffer w ! 0;
                      w = (if ack_seqno \<ge> ss_seqno w s + seg_length (ss_segment s)
                           then w\<lparr>win_buffer := drop 1 (win_buffer w)\<rparr> else w)
                  in bind_res (win_advance (unwrap ackno (win_isn w) (win_next_seqno w) - win_first_seqno w) w)
                       (\<lambda>w. Inr (True, win_set_window_size (ucast window_size) w)))"

fun win_tick_loop :: "size_t \<Rightarrow> sent_segment list \<Rightarrow> tcp_segment list \<Rightarrow> sent_segment list \<times> tcp_segment list" where
  "win_tick_loop ms [] ret = ([], ret)"
| "win_tick_loop ms (s # ss) ret =
     (if ucast (ss_remaining_rto s) > ms then
        (case win_tick_loop ms ss ret of (ss', ret') \<Rightarrow>
           (s\<lparr>ss_remaining_rto := ss_remaining_rto s - ucast ms\<rparr> # ss', ret'))
      else (case win_tick_loop ms ss (ret @ [ss_segment s]) of (ss', ret') \<Rightarrow> (s # ss', ret')))"

definition win_tick :: "size_t \<Rightarrow> sending_window \<Rightarrow> sending_window \<times> tcp_segment list" where
  "win_tick ms_elapsed w = (case win_tick_loop ms_elapsed (win_buffer w) [] of
     (buf, ret) \<Rightarrow> (w\<lparr>win_buffer := buf\<rparr>, ret))"

definition win_reset_timer :: "size_t \<Rightarrow> sending_window \<Rightarrow> sending_window" where
  "win_reset_timer rto w =
     w\<lparr>win_buffer := map (\<lambda>s. s\<lparr>ss_remaining_rto := ucast rto\<rparr>) (win_buffer w)\<rparr>"

section \<open>The invariant\<close>

text \<open>
  The outstanding segments follow each other without a gap from absolute position \<open>a\<close> to \<open>b\<close>, and
  each takes at least one sequence number.
\<close>

abbreviation ss_length :: "sent_segment \<Rightarrow> nat" where
  "ss_length s \<equiv> unat (seg_length (ss_segment s))"

fun win_chain :: "WrappingInt32 \<Rightarrow> nat \<Rightarrow> sent_segment list \<Rightarrow> nat \<Rightarrow> bool" where
  "win_chain isn a [] b \<longleftrightarrow> a = b"
| "win_chain isn a (s # ss) b \<longleftrightarrow> th_seqno (seg_header (ss_segment s)) = wrap (of_nat a) isn
     \<and> 0 < ss_length s \<and> win_chain isn (a + ss_length s) ss b"

text \<open>The first segment may be partly acknowledged.\<close>

definition win_from :: "nat \<Rightarrow> sending_window \<Rightarrow> bool" where
  "win_from a w \<longleftrightarrow> unat (win_next_seqno w) < 2 ^ 31 \<and> a \<le> unat (win_first_seqno w)
     \<and> win_chain (win_isn w) a (win_buffer w) (unat (win_next_seqno w))
     \<and> (if win_buffer w = [] then a = unat (win_first_seqno w)
        else unat (win_first_seqno w) < a + ss_length (win_buffer w ! 0))"

definition win_inv :: "sending_window \<Rightarrow> bool" where
  "win_inv w \<longleftrightarrow> (\<exists>a. win_from a w)"

lemma win_chain_le: "win_chain isn a ss b \<Longrightarrow> a \<le> b"
  by (induction ss arbitrary: a) fastforce+

lemma win_chain_append:
  "win_chain isn a (ss @ ts) b \<longleftrightarrow> (\<exists>m. win_chain isn a ss m \<and> win_chain isn m ts b)"
  by (induction ss arbitrary: a) auto

lemma win_new_inv: "win_inv (win_new isn n)"
  by (simp add: win_inv_def win_from_def win_new_def)

lemma win_inv_first:
  assumes "win_inv w"
  shows "unat (win_first_seqno w) \<le> unat (win_next_seqno w)"
    and "unat (win_bytes_in_flight w) = unat (win_next_seqno w) - unat (win_first_seqno w)"
    and "win_buffer w = [] \<longleftrightarrow> win_first_seqno w = win_next_seqno w"
proof -
  obtain a where a: "win_from a w" using assms by (auto simp: win_inv_def)
  have *: "if win_buffer w = [] then unat (win_first_seqno w) = unat (win_next_seqno w)
      else unat (win_first_seqno w) < unat (win_next_seqno w)"
    using a win_chain_le by (cases "win_buffer w") (fastforce simp: win_from_def)+
  then show "unat (win_first_seqno w) \<le> unat (win_next_seqno w)" by (auto split: if_splits)
  then show "unat (win_bytes_in_flight w) = unat (win_next_seqno w) - unat (win_first_seqno w)"
    by (simp add: win_bytes_in_flight_def unat_minus_no_wrap)
  show "win_buffer w = [] \<longleftrightarrow> win_first_seqno w = win_next_seqno w"
    using * by (auto split: if_splits dest: unat_eqD)
qed

text \<open>Reading positions back from sequence numbers.\<close>

lemma unwrap_position:
  assumes "pos < 2 ^ 31" and "unat next < 2 ^ 31"
  shows "unwrap (wrap (of_nat pos) isn) isn next = of_nat pos"
  using assms by (intro seqno.dec_enc seq_near_small) (simp_all add: unat_of_nat_less)

lemma unat_position: "pos < 2 ^ 31 \<Longrightarrow> unat (of_nat pos :: uint64) = pos"
  by (simp add: unat_of_nat_less)

lemma win_add_segment_eq:
  assumes "\<not> win_full w" and "th_seqno (seg_header seg) = wrap (win_next_seqno w) (win_isn w)"
  shows "win_add_segment seg rto w = Inr (w\<lparr>
    win_buffer := win_buffer w @ [\<lparr>ss_segment = seg, ss_remaining_rto = rto\<rparr>],
    win_next_seqno := win_next_seqno w + seg_length seg\<rparr>)"
  using assms by (simp add: win_add_segment_def)

lemma win_add_segment_inv:
  assumes inv: "win_inv w" and "th_seqno (seg_header seg) = wrap (win_next_seqno w) (win_isn w)"
    and "seg_length seg \<noteq> 0" and "unat (win_next_seqno w) + unat (seg_length seg) < 2 ^ 31"
  shows "win_inv (w\<lparr>win_buffer := win_buffer w @ [\<lparr>ss_segment = seg, ss_remaining_rto = rto\<rparr>],
    win_next_seqno := win_next_seqno w + seg_length seg\<rparr>)"
proof -
  have n: "unat (win_next_seqno w + seg_length seg) = unat (win_next_seqno w) + unat (seg_length seg)"
    using assms(4) by (intro unat_plus_no_wrap) simp
  have "0 < unat (seg_length seg)" using assms(3) by (simp add: unat_gt_0)
  moreover obtain a where "win_from a w" using inv by (auto simp: win_inv_def)
  ultimately show ?thesis using assms(2,4) unfolding win_inv_def
    by (intro exI [of _ a]) (auto simp: win_from_def n win_chain_append nth_append)
qed

section \<open>Acknowledgments\<close>

text \<open>The start of the \<open>j\<close>-th outstanding segment.\<close>

definition win_start :: "nat \<Rightarrow> sent_segment list \<Rightarrow> nat \<Rightarrow> nat" where
  "win_start a ss j = a + sum_list (map ss_length (take j ss))"

lemma win_start_0 [simp]: "win_start a ss 0 = a"
  by (simp add: win_start_def)

lemma win_start_Suc: "j < length ss \<Longrightarrow> win_start a ss (Suc j) = win_start a ss j + ss_length (ss ! j)"
  by (simp add: win_start_def take_Suc_conv_app_nth)

lemma win_chain_split:
  assumes "win_chain isn a ss b" and "j \<le> length ss"
  shows "win_chain isn a (take j ss) (win_start a ss j)" and "win_chain isn (win_start a ss j) (drop j ss) b"
proof -
  have *: "win_chain isn a ts m \<Longrightarrow> m = a + sum_list (map ss_length ts)" for a ts m
    by (induction ts arbitrary: a) fastforce+
  obtain m where "win_chain isn a (take j ss) m" "win_chain isn m (drop j ss) b"
    using assms win_chain_append [of isn a "take j ss" "drop j ss" b] by auto
  moreover from this have "m = win_start a ss j" using * by (simp add: win_start_def)
  ultimately show "win_chain isn a (take j ss) (win_start a ss j)"
    and "win_chain isn (win_start a ss j) (drop j ss) b" by simp_all
qed

lemma win_chain_nth:
  assumes "win_chain isn a ss b" and "j < length ss"
  shows "th_seqno (seg_header (ss_segment (ss ! j))) = wrap (of_nat (win_start a ss j)) isn"
    and "0 < ss_length (ss ! j)" and "win_start a ss (Suc j) \<le> b" and "win_start a ss j < b"
proof -
  have "drop j ss = ss ! j # drop (Suc j) ss" using assms(2) by (simp add: Cons_nth_drop_Suc)
  with win_chain_split(2) [OF assms(1), of j] assms(2)
  have c: "win_chain isn (win_start a ss j) (ss ! j # drop (Suc j) ss) b" by simp
  then show "th_seqno (seg_header (ss_segment (ss ! j))) = wrap (of_nat (win_start a ss j)) isn"
    and p: "0 < ss_length (ss ! j)" by simp_all
  show le: "win_start a ss (Suc j) \<le> b"
    using c win_start_Suc [OF assms(2), of a] win_chain_le by auto
  show "win_start a ss j < b" using le p win_start_Suc [OF assms(2), of a] by simp
qed

lemma win_scan_spec:
  "case win_scan w x n of
     None \<Rightarrow> \<forall>j<n. \<not> ss_seqno w (win_buffer w ! j) < x
   | Some i \<Rightarrow> i < n \<and> ss_seqno w (win_buffer w ! i) < x
       \<and> (\<forall>j. i < j \<and> j < n \<longrightarrow> \<not> ss_seqno w (win_buffer w ! j) < x)"
  by (induction n) (auto simp: less_Suc_eq split: option.splits)

lemma dropWhile_at:
  assumes "\<And>j. j < n \<Longrightarrow> P (xs ! j)" and "n \<le> length xs" and "n < length xs \<Longrightarrow> \<not> P (xs ! n)"
  shows "dropWhile P xs = drop n xs"
proof -
  have "dropWhile P (take n xs @ drop n xs) = dropWhile P (drop n xs)"
    using assms by (intro dropWhile_append2) (auto simp: in_set_conv_nth)
  also have "\<dots> = drop n xs"
    using assms by (cases "n < length xs") (simp_all add: Cons_nth_drop_Suc [symmetric])
  finally show ?thesis by simp
qed

text \<open>What an acknowledgment of position \<open>k\<close> leaves outstanding: the segments that end after \<open>k\<close>.\<close>

definition win_outstanding :: "sending_window \<Rightarrow> nat \<Rightarrow> sent_segment list" where
  "win_outstanding w k = dropWhile (\<lambda>s. unat (ss_seqno w s) + ss_length s \<le> k) (win_buffer w)"

lemma win_ack_new:
  assumes inv: "win_inv w" and k: "unat (win_first_seqno w) < k" "k \<le> unat (win_next_seqno w)"
  obtains i where "win_scan w (of_nat k) (length (win_buffer w)) = Some i" "i < length (win_buffer w)"
    "win_outstanding w k = drop (if unat (ss_seqno w (win_buffer w ! i)) + ss_length (win_buffer w ! i) \<le> k
       then Suc i else i) (win_buffer w)"
    "unat (ss_seqno w (win_buffer w ! i)) + ss_length (win_buffer w ! i) < 2 ^ 31"
    "win_inv (w\<lparr>win_buffer := win_outstanding w k, win_first_seqno := of_nat k\<rparr>)"
proof -
  define ss where "ss = win_buffer w"
  obtain a where "win_from a w" using inv by (auto simp: win_inv_def)
  then have a: "a \<le> unat (win_first_seqno w)" "win_chain (win_isn w) a ss (unat (win_next_seqno w))"
      "if ss = [] then a = unat (win_first_seqno w) else unat (win_first_seqno w) < a + ss_length (ss ! 0)"
    and nx: "unat (win_next_seqno w) < 2 ^ 31"
    by (simp_all add: win_from_def ss_def)
  have pos: "unat (ss_seqno w (ss ! j)) = win_start a ss j" if "j < length ss" for j
  proof -
    have "win_start a ss j < 2 ^ 31" using win_chain_nth(4) [OF a(2) that] nx by simp
    then show ?thesis using win_chain_nth(1) [OF a(2) that] nx
      by (simp add: ss_seqno_def unwrap_position unat_position)
  qed
  have k31: "unat (of_nat k :: uint64) = k" using k nx by (intro unat_position) simp
  have "ss \<noteq> []" using a k by auto
  then obtain i where sc: "win_scan w (of_nat k) (length ss) = Some i" "i < length ss" "win_start a ss i < k"
      and later: "\<And>j. i < j \<Longrightarrow> j < length ss \<Longrightarrow> k \<le> win_start a ss j"
    using win_scan_spec [where w = w and x = "of_nat k" and n = "length ss"] pos k31 a(1) k(1)
    by (fastforce simp: ss_def [symmetric] word_less_nat_alt not_less split: option.splits)
  define n where "n = (if win_start a ss (Suc i) \<le> k then Suc i else i)"
  have n: "n \<le> length ss" "win_start a ss n \<le> k" "n < length ss \<Longrightarrow> k < win_start a ss n + ss_length (ss ! n)"
    using sc later [of "Suc i"] win_chain_nth(2) [OF a(2), of "Suc i"]
    by (auto simp: n_def win_start_Suc not_le)
  have mono: "win_start a ss j \<le> win_start a ss m" if "j \<le> m" for j m
  proof -
    have "take m ss = take j ss @ take (m - j) (drop j ss)" using that by (metis le_add_diff_inverse take_add)
    then show ?thesis by (simp add: win_start_def)
  qed
  have "win_outstanding w k = drop n ss"
    unfolding win_outstanding_def ss_def [symmetric]
  proof (rule dropWhile_at)
    show "unat (ss_seqno w (ss ! j)) + ss_length (ss ! j) \<le> k" if "j < n" for j
      using that n mono [of "Suc j" n] by (simp add: pos win_start_Suc [symmetric])
    show "\<not> unat (ss_seqno w (ss ! n)) + ss_length (ss ! n) \<le> k" if "n < length ss"
      using that n by (simp add: pos)
  qed (rule n(1))
  moreover have "win_from (win_start a ss n) (w\<lparr>win_buffer := drop n ss, win_first_seqno := of_nat k\<rparr>)"
    using win_chain_split(2) [OF a(2) n(1)] n nx k k31
    by (cases "n = length ss") (auto simp: win_from_def)
  ultimately show thesis
    using sc pos [OF sc(2)] win_start_Suc [OF sc(2), of a] win_chain_nth(3) [OF a(2) sc(2)] nx
    by (intro that [of i]) (auto simp: ss_def n_def win_inv_def)
qed

lemma win_advance_ok:
  assumes "unat (win_window_size w) + unat n < size_limit"
  shows "win_advance n w = Inr (w\<lparr>win_first_seqno := win_first_seqno w + n\<rparr>)"
proof -
  have "unat (win_window_size w + n) = unat (win_window_size w) + unat n"
    using assms by (intro unat_plus_no_wrap) simp
  then have "\<not> win_window_size w + n < n" by (simp add: word_less_nat_alt)
  then show ?thesis by (simp add: win_advance_def win_expand_back_def win_shrink_front_def)
qed

lemma win_ack_received_eq:
  fixes w :: sending_window and ackno :: WrappingInt32
  defines "k \<equiv> unat (unwrap ackno (win_isn w) (win_next_seqno w))"
  assumes inv: "win_inv w" and "unat (win_window_size w) < 2 ^ 32"
  shows "win_ack_received ackno ws w =
    (if unat (win_next_seqno w) < k \<or> k < unat (win_first_seqno w) then Inr (False, w)
     else if k = unat (win_first_seqno w) then Inr (False, w\<lparr>win_window_size := ucast ws\<rparr>)
     else Inr (True, w\<lparr>win_buffer := win_outstanding w k, win_first_seqno := of_nat k,
       win_window_size := ucast ws\<rparr>))"
proof -
  let ?x = "unwrap ackno (win_isn w) (win_next_seqno w)"
  have x: "?x = of_nat k" by (simp add: k_def)
  have cmp: "win_next_seqno w < ?x \<longleftrightarrow> unat (win_next_seqno w) < k"
      "?x < win_first_seqno w \<longleftrightarrow> k < unat (win_first_seqno w)"
      "?x = win_first_seqno w \<longleftrightarrow> k = unat (win_first_seqno w)"
    by (simp_all add: k_def word_less_nat_alt word_unat_eq_iff)
  have old: ?thesis if "\<not> (unat (win_first_seqno w) < k \<and> k \<le> unat (win_next_seqno w))"
    using that unfolding win_ack_received_def Let_def cmp by (auto simp: win_set_window_size_def)
  have new: ?thesis if k: "unat (win_first_seqno w) < k" "k \<le> unat (win_next_seqno w)"
  proof -
    have nx: "unat (win_next_seqno w) < 2 ^ 31" using inv by (auto simp: win_inv_def win_from_def)
    obtain i where i: "win_scan w ?x (length (win_buffer w)) = Some i" "i < length (win_buffer w)"
      "win_outstanding w k = drop (if unat (ss_seqno w (win_buffer w ! i)) + ss_length (win_buffer w ! i) \<le> k
         then Suc i else i) (win_buffer w)"
      "unat (ss_seqno w (win_buffer w ! i)) + ss_length (win_buffer w ! i) < 2 ^ 31"
      using win_ack_new [OF inv k] x by metis
    let ?s = "win_buffer w ! i"
    have same: "ss_seqno (w\<lparr>win_buffer := b\<rparr>) t = ss_seqno w t" for b t by (simp add: ss_seqno_def)
    have "unat (ss_seqno w ?s + seg_length (ss_segment ?s)) = unat (ss_seqno w ?s) + ss_length ?s"
      using i(4) by (intro unat_plus_no_wrap) simp
    then have acked: "ss_seqno w ?s + seg_length (ss_segment ?s) \<le> ?x \<longleftrightarrow> unat (ss_seqno w ?s) + ss_length ?s \<le> k"
      by (simp add: word_le_nat_alt k_def)
    have "unat (?x - win_first_seqno w) = k - unat (win_first_seqno w)"
      using k by (simp add: unat_minus_no_wrap k_def [symmetric])
    then have lim: "unat (win_window_size w) + unat (?x - win_first_seqno w) < size_limit"
      using assms(3) k nx by simp
    have adv: "win_advance (?x - win_first_seqno w) (w\<lparr>win_buffer := b\<rparr>)
        = Inr (w\<lparr>win_buffer := b, win_first_seqno := ?x\<rparr>)" for b
      using win_advance_ok [of "w\<lparr>win_buffer := b\<rparr>"] lim by simp
    show ?thesis
      using k i(1-3) unfolding win_ack_received_def Let_def cmp x [symmetric]
      by (simp add: same acked adv win_set_window_size_def)
  qed
  from old new show ?thesis by (meson not_le)
qed

lemma win_inv_window_size [simp]: "win_inv (w\<lparr>win_window_size := n\<rparr>) = win_inv w"
  by (simp add: win_inv_def win_from_def)

lemma unat_window_field: "unat (ucast (ws :: uint16) :: uint64) < 2 ^ 16"
proof -
  have "unat ws < 2 ^ 16" using unsigned_less [of ws, where 'a = nat] by simp
  then show ?thesis by (simp add: unsigned_ucast_eq take_bit_nat_eq_self)
qed

lemma win_ack_received_inv:
  assumes inv: "win_inv w" and lim: "unat (win_window_size w) < 2 ^ 32"
  obtains new w' where "win_ack_received ackno ws w = Inr (new, w')" "win_inv w'"
    "win_next_seqno w' = win_next_seqno w" "win_isn w' = win_isn w" "unat (win_window_size w') < 2 ^ 32"
    "unat (win_first_seqno w) \<le> unat (win_first_seqno w')" "set (win_buffer w') \<subseteq> set (win_buffer w)"
    "new \<longleftrightarrow> unat (win_first_seqno w) < unat (win_first_seqno w')"
proof -
  let ?k = "unat (unwrap ackno (win_isn w) (win_next_seqno w))"
  note eq = win_ack_received_eq [OF inv lim, of ackno ws]
  consider "unat (win_next_seqno w) < ?k \<or> ?k < unat (win_first_seqno w)" | "?k = unat (win_first_seqno w)"
    | "unat (win_first_seqno w) < ?k" "?k \<le> unat (win_next_seqno w)" by linarith
  then show thesis
  proof cases
    case 1
    then show thesis using eq inv lim by (intro that [of False w]) simp_all
  next
    case 2
    then have "\<not> unat (win_next_seqno w) < ?k" using win_inv_first(1) [OF inv] by simp
    then show thesis using eq inv 2 unat_window_field [of ws]
      by (intro that [of False "w\<lparr>win_window_size := ucast ws\<rparr>"]) simp_all
  next
    case 3
    let ?w = "w\<lparr>win_buffer := win_outstanding w ?k, win_first_seqno := of_nat ?k, win_window_size := ucast ws\<rparr>"
    have "win_inv (w\<lparr>win_buffer := win_outstanding w ?k, win_first_seqno := of_nat ?k\<rparr>)"
      using win_ack_new [OF inv 3] by metis
    then have "win_inv ?w" by (simp only: win_inv_window_size)
    moreover have "set (win_outstanding w ?k) \<subseteq> set (win_buffer w)"
      by (auto simp: win_outstanding_def dest: set_dropWhileD)
    ultimately show thesis using eq 3 unat_window_field [of ws] by (intro that [of True ?w]) simp_all
  qed
qed

section \<open>Timers\<close>

definition ss_aged :: "size_t \<Rightarrow> sent_segment \<Rightarrow> sent_segment" where
  "ss_aged ms s = (if unat ms < unat (ss_remaining_rto s)
     then s\<lparr>ss_remaining_rto := of_nat (unat (ss_remaining_rto s) - unat ms)\<rparr> else s)"

definition ss_expired :: "size_t \<Rightarrow> sent_segment \<Rightarrow> bool" where
  "ss_expired ms s \<longleftrightarrow> unat (ss_remaining_rto s) \<le> unat ms"

lemma win_tick_loop_eq:
  "win_tick_loop ms ss ret = (map (ss_aged ms) ss, ret @ map ss_segment (filter (ss_expired ms) ss))"
proof (induction ss arbitrary: ret)
  case (Cons s ss)
  have lt: "ms < ucast (ss_remaining_rto s) \<longleftrightarrow> unat ms < unat (ss_remaining_rto s)"
    by (simp add: word_less_nat_alt)
  have "ss_remaining_rto s - ucast ms = of_nat (unat (ss_remaining_rto s) - unat ms)"
    if "unat ms < unat (ss_remaining_rto s)"
  proof (rule unat_eqD)
    have "unat ms < 2 ^ 32" using that unsigned_less [of "ss_remaining_rto s", where 'a = nat] by simp
    then have "unat (ucast ms :: uint32) = unat ms" by (simp add: unsigned_ucast_eq take_bit_nat_eq_self)
    moreover have "unat (ss_remaining_rto s) - unat ms < 2 ^ 32"
      using unsigned_less [of "ss_remaining_rto s", where 'a = nat] by simp
    ultimately show "unat (ss_remaining_rto s - ucast ms)
        = unat (of_nat (unat (ss_remaining_rto s) - unat ms) :: uint32)"
      using that by (simp add: unat_minus_no_wrap unat_of_nat_less)
  qed
  then show ?case using Cons.IH by (simp add: lt ss_aged_def ss_expired_def not_less)
qed simp

lemma ss_aged_segment [simp]: "ss_segment (ss_aged ms s) = ss_segment s"
  by (simp add: ss_aged_def)

lemma win_chain_map:
  "(\<And>s. ss_segment (f s) = ss_segment s) \<Longrightarrow> win_chain isn a (map f ss) b = win_chain isn a ss b"
  by (induction ss arbitrary: a) simp_all

lemma win_tick_eq:
  "win_tick ms w = (w\<lparr>win_buffer := map (ss_aged ms) (win_buffer w)\<rparr>,
     map ss_segment (filter (ss_expired ms) (win_buffer w)))"
  by (simp add: win_tick_def win_tick_loop_eq)

lemma win_inv_timers:
  "(\<And>s. ss_segment (f s) = ss_segment s) \<Longrightarrow> win_inv (w\<lparr>win_buffer := map f (win_buffer w)\<rparr>) = win_inv w"
  by (auto simp: win_inv_def win_from_def win_chain_map)

lemma win_tick_inv [invar_intros]: "win_inv w \<Longrightarrow> win_inv (fst (win_tick ms w))"
  by (simp add: win_tick_eq win_inv_timers)

lemma win_reset_timer_inv [invar_intros]: "win_inv w \<Longrightarrow> win_inv (win_reset_timer rto w)"
  by (simp add: win_reset_timer_def win_inv_timers)

lemma win_timer_frame [simp]:
  "win_isn (fst (win_tick ms w)) = win_isn w" "win_isn (win_reset_timer rto w) = win_isn w"
  "win_first_seqno (fst (win_tick ms w)) = win_first_seqno w"
  "win_first_seqno (win_reset_timer rto w) = win_first_seqno w"
  "win_next_seqno (fst (win_tick ms w)) = win_next_seqno w"
  "win_next_seqno (win_reset_timer rto w) = win_next_seqno w"
  "win_window_size (fst (win_tick ms w)) = win_window_size w"
  "win_window_size (win_reset_timer rto w) = win_window_size w"
  by (simp_all add: win_tick_eq win_reset_timer_def)

section \<open>Properties\<close>

text \<open>
  \<open>ack_received\<close> is the textbook operation, and throws nothing: an acknowledgment outside the
  window changes nothing; a repeated one sets the window size; a new one removes exactly the segments
  that end at or before it, keeps a partly acknowledged segment whole, advances the left edge to the
  acknowledged position, sets the window size and reports new data. The backward search and the two
  erasures of the code agree with dropping the fully acknowledged segments from the front, and the
  window stays well-formed.
\<close>

theorem window_ack_received:
  fixes w :: sending_window and ackno :: WrappingInt32
  defines "k \<equiv> unat (unwrap ackno (win_isn w) (win_next_seqno w))"
  assumes "win_inv w" and "unat (win_window_size w) < 2 ^ 32"
  shows "win_ack_received ackno ws w =
    (if unat (win_next_seqno w) < k \<or> k < unat (win_first_seqno w) then Inr (False, w)
     else if k = unat (win_first_seqno w) then Inr (False, w\<lparr>win_window_size := ucast ws\<rparr>)
     else Inr (True, w\<lparr>win_buffer := dropWhile (\<lambda>s. unat (ss_seqno w s) + ss_length s \<le> k) (win_buffer w),
       win_first_seqno := of_nat k, win_window_size := ucast ws\<rparr>))
    \<and> (\<exists>new w'. win_ack_received ackno ws w = Inr (new, w') \<and> win_inv w')"
proof
  show "\<exists>new w'. win_ack_received ackno ws w = Inr (new, w') \<and> win_inv w'"
    by (rule win_ack_received_inv [OF assms(2,3), of ackno ws]) blast
qed (simp only: win_ack_received_eq [OF assms(2,3)] win_outstanding_def k_def)

theorem window_ack_received_witness:
  "let syn = set_seqno (WrappingInt32 5) (set_syn True seg_new);
       w = \<lparr>win_buffer = [\<lparr>ss_segment = syn, ss_remaining_rto = 9\<rparr>], win_isn = WrappingInt32 5,
            win_first_seqno = 0, win_window_size = 1, win_next_seqno = 1\<rparr>
   in win_ack_received (WrappingInt32 6) 10 w
      = Inr (True, w\<lparr>win_buffer := [], win_first_seqno := 1, win_window_size := 10\<rparr>)"
proof -
  let ?syn = "set_seqno (WrappingInt32 5) (set_syn True seg_new)"
  let ?w = "\<lparr>win_buffer = [\<lparr>ss_segment = ?syn, ss_remaining_rto = 9\<rparr>], win_isn = WrappingInt32 5,
            win_first_seqno = 0, win_window_size = 1, win_next_seqno = 1\<rparr>"
  have "win_inv (win_new (WrappingInt32 5) 1\<lparr>
      win_buffer := win_buffer (win_new (WrappingInt32 5) 1) @ [\<lparr>ss_segment = ?syn, ss_remaining_rto = 9\<rparr>],
      win_next_seqno := win_next_seqno (win_new (WrappingInt32 5) 1) + seg_length ?syn\<rparr>)"
    by (rule win_add_segment_inv [OF win_new_inv])
      (simp_all add: win_new_def seg_new_def th_new_def seg_length_def wrap_def)
  then have "win_inv ?w" by (simp add: win_new_def seg_new_def th_new_def seg_length_def)
  moreover have "unwrap (WrappingInt32 6) (WrappingInt32 5) 1 = 1" "unwrap (WrappingInt32 5) (WrappingInt32 5) 1 = 0"
    by (simp_all add: unwrap_def wint_diff_def)
  ultimately show ?thesis
    using window_ack_received [of ?w "WrappingInt32 6" 10]
    by (simp add: ss_seqno_def seg_new_def th_new_def seg_length_def)
qed

text \<open>
  When the peer shrinks its window below what is already in flight, \<open>space()\<close> wraps around: the
  window does not count as full and reports room for more than \<open>2^63\<close> bytes.
\<close>

theorem window_shrink_reports_space:
  assumes "win_inv w" and "0 < unat (win_window_size w)"
    and "unat (win_window_size w) < unat (win_bytes_in_flight w)"
  shows "\<not> win_full w
    \<and> unat (win_space w) = 2 ^ 64 - (unat (win_bytes_in_flight w) - unat (win_window_size w))
    \<and> 2 ^ 63 < unat (win_space w)"
proof -
  let ?d = "win_bytes_in_flight w - win_window_size w"
  have d: "unat ?d = unat (win_bytes_in_flight w) - unat (win_window_size w)"
    using assms(3) by (simp add: unat_minus_no_wrap)
  then have "?d \<noteq> 0" using assms(3) by (auto simp: unat_0_iff [symmetric])
  then have "unat (- ?d) = 2 ^ LENGTH(64) - unat ?d" by (rule unat_uminus)
  then have sp: "unat (win_space w) = 2 ^ 64 - unat ?d" by (simp add: win_space_def)
  have "unat (win_bytes_in_flight w) < 2 ^ 31"
    using win_inv_first(2) [OF assms(1)] assms(1) by (auto simp: win_inv_def win_from_def)
  then have "2 ^ 63 < unat (win_space w)" using sp d by simp
  moreover from this have "win_space w \<noteq> 0" by auto
  ultimately show ?thesis using sp d assms(2)
    by (auto simp: win_full_def win_window_closed_def)
qed

theorem window_shrink_reports_space_witness:
  "let syn = set_seqno (WrappingInt32 5) (set_syn True (set_payload (buf_of_string [1, 2]) seg_new));
       w = \<lparr>win_buffer = [\<lparr>ss_segment = syn, ss_remaining_rto = 9\<rparr>], win_isn = WrappingInt32 5,
            win_first_seqno = 0, win_window_size = 1, win_next_seqno = 3\<rparr>
   in unat (win_space w) = 2 ^ 64 - 2"
proof -
  let ?syn = "set_seqno (WrappingInt32 5) (set_syn True (set_payload (buf_of_string [1, 2]) seg_new))"
  let ?w = "\<lparr>win_buffer = [\<lparr>ss_segment = ?syn, ss_remaining_rto = 9\<rparr>], win_isn = WrappingInt32 5,
            win_first_seqno = 0, win_window_size = 1, win_next_seqno = 3\<rparr>"
  have "win_from 0 ?w" by (simp add: win_from_def seg_new_def th_new_def seg_length_def)
  then have "win_inv ?w" unfolding win_inv_def by blast
  then show ?thesis using window_shrink_reports_space [of ?w] by (simp add: win_bytes_in_flight_def)
qed

end
