(* ===== verification/TCP_Config.thy ===== *)
theory TCP_Config
  imports Wrapping_Integers
begin

text \<open>The parameters of a connection (\<open>libsponge/tcp_helpers/tcp_config.hh\<close>).\<close>

definition DEFAULT_CAPACITY :: size_t where
  "DEFAULT_CAPACITY = 64000"

definition MAX_PAYLOAD_SIZE :: size_t where
  "MAX_PAYLOAD_SIZE = 1000"

definition TIMEOUT_DFLT :: uint16 where
  "TIMEOUT_DFLT = 1000"

definition MAX_RETX_ATTEMPTS :: uint32 where
  "MAX_RETX_ATTEMPTS = 8"

record tcp_config =
  cfg_rt_timeout :: uint16
  cfg_recv_capacity :: size_t
  cfg_send_capacity :: size_t
  cfg_fixed_isn :: "WrappingInt32 option"

definition cfg_default :: tcp_config where
  "cfg_default = \<lparr>cfg_rt_timeout = TIMEOUT_DFLT, cfg_recv_capacity = DEFAULT_CAPACITY,
     cfg_send_capacity = DEFAULT_CAPACITY, cfg_fixed_isn = None\<rparr>"

end
