(* ===== verification/TCP_Sender.thy ===== *)
theory TCP_Sender
  imports Byte_Stream TCP_Sending_Window TCP_Config Segment_Stream
begin

text \<open>
  The sending half of a connection (\<open>libsponge/tcp_sender.hh\<close>, \<open>tcp_sender.cc\<close>): it cuts the
  outgoing byte stream into segments, keeps them until they are acknowledged, and sends the oldest
  one again when its time has run out.
\<close>

section \<open>State and operations\<close>

record tcp_sender =
  snd_segments_out :: "tcp_segment list"
  snd_initial_retransmission_timeout :: uint32
  snd_stream :: byte_stream
  snd_rto :: size_t
  snd_window :: sending_window
  snd_consecutive_retransmission_count :: size_t
  snd_window_size_is_zero :: bool
  snd_established :: bool

text \<open>\<open>random\<close> is the word that \<open>std::random_device\<close> returns.\<close>

definition snd_new :: "uint32 \<Rightarrow> size_t \<Rightarrow> uint16 \<Rightarrow> WrappingInt32 option \<Rightarrow> tcp_sender" where
  "snd_new random capacity retx_timeout fixed_isn =
     \<lparr>snd_segments_out = [], snd_initial_retransmission_timeout = ucast retx_timeout,
      snd_stream = bs_new capacity, snd_rto = ucast retx_timeout,
      snd_window = win_new (case fixed_isn of Some isn \<Rightarrow> isn | None \<Rightarrow> WrappingInt32 random) 1,
      snd_consecutive_retransmission_count = 0, snd_window_size_is_zero = False,
      snd_established = False\<rparr>"

definition snd_bytes_in_flight :: "tcp_sender \<Rightarrow> uint64" where
  "snd_bytes_in_flight s = win_bytes_in_flight (snd_window s)"

definition snd_send :: "tcp_segment \<Rightarrow> tcp_sender \<Rightarrow> tcp_sender" where
  "snd_send segment s = s\<lparr>snd_segments_out := snd_segments_out s @ [segment]\<rparr>"

definition snd_next_seqno_absolute :: "tcp_sender \<Rightarrow> uint64" where
  "snd_next_seqno_absolute s = win_next_seqno (snd_window s)"

definition snd_next_seqno :: "tcp_sender \<Rightarrow> WrappingInt32" where
  "snd_next_seqno s = wrap (win_next_seqno (snd_window s)) (win_isn (snd_window s))"

datatype SenderState = SND_CLOSED | SND_SYN_SENT | SND_SYN_ACKED | SND_ESTABLISHED | SND_FIN_SENT
  | SND_FIN_ACKED | SND_ERROR

definition snd_state :: "tcp_sender \<Rightarrow> SenderState" where
  "snd_state s =
     (if bs_error (snd_stream s) then SND_ERROR
      else if snd_next_seqno_absolute s = 0 then SND_CLOSED
      else if snd_next_seqno_absolute s > 0 \<and> snd_next_seqno_absolute s = snd_bytes_in_flight s
      then SND_SYN_SENT
      else if snd_next_seqno_absolute s > snd_bytes_in_flight s \<and> \<not> bs_eof (snd_stream s)
      then SND_SYN_ACKED
      else if bs_eof (snd_stream s) \<and> snd_next_seqno_absolute s < bs_bytes_written (snd_stream s) + 2
      then SND_SYN_ACKED
      else if bs_eof (snd_stream s) \<and> snd_next_seqno_absolute s = bs_bytes_written (snd_stream s) + 2
              \<and> snd_bytes_in_flight s > 0
      then SND_FIN_SENT
      else SND_FIN_ACKED)"

text \<open>One round of the loop of \<open>fill_window\<close>: the segment it builds and the stream it leaves.\<close>

definition snd_next_segment :: "tcp_sender \<Rightarrow> byte_stream \<times> tcp_segment" where
  "snd_next_segment s =
     (let w = snd_window s;
          seg = set_seqno (wrap (win_next_seqno w) (win_isn w)) seg_new;
          (stream, data) = bs_read (snd_stream s)
             (min (win_space w) (min MAX_PAYLOAD_SIZE (bs_buffer_size (snd_stream s))));
          seg = set_payload (buf_of_string data) seg;
          seg = set_fin (bs_eof stream \<and> buf_size (seg_payload seg) < win_space w) seg
      in (stream, seg))"

lemma length_bs_peek_loop: "length (bs_peek_loop s i k) \<le> k"
  by (induction s i k rule: bs_peek_loop.induct) simp_all

definition snd_read_size :: "tcp_sender \<Rightarrow> size_t" where
  "snd_read_size s =
     min (win_space (snd_window s)) (min MAX_PAYLOAD_SIZE (bs_buffer_size (snd_stream s)))"

lemma snd_next_segment_eq:
  fixes s :: tcp_sender
  defines "data \<equiv> bs_peek_output (snd_stream s) (snd_read_size s)"
    and "stream \<equiv> bs_pop_output (snd_stream s) (snd_read_size s)"
  shows "snd_next_segment s = (stream, \<lparr>seg_header = th_new\<lparr>
      th_seqno := wrap (win_next_seqno (snd_window s)) (win_isn (snd_window s)),
      th_fin := (bs_eof stream \<and> size_of data < win_space (snd_window s))\<rparr>,
    seg_payload = buf_of_string data\<rparr>)"
  by (simp add: snd_next_segment_def Let_def bs_read_def data_def stream_def snd_read_size_def
      seg_new_def buf_size_def)

lemma length_bs_peek_output: "length (bs_peek_output s n) \<le> unat n"
  unfolding bs_peek_output_def by (rule length_bs_peek_loop)

lemma unat_read_size: "unat (snd_read_size s) \<le> unat (win_space (snd_window s))"
  unfolding snd_read_size_def by (simp only: word_le_nat_alt [symmetric] min.cobounded1)

lemma snd_next_segment_length:
  assumes "snd_next_segment s = (stream, seg)"
  shows "unat (seg_length seg) = length (buf_str (seg_payload seg)) + (if th_fin (seg_header seg) then 1 else 0)"
    and "unat (seg_length seg) \<le> unat (win_space (snd_window s))"
proof -
  define data where "data = bs_peek_output (snd_stream s) (snd_read_size s)"
  define sp where "sp = win_space (snd_window s)"
  have le: "length data \<le> unat sp"
    unfolding data_def sp_def using length_bs_peek_output unat_read_size by (rule order_trans)
  then have sz: "unat (size_of data) = length data"
    using unat_less_size_limit [of sp] by (intro unat_size_of) linarith
  have seg: "buf_str (seg_payload seg) = data" "\<not> th_syn (seg_header seg)"
      "th_fin (seg_header seg) \<Longrightarrow> size_of data < sp"
    using assms by (auto simp: snd_next_segment_eq data_def sp_def th_new_def)
  have "length data < unat sp" if "th_fin (seg_header seg)"
    using seg(3) [OF that] sz by (simp add: word_less_nat_alt)
  moreover have "unat (size_of data + 1) = length data + 1" if "length data < unat sp"
    using that sz by (subst unat_plus_one [of _ sp]) (simp_all add: word_less_nat_alt)
  ultimately show "unat (seg_length seg) = length (buf_str (seg_payload seg)) + (if th_fin (seg_header seg) then 1 else 0)"
    and "unat (seg_length seg) \<le> unat (win_space (snd_window s))"
    using le sz by (auto simp: seg_length_def seg sp_def [symmetric])
qed

lemma snd_next_segment_seqno:
  "snd_next_segment s = (stream, seg) \<Longrightarrow>
    th_seqno (seg_header seg) = wrap (win_next_seqno (snd_window s)) (win_isn (snd_window s))"
  by (auto simp: snd_next_segment_eq)

lemma snd_fill_decreases:
  assumes seg: "snd_next_segment s = (stream, seg)" and nf: "\<not> win_full (snd_window s)"
    and len: "seg_length seg \<noteq> 0" and w: "win_add_segment seg rto (snd_window s) = Inr w"
  shows "unat (win_space w) < unat (win_space (snd_window s))"
proof -
  let ?w = "snd_window s"
  have "win_space w = win_space ?w - seg_length seg"
    using w win_add_segment_eq [OF nf snd_next_segment_seqno [OF seg], of rto]
    by (auto simp: win_space_def win_bytes_in_flight_def)
  then have "unat (win_space w) = unat (win_space ?w) - unat (seg_length seg)"
    using snd_next_segment_length(2) [OF seg] by (simp add: unat_minus_no_wrap)
  moreover have "0 < unat (seg_length seg)" using len by (simp add: unat_gt_0)
  ultimately show ?thesis using snd_next_segment_length(2) [OF seg] by simp
qed

function snd_fill_loop :: "tcp_sender \<Rightarrow> tcp_sender result" where
  "snd_fill_loop s =
     (if (\<not> bs_buffer_empty (snd_stream s) \<or> bs_eof (snd_stream s)) \<and> \<not> win_full (snd_window s) then
        if snd_state s = SND_FIN_SENT \<or> snd_state s = SND_FIN_ACKED then Inr s
        else case snd_next_segment s of (stream, seg) \<Rightarrow>
          if seg_length seg \<noteq> 0 then
            bind_res (win_add_segment seg (ucast (snd_rto s)) (snd_window s)) (\<lambda>w.
              snd_fill_loop (snd_send seg (s\<lparr>snd_stream := stream, snd_window := w\<rparr>)))
          else Inr (s\<lparr>snd_stream := stream\<rparr>)
      else Inr s)"
  by pat_completeness auto
termination
  by (relation "measure (\<lambda>s. unat (win_space (snd_window s)))")
    (auto simp: snd_send_def intro: snd_fill_decreases [OF sym])

declare snd_fill_loop.simps [simp del]

definition snd_fill_window :: "tcp_sender \<Rightarrow> tcp_sender result" where
  "snd_fill_window s =
     bind_res
       (if snd_state s = SND_CLOSED then
          let w = snd_window s;
              segment = set_syn True seg_new;
              segment = set_seqno (wrap (win_next_seqno w) (win_isn w)) segment
          in bind_res (win_add_segment segment (ucast (snd_rto s)) w) (\<lambda>w.
               Inr (snd_send segment (s\<lparr>snd_window := w\<rparr>)))
        else Inr s)
       snd_fill_loop"

definition snd_ack_received :: "WrappingInt32 \<Rightarrow> uint16 \<Rightarrow> tcp_sender \<Rightarrow> tcp_sender result" where
  "snd_ack_received ackno window_size s =
     (let s = s\<lparr>snd_window_size_is_zero := (window_size = 0)\<rparr>
      in bind_res (win_ack_received ackno (max window_size 1) (snd_window s)) (\<lambda>(ret, w).
         let s = s\<lparr>snd_window := w\<rparr>;
             s = (if ret
                  then let s = s\<lparr>snd_rto := ucast (snd_initial_retransmission_timeout s)\<rparr>;
                           s = s\<lparr>snd_window := win_reset_timer (snd_rto s) (snd_window s)\<rparr>
                       in s\<lparr>snd_consecutive_retransmission_count := 0\<rparr>
                  else s)
         in snd_fill_window s))"

definition snd_tick :: "size_t \<Rightarrow> tcp_sender \<Rightarrow> tcp_sender" where
  "snd_tick ms s =
     (case win_tick ms (snd_window s) of (w, ret) \<Rightarrow>
        let s = s\<lparr>snd_window := w\<rparr>
        in case ret of
             [] \<Rightarrow> s
           | seg # _ \<Rightarrow>
               let s = (if \<not> snd_window_size_is_zero s then s\<lparr>snd_rto := snd_rto s * 2\<rparr> else s);
                   s = s\<lparr>snd_window := win_reset_timer (snd_rto s) (snd_window s)\<rparr>;
                   s = s\<lparr>snd_consecutive_retransmission_count :=
                         snd_consecutive_retransmission_count s + 1\<rparr>
               in snd_send seg s)"

definition snd_consecutive_retransmissions :: "tcp_sender \<Rightarrow> uint32" where
  "snd_consecutive_retransmissions s = ucast (snd_consecutive_retransmission_count s)"

definition snd_send_empty_segment :: "tcp_sender \<Rightarrow> tcp_sender" where
  "snd_send_empty_segment s =
     snd_send (set_seqno (wrap (win_next_seqno (snd_window s)) (win_isn (snd_window s))) seg_new) s"

text \<open>What the owner of the connection does to the stream that \<open>stream_in\<close> returns.\<close>

definition snd_write :: "bytes \<Rightarrow> tcp_sender \<Rightarrow> tcp_sender \<times> size_t" where
  "snd_write data s = (case bs_write (snd_stream s) data of (st, n) \<Rightarrow> (s\<lparr>snd_stream := st\<rparr>, n))"

definition snd_end_input :: "tcp_sender \<Rightarrow> tcp_sender" where
  "snd_end_input s = s\<lparr>snd_stream := bs_end_input (snd_stream s)\<rparr>"

definition snd_set_error :: "tcp_sender \<Rightarrow> tcp_sender" where
  "snd_set_error s = s\<lparr>snd_stream := bs_set_error (snd_stream s)\<rparr>"

section \<open>The invariant\<close>

text \<open>
  \<open>W\<close> is everything that has been written to the outgoing stream. The sequence numbers used so far
  are the SYN, the bytes read from the stream, and the FIN once the stream has ended; every segment
  kept or queued belongs to \<open>W\<close>; nothing but the SYN is sent before it has been acknowledged.
\<close>

abbreviation snd_isn :: "tcp_sender \<Rightarrow> WrappingInt32" where
  "snd_isn s \<equiv> win_isn (snd_window s)"

abbreviation snd_next :: "tcp_sender \<Rightarrow> nat" where
  "snd_next s \<equiv> unat (win_next_seqno (snd_window s))"

abbreviation snd_read_pos :: "tcp_sender \<Rightarrow> nat" where
  "snd_read_pos s \<equiv> unat (bs_bytes_read (snd_stream s))"

definition snd_seg_ok :: "bytes \<Rightarrow> tcp_sender \<Rightarrow> tcp_segment \<Rightarrow> bool" where
  "snd_seg_ok W s seg \<longleftrightarrow> seg_of_stream W (snd_isn s) seg
     \<and> (th_fin (seg_header seg) \<longrightarrow> bs_end_flag (snd_stream s)) \<and> \<not> th_rst (seg_header seg)"

definition snd_stream_ok :: "bytes \<Rightarrow> tcp_sender \<Rightarrow> bool" where
  "snd_stream_ok W s \<longleftrightarrow> length W + 2 < 2 ^ 31 \<and> bs_inv (snd_stream s)
     \<and> unat (bs_bytes_written (snd_stream s)) = length W \<and> snd_read_pos s \<le> length W
     \<and> bs_contents (snd_stream s) = drop (snd_read_pos s) W"

definition snd_window_ok :: "tcp_sender \<Rightarrow> bool" where
  "snd_window_ok s \<longleftrightarrow> win_inv (snd_window s) \<and> unat (win_window_size (snd_window s)) < 2 ^ 32
     \<and> (if snd_next s = 0 then snd_read_pos s = 0
        else snd_next s = snd_read_pos s + 1 \<or> snd_next s = snd_read_pos s + 2 \<and> bs_eof (snd_stream s))
     \<and> (win_first_seqno (snd_window s) = 0 \<longrightarrow> snd_next s \<le> 1 \<and> win_window_size (snd_window s) = 1)"

definition snd_inv :: "bytes \<Rightarrow> tcp_sender \<Rightarrow> bool" where
  "snd_inv W s \<longleftrightarrow> snd_stream_ok W s \<and> snd_window_ok s
     \<and> (\<forall>ss \<in> set (win_buffer (snd_window s)). snd_seg_ok W s (ss_segment ss))
     \<and> (\<forall>seg \<in> set (snd_segments_out s). snd_seg_ok W s seg)"

lemma snd_new_inv: "unat cap < 2 ^ 63 - 1 \<Longrightarrow> snd_inv [] (snd_new random cap rt isn)"
  using win_new_inv bs_new_correct
  by (simp add: snd_inv_def snd_stream_ok_def snd_window_ok_def snd_new_def win_new_def [of _ 1, symmetric])
   (simp add: win_new_def)

lemma snd_eof_iff:
  assumes "snd_stream_ok W s"
  shows "bs_eof (snd_stream s) \<longleftrightarrow> bs_end_flag (snd_stream s) \<and> snd_read_pos s = length W"
    and "bs_buffer_empty (snd_stream s) \<longleftrightarrow> snd_read_pos s = length W"
proof -
  have "bs_shape (snd_stream s)" using assms by (simp add: snd_stream_ok_def)
  then show "bs_buffer_empty (snd_stream s) \<longleftrightarrow> snd_read_pos s = length W"
    using assms by (auto simp: snd_stream_ok_def bs_buffer_empty_iff)
  then show "bs_eof (snd_stream s) \<longleftrightarrow> bs_end_flag (snd_stream s) \<and> snd_read_pos s = length W"
    by (simp add: bs_eof_def)
qed

lemma snd_not_full_first:
  assumes "snd_window_ok s" and "\<not> win_full (snd_window s)" and "snd_next s \<noteq> 0"
  shows "win_first_seqno (snd_window s) \<noteq> 0"
proof
  let ?w = "snd_window s"
  assume "win_first_seqno ?w = 0"
  then have f: "win_first_seqno ?w = 0" "snd_next s = 1" "win_window_size ?w = 1" "win_inv ?w"
    using assms(1,3) by (auto simp: snd_window_ok_def)
  then have n: "win_next_seqno ?w = 1" by (metis unat_1 unat_eqD)
  then have "win_buffer ?w \<noteq> []" using win_inv_first(3) [OF f(4)] f by auto
  then show False
    using assms(2) f n by (simp add: win_full_def win_window_closed_def win_buffer_empty_def
        win_space_def win_bytes_in_flight_def)
qed

text \<open>Inside the loop, every state other than the FIN states means that the FIN is not yet sent.\<close>

lemma snd_state_open:
  assumes inv: "snd_stream_ok W s" "snd_window_ok s" and "\<not> bs_error (snd_stream s)"
    and nf: "\<not> win_full (snd_window s)" and n0: "snd_next s \<noteq> 0"
  shows "snd_state s = SND_FIN_SENT \<or> snd_state s = SND_FIN_ACKED \<longleftrightarrow> snd_next s = snd_read_pos s + 2"
proof -
  let ?w = "snd_window s"
  have f: "win_first_seqno ?w \<noteq> 0" using inv(2) nf n0 by (rule snd_not_full_first)
  have w: "win_inv ?w" using inv(2) by (simp add: snd_window_ok_def)
  have fl: "win_next_seqno ?w \<noteq> win_bytes_in_flight ?w" using f by (simp add: win_bytes_in_flight_def)
  have "0 < unat (win_first_seqno ?w)" using f by (simp add: unat_gt_0)
  then have lt: "win_bytes_in_flight ?w < win_next_seqno ?w"
    using win_inv_first(1,2) [OF w] by (simp add: word_less_nat_alt)
  have "unat (bs_bytes_written (snd_stream s) + 2) = length W + 2"
    using inv(1) by (subst unat_plus_no_wrap) (simp_all add: snd_stream_ok_def)
  then have cmp: "win_next_seqno ?w < bs_bytes_written (snd_stream s) + 2 \<longleftrightarrow> snd_next s < length W + 2"
      "win_next_seqno ?w = bs_bytes_written (snd_stream s) + 2 \<longleftrightarrow> snd_next s = length W + 2"
    by (simp_all add: word_less_nat_alt word_unat_eq_iff)
  have "win_next_seqno ?w \<noteq> 0" using n0 by auto
  then show ?thesis using assms(3) fl lt inv(2) n0 snd_eof_iff(1) [OF inv(1)]
    by (auto simp: snd_state_def snd_next_seqno_absolute_def snd_bytes_in_flight_def cmp snd_window_ok_def)
qed

text \<open>The segment that a round of the loop sends, and the bytes it takes from the stream.\<close>

lemma snd_next_segment_data:
  assumes inv: "snd_stream_ok W s" and seg: "snd_next_segment s = (stream, seg)"
  defines "n \<equiv> min (unat (win_space (snd_window s))) (min 1000 (length W - snd_read_pos s))"
  shows "buf_str (seg_payload seg) = substr (snd_read_pos s) n W"
    and "length (buf_str (seg_payload seg)) = n"
    and "snd_stream_ok W (s\<lparr>snd_stream := stream\<rparr>)"
    and "unat (bs_bytes_read stream) = snd_read_pos s + n"
    and "th_fin (seg_header seg) \<longleftrightarrow> bs_end_flag (snd_stream s) \<and> snd_read_pos s + n = length W
      \<and> n < unat (win_space (snd_window s))"
    and "bs_end_flag stream = bs_end_flag (snd_stream s)" and "bs_error stream = bs_error (snd_stream s)"
proof -
  let ?st = "snd_stream s" and ?sp = "win_space (snd_window s)" and ?R = "snd_read_pos s"
  have st: "bs_inv ?st" "bs_shape ?st" "bs_contents ?st = drop ?R W" "?R \<le> length W" "length W + 2 < 2 ^ 31"
    using inv by (simp_all add: snd_stream_ok_def)
  have "unat (snd_read_size s) = n"
    using unat_buffer_size [OF st(2)] st(3)
    by (simp add: snd_read_size_def n_def min_def word_le_nat_alt MAX_PAYLOAD_SIZE_def)
  then have data: "bs_peek_output ?st (snd_read_size s) = substr ?R n W"
    using st by (simp add: ring.peek_contents substr_def)
  have stream: "stream = bs_pop_output ?st (snd_read_size s)"
    and pay: "buf_str (seg_payload seg) = substr ?R n W"
    using seg data by (auto simp: snd_next_segment_eq)
  show "buf_str (seg_payload seg) = substr ?R n W" by (rule pay)
  show len: "length (buf_str (seg_payload seg)) = n" by (simp add: pay length_substr n_def)
  have "unat (bs_bytes_read ?st + of_nat n) = ?R + n"
    using st(4,5) by (subst unat_plus_no_wrap) (simp_all add: unat_of_nat_less n_def)
  then show R': "unat (bs_bytes_read stream) = ?R + n"
    using st(1) data len by (simp add: stream bs_bytes_read_pop pay)
  show fl: "bs_end_flag stream = bs_end_flag ?st" "bs_error stream = bs_error ?st" by (simp_all add: stream)
  have cont: "bs_contents stream = drop (?R + n) W"
    using st \<open>unat (snd_read_size s) = n\<close> by (simp add: stream ring.pop_contents add.commute)
  then show ok: "snd_stream_ok W (s\<lparr>snd_stream := stream\<rparr>)"
    using inv st(4) R' by (simp add: snd_stream_ok_def stream ring.invar_pop n_def)
  have "size_of (substr ?R n W) < ?sp \<longleftrightarrow> n < unat ?sp"
    using len pay st(5) by (simp add: word_less_nat_alt unat_of_nat_less n_def)
  moreover have "th_fin (seg_header seg) \<longleftrightarrow> bs_eof stream \<and> size_of (substr ?R n W) < ?sp"
    using seg data by (auto simp: snd_next_segment_eq stream)
  ultimately show "th_fin (seg_header seg) \<longleftrightarrow> bs_end_flag ?st \<and> ?R + n = length W \<and> n < unat ?sp"
    using snd_eof_iff(1) [OF ok] R' fl by simp
qed

lemma snd_fill_step:
  assumes inv: "snd_inv W s" and err: "\<not> bs_error (snd_stream s)" and nf: "\<not> win_full (snd_window s)"
    and n0: "snd_next s \<noteq> 0" and more: "\<not> bs_buffer_empty (snd_stream s) \<or> bs_eof (snd_stream s)"
    and opn: "snd_next s = snd_read_pos s + 1" and seg: "snd_next_segment s = (stream, seg)"
  shows "seg_length seg \<noteq> 0"
    and "\<exists>w. win_add_segment seg rto (snd_window s) = Inr w
      \<and> snd_inv W (snd_send seg (s\<lparr>snd_stream := stream, snd_window := w\<rparr>))
      \<and> win_isn w = win_isn (snd_window s) \<and> win_window_size w = win_window_size (snd_window s)
      \<and> win_first_seqno w = win_first_seqno (snd_window s)
      \<and> unat (win_next_seqno w) = snd_next s + unat (seg_length seg)"
proof -
  let ?w = "snd_window s" and ?R = "snd_read_pos s"
  have sok: "snd_stream_ok W s" and wok: "snd_window_ok s" using inv by (simp_all add: snd_inv_def)
  note d = snd_next_segment_data [OF sok seg] and l = snd_next_segment_length [OF seg]
  have f: "win_first_seqno ?w \<noteq> 0" using wok nf n0 by (rule snd_not_full_first)
  have w: "win_inv ?w" using wok by (simp add: snd_window_ok_def)
  have sp: "0 < unat (win_space ?w)"
  proof (cases "win_buffer ?w = []")
    case True
    then have "win_bytes_in_flight ?w = 0" using win_inv_first(3) [OF w] by (simp add: win_bytes_in_flight_def)
    then show ?thesis
      using nf by (auto simp: win_full_def win_window_closed_def win_space_def unat_gt_0 split: if_splits)
  next
    case False
    then show ?thesis
      using nf by (auto simp: win_full_def win_window_closed_def win_buffer_empty_def unat_gt_0
          split: if_splits)
  qed
  have "0 < length (buf_str (seg_payload seg)) + (if th_fin (seg_header seg) then 1 else 0 :: nat)"
    using more sp d(2,5) snd_eof_iff [OF sok] sok by (auto simp: snd_stream_ok_def)
  then show ne: "seg_length seg \<noteq> 0" using l(1) by auto
  define len where "len = length (buf_str (seg_payload seg))"
  have le: "?R + len \<le> length W" using d(2,4) sok by (auto simp: len_def snd_stream_ok_def min_def)
  have lim: "snd_next s + unat (seg_length seg) < 2 ^ 31"
    using le l(1) opn sok by (simp add: len_def snd_stream_ok_def)
  define w' where "w' = ?w\<lparr>win_buffer := win_buffer ?w @ [\<lparr>ss_segment = seg, ss_remaining_rto = rto\<rparr>],
      win_next_seqno := win_next_seqno ?w + seg_length seg\<rparr>"
  note sn = snd_next_segment_seqno [OF seg]
  have add: "win_add_segment seg rto ?w = Inr w'"
    unfolding w'_def using nf sn by (rule win_add_segment_eq)
  have nx: "unat (win_next_seqno w') = snd_next s + unat (seg_length seg)"
    using lim by (simp add: w'_def unat_plus_no_wrap)
  have wi: "win_inv w'" unfolding w'_def using w sn ne lim by (rule win_add_segment_inv)
  let ?s = "snd_send seg (s\<lparr>snd_stream := stream, snd_window := w'\<rparr>)"
  have ok: "snd_stream_ok W ?s" using d(3) by (simp add: snd_stream_ok_def snd_send_def)
  have "seg_at W (win_isn ?w) (?R + 1) seg"
  proof -
    have "win_next_seqno ?w = of_nat (snd_next s)" by simp
    then have "win_next_seqno ?w = of_nat (?R + 1)" by (simp only: opn)
    moreover have "\<not> th_syn (seg_header seg)" using seg by (auto simp: snd_next_segment_eq th_new_def)
    ultimately show ?thesis using sn d(1,2,5) le by (auto simp: seg_at_def len_def)
  qed
  moreover have "\<not> th_rst (seg_header seg)" using seg by (auto simp: snd_next_segment_eq th_new_def)
  ultimately have segok: "snd_seg_ok W ?s seg"
    using d(5,6) by (auto simp: snd_seg_ok_def seg_of_stream_def snd_send_def w'_def)
  have keep: "snd_seg_ok W s t \<Longrightarrow> snd_seg_ok W ?s t" for t
    using d(6) by (simp add: snd_seg_ok_def snd_send_def w'_def)
  have eof: "th_fin (seg_header seg) \<Longrightarrow> bs_eof stream"
    using snd_eof_iff(1) [OF d(3)] d(4,5,6) by simp
  have "snd_window_ok ?s"
    using wok wi nx l(1) opn f d(2,4) eof
    by (auto simp: snd_window_ok_def snd_send_def w'_def)
  then have "snd_inv W ?s"
    using ok inv segok keep by (auto simp: snd_inv_def) (auto simp: snd_send_def w'_def)
  then show "\<exists>w. win_add_segment seg rto (snd_window s) = Inr w
      \<and> snd_inv W (snd_send seg (s\<lparr>snd_stream := stream, snd_window := w\<rparr>))
      \<and> win_isn w = win_isn (snd_window s) \<and> win_window_size w = win_window_size (snd_window s)
      \<and> win_first_seqno w = win_first_seqno (snd_window s)
      \<and> unat (win_next_seqno w) = snd_next s + unat (seg_length seg)"
    using add nx by (intro exI [of _ w']) (simp add: w'_def)
qed

section \<open>Filling the window\<close>

text \<open>
  When the loop ends the window is full, or there is nothing to send: the stream is empty and still
  open, or its FIN has been sent.
\<close>

definition snd_filled :: "tcp_sender \<Rightarrow> bool" where
  "snd_filled s \<longleftrightarrow> win_full (snd_window s) \<or> bs_buffer_empty (snd_stream s) \<and> \<not> bs_eof (snd_stream s)
     \<or> bs_eof (snd_stream s) \<and> win_next_seqno (snd_window s) = bs_bytes_written (snd_stream s) + 2"

text \<open>What sending does not touch.\<close>

definition snd_same :: "tcp_sender \<Rightarrow> tcp_sender \<Rightarrow> bool" where
  "snd_same s t \<longleftrightarrow> snd_isn t = snd_isn s \<and> bs_error (snd_stream t) = bs_error (snd_stream s)
     \<and> bs_end_flag (snd_stream t) = bs_end_flag (snd_stream s)
     \<and> bs_bytes_written (snd_stream t) = bs_bytes_written (snd_stream s)
     \<and> win_window_size (snd_window t) = win_window_size (snd_window s)
     \<and> win_first_seqno (snd_window t) = win_first_seqno (snd_window s)
     \<and> (\<exists>out. snd_segments_out t = snd_segments_out s @ out)
     \<and> (\<exists>ss. win_buffer (snd_window t) = win_buffer (snd_window s) @ ss
          \<and> (\<forall>x \<in> set ss. ss_remaining_rto x = ucast (snd_rto s)))
     \<and> snd_rto t = snd_rto s
     \<and> snd_initial_retransmission_timeout t = snd_initial_retransmission_timeout s
     \<and> snd_consecutive_retransmission_count t = snd_consecutive_retransmission_count s
     \<and> snd_window_size_is_zero t = snd_window_size_is_zero s"

lemma snd_same_refl [simp]: "snd_same s s"
  by (simp add: snd_same_def)

lemma snd_same_trans: "snd_same s t \<Longrightarrow> snd_same t u \<Longrightarrow> snd_same s u"
  by (fastforce simp: snd_same_def)

lemma unat_written_2: "snd_stream_ok W s \<Longrightarrow> unat (bs_bytes_written (snd_stream s) + 2) = length W + 2"
  by (subst unat_plus_no_wrap) (simp_all add: snd_stream_ok_def)

text \<open>In flight never exceeds the window, unless the peer has shrunk it.\<close>

abbreviation snd_within :: "tcp_sender \<Rightarrow> bool" where
  "snd_within s \<equiv> unat (win_bytes_in_flight (snd_window s)) \<le> unat (win_window_size (snd_window s))"

lemma snd_fill_loop_correct:
  assumes "snd_inv W s" and "\<not> bs_error (snd_stream s)" and "snd_next s \<noteq> 0"
  shows "\<exists>t. snd_fill_loop s = Inr t \<and> snd_inv W t \<and> snd_same s t \<and> snd_filled t
    \<and> snd_next s \<le> snd_next t \<and> (snd_within s \<longrightarrow> snd_within t)"
  using assms
proof (induction s rule: snd_fill_loop.induct)
  case (1 s)
  let ?go = "(\<not> bs_buffer_empty (snd_stream s) \<or> bs_eof (snd_stream s)) \<and> \<not> win_full (snd_window s)"
  have ok: "snd_stream_ok W s" "snd_window_ok s" using 1 by (simp_all add: snd_inv_def)
  consider "\<not> ?go" | "?go" "snd_next s = snd_read_pos s + 2" | "?go" "snd_next s = snd_read_pos s + 1"
    using ok(2) 1 by (auto simp: snd_window_ok_def)
  then show ?case
  proof cases
    case 1
    then show ?thesis using "1.prems" by (auto simp: snd_fill_loop.simps [of s] snd_filled_def)
  next
    case 2
    then have "snd_state s = SND_FIN_SENT \<or> snd_state s = SND_FIN_ACKED"
      using snd_state_open [OF ok] "1.prems" by blast
    moreover have "bs_eof (snd_stream s)" using 2 ok(2) "1.prems"(3) by (auto simp: snd_window_ok_def)
    moreover from this have "win_next_seqno (snd_window s) = bs_bytes_written (snd_stream s) + 2"
      using 2 unat_written_2 [OF ok(1)] snd_eof_iff(1) [OF ok(1)] by (auto intro: unat_eqD)
    ultimately show ?thesis using "1.prems" 2
      by (auto simp: snd_fill_loop.simps [of s] snd_filled_def)
  next
    case 3
    then have st: "\<not> (snd_state s = SND_FIN_SENT \<or> snd_state s = SND_FIN_ACKED)"
      using snd_state_open [OF ok] "1.prems" by auto
    obtain stream seg where seg: "snd_next_segment s = (stream, seg)" by force
    have go: "\<not> win_full (snd_window s)" "\<not> bs_buffer_empty (snd_stream s) \<or> bs_eof (snd_stream s)"
      using 3 by auto
    note step = snd_fill_step [OF "1.prems"(1,2) go(1) "1.prems"(3) go(2) 3(2) seg]
    obtain w where w: "win_add_segment seg (ucast (snd_rto s)) (snd_window s) = Inr w"
      "snd_inv W (snd_send seg (s\<lparr>snd_stream := stream, snd_window := w\<rparr>))"
      "win_isn w = snd_isn s" "win_window_size w = win_window_size (snd_window s)"
      "win_first_seqno w = win_first_seqno (snd_window s)"
      "unat (win_next_seqno w) = snd_next s + unat (seg_length seg)"
      using step(2) by blast
    let ?s = "snd_send seg (s\<lparr>snd_stream := stream, snd_window := w\<rparr>)"
    have stream: "stream = bs_pop_output (snd_stream s) (snd_read_size s)"
      using seg by (simp add: snd_next_segment_eq)
    have buf: "\<exists>ss. win_buffer w = win_buffer (snd_window s) @ ss \<and>
        (\<forall>x \<in> set ss. ss_remaining_rto x = ucast (snd_rto s))"
      using w(1) by (auto simp: win_add_segment_def split: if_splits)
    have same: "snd_same s ?s" using w(3-5) buf by (simp add: snd_same_def snd_send_def stream)
    have ih: "\<exists>t. snd_fill_loop ?s = Inr t \<and> snd_inv W t \<and> snd_same ?s t \<and> snd_filled t
        \<and> snd_next ?s \<le> snd_next t \<and> (snd_within ?s \<longrightarrow> snd_within t)"
    proof (rule "1.IH" [OF 3(1) st seg [symmetric] step(1) w(1,2)])
      show "\<not> bs_error (snd_stream ?s)" using "1.prems"(2) by (simp add: snd_send_def stream)
      show "snd_next ?s \<noteq> 0" using w(6) "1.prems"(3) by (simp add: snd_send_def)
    qed
    have eq: "snd_fill_loop s = snd_fill_loop ?s"
      using 3(1) st seg step(1) w(1) by (simp add: snd_fill_loop.simps [of s])
    have le: "snd_next s \<le> snd_next ?s" using w(6) by (simp add: snd_send_def)
    have win: "snd_within ?s" if "snd_within s"
    proof -
      have i: "win_inv (snd_window s)" "win_inv w"
        using ok(2) w(2) by (simp_all add: snd_inv_def snd_window_ok_def snd_send_def)
      have "unat (win_bytes_in_flight w) = unat (win_bytes_in_flight (snd_window s)) + unat (seg_length seg)"
        using win_inv_first(1,2) [OF i(1)] win_inv_first(2) [OF i(2)] w(5,6) by simp
      moreover have "unat (win_space (snd_window s))
          = unat (win_window_size (snd_window s)) - unat (win_bytes_in_flight (snd_window s))"
        using that by (simp add: win_space_def unat_minus_no_wrap)
      ultimately show ?thesis
        using that snd_next_segment_length(2) [OF seg] w(4) by (simp add: snd_send_def)
    qed
    show ?thesis unfolding eq using ih le win snd_same_trans [OF same] order_trans [OF le] by auto
  qed
qed

text \<open>The SYN.\<close>

lemma snd_state_closed: "snd_state s = SND_CLOSED \<longleftrightarrow> \<not> bs_error (snd_stream s) \<and> win_next_seqno (snd_window s) = 0"
  by (simp add: snd_state_def snd_next_seqno_absolute_def)

lemma snd_fill_window_correct:
  assumes inv: "snd_inv W s" and err: "\<not> bs_error (snd_stream s)"
  shows "\<exists>t. snd_fill_window s = Inr t \<and> snd_inv W t \<and> snd_same s t \<and> snd_filled t
    \<and> snd_next t \<noteq> 0 \<and> snd_next s \<le> snd_next t \<and> (snd_within s \<longrightarrow> snd_within t)"
proof (cases "snd_next s = 0")
  case False
  then have "win_next_seqno (snd_window s) \<noteq> 0" by auto
  then have "snd_fill_window s = snd_fill_loop s" by (simp add: snd_fill_window_def snd_state_closed)
  then show ?thesis using snd_fill_loop_correct [OF inv err False] False by auto
next
  case True
  let ?w = "snd_window s"
  let ?seg = "set_seqno (wrap (win_next_seqno ?w) (win_isn ?w)) (set_syn True seg_new)"
  let ?w' = "?w\<lparr>win_buffer := win_buffer ?w @ [\<lparr>ss_segment = ?seg, ss_remaining_rto = ucast (snd_rto s)\<rparr>],
      win_next_seqno := win_next_seqno ?w + seg_length ?seg\<rparr>"
  let ?s = "snd_send ?seg (s\<lparr>snd_window := ?w'\<rparr>)"
  have n: "win_next_seqno ?w = 0" using True by (simp add: unat_0_iff)
  have ok: "snd_stream_ok W s" "snd_window_ok s" using inv by (simp_all add: snd_inv_def)
  have ok3: "win_inv ?w" using ok(2) by (simp add: snd_window_ok_def)
  have len: "seg_length ?seg = 1" by (simp add: seg_length_def seg_new_def th_new_def)
  have first: "win_first_seqno ?w = 0" "win_window_size ?w = 1" "win_buffer ?w = []"
    using win_inv_first(1,3) [OF ok3] n ok(2) by (auto simp: snd_window_ok_def unat_0_iff)
  then have nf: "\<not> win_full ?w" by (simp add: win_full_def win_window_closed_def win_buffer_empty_def)
  have add: "win_add_segment ?seg (ucast (snd_rto s)) ?w = Inr ?w'"
    using nf by (rule win_add_segment_eq) simp
  have "win_inv ?w'" using ok3 
    by (rule win_add_segment_inv) (simp_all add: n seg_length_def seg_new_def th_new_def)
  moreover have R0: "snd_read_pos s = 0" using ok(2) True by (simp add: snd_window_ok_def)
  moreover have n': "snd_next ?s = 1" by (simp add: n snd_send_def seg_length_def seg_new_def th_new_def)
  ultimately have "snd_window_ok ?s"
    using first unfolding snd_window_ok_def n' by (simp add: snd_send_def)
  moreover have "snd_stream_ok W ?s" using ok(1) by (simp add: snd_stream_ok_def snd_send_def)
  moreover have "seg_at W (win_isn ?w) 0 ?seg"
    using n by (simp add: seg_at_def seg_new_def th_new_def substr_def)
  then have "snd_seg_ok W ?s ?seg"
    by (auto simp: snd_seg_ok_def seg_of_stream_def snd_send_def seg_new_def th_new_def)
  moreover have "snd_seg_ok W s t \<Longrightarrow> snd_seg_ok W ?s t" for t by (simp add: snd_seg_ok_def snd_send_def)
  ultimately have "snd_inv W ?s" using inv first by (auto simp: snd_inv_def) (auto simp: snd_send_def)
  moreover have "\<not> bs_error (snd_stream ?s)" using err by (simp add: snd_send_def)
  moreover have "snd_same s ?s" by (simp add: snd_same_def snd_send_def)
  moreover have "snd_within ?s"
    by (simp add: n first snd_send_def seg_length_def seg_new_def th_new_def win_bytes_in_flight_def)
  moreover have "snd_fill_window s = snd_fill_loop ?s"
    using add err n by (simp add: snd_fill_window_def snd_state_closed Let_def)
  moreover obtain t where t: "snd_fill_loop ?s = Inr t" "snd_inv W t" "snd_same ?s t" "snd_filled t"
      "snd_next ?s \<le> snd_next t" "snd_within ?s \<longrightarrow> snd_within t"
    using snd_fill_loop_correct [OF calculation(1,2)] n' by auto
  moreover have "0 < snd_next t" using t(5) [unfolded n'] by simp
  ultimately show ?thesis using snd_same_trans [of s ?s t] True by auto
qed

section \<open>Acknowledgments, timers, writes\<close>

lemma snd_inv_cong:
  "snd_stream s = snd_stream t \<Longrightarrow> snd_window s = snd_window t \<Longrightarrow>
    snd_segments_out s = snd_segments_out t \<Longrightarrow> snd_inv W s = snd_inv W t"
  by (simp add: snd_inv_def snd_stream_ok_def snd_window_ok_def snd_seg_ok_def)

lemma snd_seg_ok_window [simp]:
  "win_isn w = snd_isn s \<Longrightarrow> snd_seg_ok W (s\<lparr>snd_window := w\<rparr>) seg = snd_seg_ok W s seg"
  by (simp add: snd_seg_ok_def)

lemma snd_stream_ok_window [simp]: "snd_stream_ok W (s\<lparr>snd_window := w\<rparr>) = snd_stream_ok W s"
  by (simp add: snd_stream_ok_def)

text \<open>Replacing the window by one that keeps fewer segments, or the same ones with other timers.\<close>

lemma snd_inv_window:
  assumes "snd_inv W s" and "win_inv w" and "win_next_seqno w = win_next_seqno (snd_window s)"
    and "win_isn w = snd_isn s" and "unat (win_window_size w) < 2 ^ 32"
    and "ss_segment ` set (win_buffer w) \<subseteq> ss_segment ` set (win_buffer (snd_window s))"
    and "win_first_seqno w = 0 \<Longrightarrow> win_first_seqno (snd_window s) = 0
      \<and> win_window_size w = win_window_size (snd_window s)"
  shows "snd_inv W (s\<lparr>snd_window := w\<rparr>)"
proof -
  have "snd_window_ok (s\<lparr>snd_window := w\<rparr>)"
    using assms by (auto simp: snd_inv_def snd_window_ok_def)
  moreover have "snd_seg_ok W s (ss_segment ss)" if "ss \<in> set (win_buffer w)" for ss
    using that assms(1,6) by (fastforce simp: snd_inv_def)
  ultimately show ?thesis using assms(1,4) by (simp add: snd_inv_def)
qed

lemma unwrap_isn:
  assumes "unwrap ackno isn next = 0"
  shows "ackno = isn"
  using wrap_unwrap_gen [of ackno isn "next"] assms by simp

lemma snd_ack_received_correct:
  assumes inv: "snd_inv W s" and err: "\<not> bs_error (snd_stream s)" and ack: "ackno \<noteq> snd_isn s"
  shows "\<exists>t. snd_ack_received ackno ws s = Inr t \<and> snd_inv W t \<and> snd_filled t
    \<and> snd_isn t = snd_isn s \<and> \<not> bs_error (snd_stream t)
    \<and> bs_end_flag (snd_stream t) = bs_end_flag (snd_stream s)
    \<and> (\<exists>out. snd_segments_out t = snd_segments_out s @ out)"
proof -
  let ?w = "snd_window s"
  have ok: "win_inv ?w" "unat (win_window_size ?w) < 2 ^ 32"
    using inv by (simp_all add: snd_inv_def snd_window_ok_def)
  obtain new w' where w': "win_ack_received ackno (max ws 1) ?w = Inr (new, w')" "win_inv w'"
    "win_next_seqno w' = win_next_seqno ?w" "win_isn w' = win_isn ?w" "unat (win_window_size w') < 2 ^ 32"
    "unat (win_first_seqno ?w) \<le> unat (win_first_seqno w')" "set (win_buffer w') \<subseteq> set (win_buffer ?w)"
    using win_ack_received_inv [OF ok] by metis
  have "unat (unwrap ackno (win_isn ?w) (win_next_seqno ?w)) \<noteq> 0"
    using ack unwrap_isn by (auto simp: unat_0_iff)
  then have first: "win_first_seqno w' = 0 \<Longrightarrow> win_first_seqno ?w = 0 \<and> win_window_size w' = win_window_size ?w"
    using w'(1,6) win_ack_received_eq [OF ok, of ackno "max ws 1"]
    by (auto simp: unat_0_iff split: if_splits dest: arg_cong [of _ _ unat])
  have i1: "snd_inv W (s\<lparr>snd_window := w'\<rparr>)"
    using w' first by (intro snd_inv_window [OF inv]) auto
  have i2: "snd_inv W (s\<lparr>snd_window := win_reset_timer r w'\<rparr>)" for r
    using w' first by (intro snd_inv_window [OF inv])
      (auto simp: win_inv_timers win_reset_timer_def image_image)
  define s' where "s' = (let s = s\<lparr>snd_window_size_is_zero := (ws = 0)\<rparr>; s = s\<lparr>snd_window := w'\<rparr>
     in if new then (let s = s\<lparr>snd_rto := ucast (snd_initial_retransmission_timeout s)\<rparr>;
                         s = s\<lparr>snd_window := win_reset_timer (snd_rto s) (snd_window s)\<rparr>
                     in s\<lparr>snd_consecutive_retransmission_count := 0\<rparr>) else s)"
  have eq: "snd_ack_received ackno ws s = snd_fill_window s'"
    using w'(1) by (simp add: snd_ack_received_def s'_def Let_def)
  have "snd_inv W s'"
  proof (cases new)
    case True
    then show ?thesis
      using i2 [of "ucast (snd_initial_retransmission_timeout s)"]
      by (subst snd_inv_cong [of s' "s\<lparr>snd_window := win_reset_timer (ucast (snd_initial_retransmission_timeout s)) w'\<rparr>"])
        (simp_all add: s'_def Let_def)
  next
    case False
    then show ?thesis
      using i1 by (subst snd_inv_cong [of s' "s\<lparr>snd_window := w'\<rparr>"]) (simp_all add: s'_def Let_def)
  qed
  moreover have "\<not> bs_error (snd_stream s')" "snd_isn s' = snd_isn s"
      "snd_segments_out s' = snd_segments_out s" "bs_end_flag (snd_stream s') = bs_end_flag (snd_stream s)"
    using err w'(4) by (simp_all add: s'_def Let_def)
  ultimately show ?thesis
    using snd_fill_window_correct [of W s'] unfolding eq by (auto simp: snd_same_def)
qed

lemma snd_send_inv: "snd_inv W s \<Longrightarrow> snd_seg_ok W s seg \<Longrightarrow> snd_inv W (snd_send seg s)"
  by (auto simp: snd_inv_def snd_send_def snd_stream_ok_def snd_window_ok_def snd_seg_ok_def)

lemma snd_send_empty_inv [invar_intros]: "snd_inv W s \<Longrightarrow> snd_inv W (snd_send_empty_segment s)"
  unfolding snd_send_empty_segment_def
  by (rule snd_send_inv) (simp_all add: snd_seg_ok_def seg_of_stream_def seg_bare_def seg_new_def th_new_def)

lemma snd_tick_eq:
  "snd_tick ms s =
    (case filter (ss_expired ms) (win_buffer (snd_window s)) of
       [] \<Rightarrow> s\<lparr>snd_window := fst (win_tick ms (snd_window s))\<rparr>
     | ss # _ \<Rightarrow>
         let rto = (if snd_window_size_is_zero s then snd_rto s else snd_rto s * 2)
         in snd_send (ss_segment ss) (s\<lparr>snd_rto := rto,
              snd_window := win_reset_timer rto (snd_window s),
              snd_consecutive_retransmission_count := snd_consecutive_retransmission_count s + 1\<rparr>))"
proof -
  have reset: "win_reset_timer r (fst (win_tick ms w)) = win_reset_timer r w" for r w
    by (simp add: win_tick_eq win_reset_timer_def ss_aged_def)
  then show ?thesis
    by (cases "filter (ss_expired ms) (win_buffer (snd_window s))")
      (simp_all add: snd_tick_def win_tick_eq Let_def)
qed

lemma snd_tick_inv [invar_intros]:
  assumes inv: "snd_inv W s"
  shows "snd_inv W (snd_tick ms s)"
proof -
  let ?w = "snd_window s"
  have ok: "win_inv ?w" "unat (win_window_size ?w) < 2 ^ 32"
    using inv by (simp_all add: snd_inv_def snd_window_ok_def)
  have tick: "snd_inv W (s\<lparr>snd_window := fst (win_tick ms ?w)\<rparr>)"
    using ok by (intro snd_inv_window [OF inv]) (simp_all add: win_tick_inv, simp add: win_tick_eq image_image)
  show ?thesis
  proof (cases "filter (ss_expired ms) (win_buffer ?w)")
    case Nil
    then show ?thesis using tick by (simp add: snd_tick_eq)
  next
    case (Cons ss rest)
    then have "ss \<in> set (win_buffer ?w)" by (metis filter_eq_ConsD in_set_conv_decomp)
    then have seg: "snd_seg_ok W s (ss_segment ss)" using inv by (simp add: snd_inv_def)
    have "snd_inv W (s\<lparr>snd_window := win_reset_timer r ?w\<rparr>)" for r
      using ok by (intro snd_inv_window [OF inv])
        (simp_all add: win_reset_timer_inv, simp add: win_reset_timer_def image_image)
    then have "snd_inv W (s\<lparr>snd_rto := r, snd_window := win_reset_timer r ?w,
        snd_consecutive_retransmission_count := c\<rparr>)" for r c
      by (subst snd_inv_cong [of _ "s\<lparr>snd_window := win_reset_timer r ?w\<rparr>"]) simp_all
    then have "snd_inv W (snd_send (ss_segment ss) (s\<lparr>snd_rto := r, snd_window := win_reset_timer r ?w,
        snd_consecutive_retransmission_count := c\<rparr>))" for r c
      by (rule snd_send_inv) (use seg in \<open>simp add: snd_seg_ok_def\<close>)
    then show ?thesis by (simp only: snd_tick_eq Cons list.case Let_def)
  qed
qed

lemma bs_eof_end_input [simp]:
  "bs_eof (bs_end_input st) = bs_buffer_empty st" "bs_eof st \<Longrightarrow> bs_buffer_empty st"
  by (simp_all add: bs_eof_def bs_buffer_empty_def bs_end_input_def bs_buffer_size_def)

lemma snd_end_input_inv [invar_intros]: "snd_inv W s \<Longrightarrow> snd_inv W (snd_end_input s)"
  by (auto simp: snd_inv_def snd_stream_ok_def snd_window_ok_def snd_seg_ok_def snd_end_input_def)

lemma snd_write_inv:
  assumes inv: "snd_inv W s" and "length W + length data + 2 < 2 ^ 31"
  shows "snd_inv (W @ take (unat (snd (snd_write data s))) data) (fst (snd_write data s))"
proof (cases "bs_end_flag (snd_stream s)")
  case True
  then show ?thesis using inv by (simp add: snd_write_def ring.write_finished)
next
  case False
  define V where "V = take (unat (snd (snd_write data s))) data"
  let ?st = "snd_stream s" and ?t = "fst (snd_write data s)"
  have ok: "snd_stream_ok W s" "snd_window_ok s" using inv by (simp_all add: snd_inv_def)
  have st: "bs_inv ?st" using ok(1) by (simp add: snd_stream_ok_def)
  have t: "snd_stream ?t = fst (bs_write ?st data)" "snd_window ?t = snd_window s"
      "snd_segments_out ?t = snd_segments_out s"
    by (simp_all add: snd_write_def split: prod.splits)
  have "snd (snd_write data s) = snd (bs_write ?st data)" by (simp add: snd_write_def split: prod.splits)
  then have c: "bs_contents (snd_stream ?t) = drop (snd_read_pos s) (W @ V)"
    using ring.write_accepted [OF st, of data] ok(1) by (simp add: t V_def snd_stream_ok_def)
  have inv': "bs_inv (snd_stream ?t)" using st by (simp add: t ring.invar_write)
  have lim: "length (W @ V) + 2 < 2 ^ 31" using assms(2) by (simp add: V_def min_def)
  have le: "snd_read_pos s \<le> length W" using ok(1) by (simp add: snd_stream_ok_def)
  have b: "bs_bytes_written (snd_stream ?t) = bs_bytes_read ?st + size_of (drop (snd_read_pos s) (W @ V))"
    using bs_written_eq [OF inv'] by (simp only: c) (simp add: t)
  have z: "unat (size_of (drop (snd_read_pos s) (W @ V))) = length (W @ V) - snd_read_pos s"
    using lim by (subst unat_size_of) simp_all
  have wr: "unat (bs_bytes_written (snd_stream ?t)) = length (W @ V)"
    unfolding b using z le lim by (subst unat_plus_no_wrap) simp_all
  have "snd_stream_ok (W @ V) ?t"
    unfolding snd_stream_ok_def using inv' lim wr c le by (simp add: t)
  moreover have "snd_window_ok ?t" using ok(2) False
    by (auto simp: snd_window_ok_def t bs_eof_def split: if_splits)
  moreover have "snd_seg_ok W s seg \<Longrightarrow> snd_seg_ok (W @ V) ?t seg" for seg
    using False by (simp add: snd_seg_ok_def t seg_of_stream_append)
  ultimately show ?thesis using inv by (simp add: snd_inv_def t V_def)
qed

lemma snd_write_seg_ok:
  assumes "snd_seg_ok W s seg"
  shows "snd_seg_ok (W @ take (unat (snd (snd_write data s))) data) (fst (snd_write data s)) seg"
proof (cases "bs_end_flag (snd_stream s)")
  case True
  then show ?thesis using assms by (simp add: snd_write_def ring.write_finished)
next
  case False
  then show ?thesis using assms
    by (simp add: snd_seg_ok_def snd_write_def seg_of_stream_append split: prod.splits)
qed

section \<open>Histories\<close>

text \<open>
  What the owner of a sender may ask of it. The history keeps the bytes that the stream accepted and
  the segments that were taken from the queue.
\<close>

datatype snd_op = Snd_Write bytes | Snd_End_Input | Snd_Fill_Window | Snd_Ack WrappingInt32 uint16
  | Snd_Tick size_t | Snd_Empty_Segment | Snd_Pop

type_synonym snd_history = "tcp_sender \<times> bytes \<times> tcp_segment list"

fun snd_step :: "snd_op \<Rightarrow> snd_history \<Rightarrow> snd_history result" where
  "snd_step (Snd_Write data) (s, W, sent) =
     (case snd_write data s of (t, n) \<Rightarrow> Inr (t, W @ take (unat n) data, sent))"
| "snd_step Snd_End_Input (s, W, sent) = Inr (snd_end_input s, W, sent)"
| "snd_step Snd_Fill_Window (s, W, sent) = bind_res (snd_fill_window s) (\<lambda>t. Inr (t, W, sent))"
| "snd_step (Snd_Ack ackno ws) (s, W, sent) =
     bind_res (snd_ack_received ackno ws s) (\<lambda>t. Inr (t, W, sent))"
| "snd_step (Snd_Tick ms) (s, W, sent) = Inr (snd_tick ms s, W, sent)"
| "snd_step Snd_Empty_Segment (s, W, sent) = Inr (snd_send_empty_segment s, W, sent)"
| "snd_step Snd_Pop (s, W, sent) = (case snd_segments_out s of
     [] \<Rightarrow> Inr (s, W, sent)
   | seg # rest \<Rightarrow> Inr (s\<lparr>snd_segments_out := rest\<rparr>, W, sent @ [seg]))"

fun snd_run :: "snd_op list \<Rightarrow> snd_history \<Rightarrow> snd_history result" where
  "snd_run [] h = Inr h"
| "snd_run (op # ops) h = bind_res (snd_step op h) (snd_run ops)"

fun snd_op_ok :: "WrappingInt32 \<Rightarrow> snd_op \<Rightarrow> bool" where
  "snd_op_ok isn (Snd_Ack ackno ws) \<longleftrightarrow> ackno \<noteq> isn"
| "snd_op_ok isn _ \<longleftrightarrow> True"

fun snd_op_bytes :: "snd_op \<Rightarrow> nat" where
  "snd_op_bytes (Snd_Write data) = length data"
| "snd_op_bytes _ = 0"

fun snd_history_inv :: "snd_history \<Rightarrow> bool" where
  "snd_history_inv (s, W, sent) \<longleftrightarrow> snd_inv W s \<and> \<not> bs_error (snd_stream s)
     \<and> (\<forall>seg \<in> set sent. snd_seg_ok W s seg)"

lemma snd_seg_ok_same:
  "snd_isn t = snd_isn s \<Longrightarrow> bs_end_flag (snd_stream t) = bs_end_flag (snd_stream s) \<Longrightarrow>
    snd_seg_ok W t seg = snd_seg_ok W s seg"
  by (simp add: snd_seg_ok_def)

lemma snd_step_inv:
  assumes h: "snd_history_inv (s, W, sent)" and "snd_op_ok (snd_isn s) op"
    and "length W + snd_op_bytes op + 2 < 2 ^ 31"
  shows "\<exists>t V sent'. snd_step op (s, W, sent) = Inr (t, V, sent') \<and> snd_history_inv (t, V, sent')
    \<and> snd_isn t = snd_isn s \<and> length V \<le> length W + snd_op_bytes op"
proof (cases op)
  case (Snd_Write data)
  have "\<not> bs_error (snd_stream (fst (snd_write data s)))" "snd_isn (fst (snd_write data s)) = snd_isn s"
    using h bs_write_frame(3) [of "snd_stream s" data]
    by (cases "bs_write (snd_stream s) data"; simp add: snd_write_def)+
  then show ?thesis
    using Snd_Write h assms(3) snd_write_inv [of W s data] snd_write_seg_ok [of W s _ data]
    by (cases "snd_write data s") simp
next
  case Snd_End_Input
  then show ?thesis using h
    by (auto simp: snd_end_input_inv) (auto simp: snd_end_input_def snd_seg_ok_def)
next
  case Snd_Fill_Window
  obtain t where "snd_fill_window s = Inr t" "snd_inv W t" "snd_same s t"
    using snd_fill_window_correct [of W s] h by auto
  then show ?thesis using Snd_Fill_Window h snd_seg_ok_same [of t s]
    by (auto simp: snd_same_def)
next
  case (Snd_Ack ackno ws)
  obtain t where "snd_ack_received ackno ws s = Inr t" "snd_inv W t" "snd_isn t = snd_isn s"
      "\<not> bs_error (snd_stream t)" "bs_end_flag (snd_stream t) = bs_end_flag (snd_stream s)"
    using snd_ack_received_correct [of W s ackno ws] h Snd_Ack assms(2) by auto
  then show ?thesis using Snd_Ack h snd_seg_ok_same [of t s] by auto
next
  case (Snd_Tick ms)
  have "snd_stream (snd_tick ms s) = snd_stream s" "snd_isn (snd_tick ms s) = snd_isn s"
    by (simp_all add: snd_tick_eq Let_def snd_send_def split: list.splits)
  then show ?thesis using Snd_Tick h snd_tick_inv [of W s ms] by (auto simp: snd_seg_ok_def)
next
  case Snd_Empty_Segment
  then show ?thesis using h snd_send_empty_inv [of W s]
    by (auto simp: snd_send_empty_segment_def snd_send_def snd_seg_ok_def)
next
  case Snd_Pop
  then show ?thesis using h
    by (cases "snd_segments_out s")
      (auto simp: snd_inv_def snd_stream_ok_def snd_window_ok_def snd_seg_ok_def)
qed

lemma snd_run_inv:
  assumes "snd_history_inv (s, W, sent)" and "list_all (snd_op_ok (snd_isn s)) ops"
    and "length W + sum_list (map snd_op_bytes ops) + 2 < 2 ^ 31"
  shows "\<exists>t V sent'. snd_run ops (s, W, sent) = Inr (t, V, sent') \<and> snd_history_inv (t, V, sent')
    \<and> snd_isn t = snd_isn s"
  using assms
proof (induction ops arbitrary: s W sent)
  case (Cons op ops)
  obtain t V sent' where "snd_step op (s, W, sent) = Inr (t, V, sent')" "snd_history_inv (t, V, sent')"
      "snd_isn t = snd_isn s" "length V \<le> length W + snd_op_bytes op"
    using snd_step_inv [OF Cons.prems(1), of op] Cons.prems(2,3) by auto
  then show ?case using Cons.IH [of t V sent'] Cons.prems(2,3) by auto
qed auto

section \<open>The retransmission timer\<close>

text \<open>
  The segment that was sent first is never behind a later one: the remaining times of the
  outstanding segments are sorted, and none is beyond the current timeout.
\<close>

abbreviation ss_time :: "sent_segment \<Rightarrow> nat" where
  "ss_time ss \<equiv> unat (ss_remaining_rto ss)"

definition snd_timers :: "tcp_sender \<Rightarrow> bool" where
  "snd_timers s \<longleftrightarrow> unat (snd_rto s) < 2 ^ 32
     \<and> sorted (map ss_time (win_buffer (snd_window s)))
     \<and> (\<forall>ss \<in> set (win_buffer (snd_window s)). ss_time ss \<le> unat (snd_rto s))"

lemma unat_rto: "unat r < 2 ^ 32 \<Longrightarrow> unat (ucast (r :: size_t) :: uint32) = unat r"
  by (simp add: unsigned_ucast_eq take_bit_nat_eq_self)

lemma sorted_const: "(\<And>x. x \<in> set xs \<Longrightarrow> x = c) \<Longrightarrow> sorted xs"
  by (induction xs) auto

lemma snd_timers_new: "snd_timers (snd_new random cap rt isn)"
proof -
  have "unat rt < 2 ^ 16" using unsigned_less [of rt, where 'a = nat] by simp
  then show ?thesis
    by (simp add: snd_timers_def snd_new_def win_new_def unsigned_ucast_eq take_bit_nat_eq_self)
qed

lemma snd_timers_same:
  assumes "snd_timers s" and "snd_same s t"
  shows "snd_timers t"
proof -
  obtain ss where ss: "win_buffer (snd_window t) = win_buffer (snd_window s) @ ss"
      "\<And>x. x \<in> set ss \<Longrightarrow> ss_time x = unat (snd_rto s)"
    using assms unat_rto [of "snd_rto s"] by (auto simp: snd_same_def snd_timers_def)
  then have "sorted (map ss_time ss)" by (intro sorted_const [of _ "unat (snd_rto s)"]) auto
  then show ?thesis using assms ss by (auto simp: snd_timers_def snd_same_def sorted_append)
qed

lemma snd_timers_reset:
  assumes "unat r < 2 ^ 32" and "snd_rto t = r" and "snd_window t = win_reset_timer r w"
  shows "snd_timers t"
proof -
  have "sorted (map ss_time (win_buffer (snd_window t)))"
    by (rule sorted_const [of _ "unat (ucast r :: uint32)"]) (auto simp: assms(3) win_reset_timer_def)
  then show ?thesis using assms unat_rto [of r] by (auto simp: snd_timers_def win_reset_timer_def)
qed

text \<open>A tick either ages every outstanding segment, or finds the first one expired.\<close>

lemma snd_timers_first:
  assumes "snd_timers s" and "win_buffer (snd_window s) = ss # rest"
  shows "filter (ss_expired ms) (ss # rest) = [] \<longleftrightarrow> \<not> ss_expired ms ss"
    and "ss_expired ms ss \<Longrightarrow> filter (ss_expired ms) (ss # rest) = ss # filter (ss_expired ms) rest"
  using assms by (auto simp: snd_timers_def ss_expired_def filter_empty_conv)

lemma snd_tick_timers:
  assumes "snd_timers s" and "unat (snd_rto s) < 2 ^ 31"
  shows "snd_timers (snd_tick ms s)"
proof (cases "filter (ss_expired ms) (win_buffer (snd_window s))")
  case Nil
  then have late: "unat ms < ss_time ss" if "ss \<in> set (win_buffer (snd_window s))" for ss
    using that by (auto simp: filter_empty_conv ss_expired_def)
  have time: "ss_time (ss_aged ms ss) = ss_time ss - unat ms" if "ss \<in> set (win_buffer (snd_window s))" for ss
    using late [OF that] unsigned_less [of "ss_remaining_rto ss", where 'a = nat]
    by (simp add: ss_aged_def unat_of_nat_less del: of_nat_diff)
  have "map (ss_time \<circ> ss_aged ms) (win_buffer (snd_window s))
      = map (\<lambda>n. n - unat ms) (map ss_time (win_buffer (snd_window s)))"
    using time by simp
  moreover have "sorted (map (\<lambda>n. n - unat ms) (map ss_time (win_buffer (snd_window s))))"
    using assms(1) by (intro sorted_map_mono) (auto simp: snd_timers_def mono_on_def diff_le_mono)
  ultimately have "sorted (map (ss_time \<circ> ss_aged ms) (win_buffer (snd_window s)))" by (simp only:)
  moreover have "ss_time (ss_aged ms ss) \<le> unat (snd_rto s)" if "ss \<in> set (win_buffer (snd_window s))" for ss
    using time [OF that] that assms(1) by (auto simp: snd_timers_def intro: le_trans [OF diff_le_self])
  ultimately show ?thesis using assms Nil by (simp add: snd_timers_def snd_tick_eq win_tick_eq)
next
  case (Cons ss rest)
  have "unat (snd_rto s * 2) = unat (snd_rto s) * 2" using assms(2) by (simp add: unat_word_ariths)
  then have "unat (if snd_window_size_is_zero s then snd_rto s else snd_rto s * 2) < 2 ^ 32"
    using assms(2) by simp
  then show ?thesis
    by (rule snd_timers_reset) (simp_all add: snd_tick_eq Cons Let_def snd_send_def)
qed

section \<open>An unacknowledged SYN\<close>





section \<open>Properties\<close>

text \<open>
  (C7) A sender only ever sends its own stream, and never throws: whatever the owner writes, ends,
  acknowledges (any acknowledgment number but the initial one, any window), ticks and takes from the
  queue, in any order, every segment taken from the queue or waiting in it is the SYN, a piece of the
  bytes written at its right sequence number, the FIN exactly at their end, or an empty segment; the
  outstanding segments cover the unacknowledged sequence numbers without a gap.
\<close>

theorem tcp_sender_sends_its_stream:
  assumes "unat cap < 2 ^ 63 - 1" and "sum_list (map snd_op_bytes ops) + 2 < 2 ^ 31"
    and "list_all (snd_op_ok (snd_isn (snd_new random cap rt isn))) ops"
  shows "\<exists>s W sent. snd_run ops (snd_new random cap rt isn, [], []) = Inr (s, W, sent)
    \<and> (\<forall>seg \<in> set (sent @ snd_segments_out s). seg_of_stream W (snd_isn s) seg)
    \<and> win_inv (snd_window s) \<and> snd_isn s = snd_isn (snd_new random cap rt isn)
    \<and> bs_contents (snd_stream s) = drop (snd_read_pos s) W"
proof -
  have "snd_history_inv (snd_new random cap rt isn, [], [])"
    using snd_new_inv [OF assms(1)] by (simp add: snd_new_def)
  from snd_run_inv [OF this assms(3)] assms(2) obtain s W sent where
      run: "snd_run ops (snd_new random cap rt isn, [], []) = Inr (s, W, sent)"
      "snd_isn s = snd_isn (snd_new random cap rt isn)" and h: "snd_history_inv (s, W, sent)"
    by auto
  from h have "\<forall>seg \<in> set (sent @ snd_segments_out s). seg_of_stream W (snd_isn s) seg"
    by (auto simp: snd_inv_def snd_seg_ok_def)
  then show ?thesis using run h by (auto simp: snd_inv_def snd_window_ok_def snd_stream_ok_def)
qed

theorem tcp_sender_sends_its_stream_witness:
  "\<exists>s W sent. snd_run [Snd_Fill_Window, Snd_Write [1, 2, 3], Snd_Ack (WrappingInt32 8) 2, Snd_Pop, Snd_Pop]
      (snd_new 0 10 1000 (Some (WrappingInt32 7)), [], []) = Inr (s, W, sent)
    \<and> (\<forall>seg \<in> set (sent @ snd_segments_out s). seg_of_stream W (snd_isn s) seg)"
  using tcp_sender_sends_its_stream [of 10
      "[Snd_Fill_Window, Snd_Write [1, 2, 3], Snd_Ack (WrappingInt32 8) 2, Snd_Pop, Snd_Pop]"
      0 1000 "Some (WrappingInt32 7)"]
  by (fastforce simp: snd_new_def win_new_def simp del: snd_run.simps)

text \<open>
  (C20) \<open>fill_window\<close> sends as much as it may: it terminates without an exception; when it returns,
  the window is full, or the stream is empty and still open, or the FIN has been sent; and it never
  takes the sequence numbers in flight beyond the advertised window.
\<close>

theorem tcp_sender_fills_window:
  assumes "snd_inv W s" and "\<not> bs_error (snd_stream s)"
  shows "\<exists>t. snd_fill_window s = Inr t \<and> snd_inv W t
    \<and> (win_full (snd_window t) \<or> bs_buffer_empty (snd_stream t) \<and> \<not> bs_eof (snd_stream t)
       \<or> bs_eof (snd_stream t) \<and> win_next_seqno (snd_window t) = bs_bytes_written (snd_stream t) + 2)
    \<and> (unat (snd_bytes_in_flight s) \<le> unat (win_window_size (snd_window s)) \<longrightarrow>
         unat (snd_bytes_in_flight t) \<le> unat (win_window_size (snd_window t)))"
  using snd_fill_window_correct [OF assms] by (auto simp: snd_filled_def snd_bytes_in_flight_def)

theorem tcp_sender_fills_window_witness:
  "\<exists>t. snd_fill_window (snd_new 0 10 1000 None) = Inr t \<and> snd_inv [] t"
  using tcp_sender_fills_window [of "[]" "snd_new 0 10 1000 None"] snd_new_inv [of 10 0 1000 None]
  by (auto simp: snd_new_def)

text \<open>
  (C21) The retransmission timer: when the remaining times are in order (as every operation leaves
  them), a tick that reaches the time of the oldest outstanding segment queues exactly that segment,
  counts one more retransmission, doubles the timeout unless the peer's window is zero, and restarts
  every timer with it; any other tick queues nothing and takes the elapsed time off every timer.
\<close>

theorem tcp_sender_retransmits_oldest:
  assumes "snd_timers s" and "win_buffer (snd_window s) = ss # rest" and "unat (snd_rto s) < 2 ^ 31"
  shows "if unat (ss_remaining_rto ss) \<le> unat ms
    then snd_segments_out (snd_tick ms s) = snd_segments_out s @ [ss_segment ss]
      \<and> snd_consecutive_retransmission_count (snd_tick ms s) = snd_consecutive_retransmission_count s + 1
      \<and> snd_rto (snd_tick ms s) = (if snd_window_size_is_zero s then snd_rto s else 2 * snd_rto s)
      \<and> (\<forall>x \<in> set (win_buffer (snd_window (snd_tick ms s))).
           ss_remaining_rto x = ucast (snd_rto (snd_tick ms s)))
      \<and> snd_timers (snd_tick ms s)
    else snd_segments_out (snd_tick ms s) = snd_segments_out s
      \<and> snd_rto (snd_tick ms s) = snd_rto s
      \<and> map (\<lambda>x. unat (ss_remaining_rto x)) (win_buffer (snd_window (snd_tick ms s)))
          = map (\<lambda>x. unat (ss_remaining_rto x) - unat ms) (ss # rest)
      \<and> snd_timers (snd_tick ms s)"
proof (cases "ss_expired ms ss")
  case True
  then show ?thesis
    using snd_timers_first(2) [OF assms(1,2) True] snd_tick_timers [OF assms(1,3), of ms] assms(2)
    by (auto simp: snd_tick_eq Let_def snd_send_def win_reset_timer_def ss_expired_def mult.commute)
next
  case False
  then have f: "filter (ss_expired ms) (win_buffer (snd_window s)) = []"
    using snd_timers_first(1) [OF assms(1,2), of ms] assms(2) by simp
  then have "\<not> ss_expired ms x" if "x \<in> set (ss # rest)" for x
    using that unfolding filter_empty_conv assms(2) by blast
  then have late: "unat ms < ss_time x" if "x \<in> set (ss # rest)" for x
    using that by (simp add: ss_expired_def not_le)
  have "ss_time (ss_aged ms x) = ss_time x - unat ms" if "x \<in> set (ss # rest)" for x
    using late [OF that] unsigned_less [of "ss_remaining_rto x", where 'a = nat]
    by (simp add: ss_aged_def unat_of_nat_less del: of_nat_diff)
  then show ?thesis using False f snd_tick_timers [OF assms(1,3), of ms] assms(2)
    by (auto simp: snd_tick_eq win_tick_eq ss_expired_def)
qed

theorem tcp_sender_retransmits_oldest_witness:
  "let n = snd_new 0 10 1000 (Some (WrappingInt32 7));
       s = (case snd_fill_window n of Inr t \<Rightarrow> t | Inl _ \<Rightarrow> n)
   in length (snd_segments_out s) = 1 \<and> snd_segments_out (snd_tick 1000 s) = snd_segments_out s @ snd_segments_out s"
proof -
  let ?n = "snd_new 0 10 1000 (Some (WrappingInt32 7))"
  let ?syn = "set_seqno (WrappingInt32 7) (set_syn True seg_new)"
  define s where "s = (case snd_fill_window ?n of Inr t \<Rightarrow> t | Inl _ \<Rightarrow> ?n)"
  have c: "win_buffer (snd_window s) = [\<lparr>ss_segment = ?syn, ss_remaining_rto = 1000\<rparr>]"
      "snd_segments_out s = [?syn]" "snd_rto s = 1000"
    unfolding s_def by code_simp+
  then have "snd_timers s" by (simp add: snd_timers_def)
  then show ?thesis
    using tcp_sender_retransmits_oldest [of s "\<lparr>ss_segment = ?syn, ss_remaining_rto = 1000\<rparr>" "[]" 1000] c
    by (simp add: s_def [symmetric])
qed



text \<open>
  When the peer shrinks its window below what is in flight, the sender does not stop: with four
  bytes in flight and a window of two, all the remaining bytes of the stream go out.
\<close>

theorem tcp_sender_overfills_window:
  "(case bind_res (snd_fill_window (snd_new 0 10 1000 (Some (WrappingInt32 7)))) (\<lambda>s.
         bind_res (snd_ack_received (WrappingInt32 8) 4 s) (\<lambda>s.
         bind_res (snd_fill_window (fst (snd_write [1, 2, 3, 4, 5, 6, 7, 8] s))) (\<lambda>s.
         snd_ack_received (WrappingInt32 8) 2 s)))
    of Inr s \<Rightarrow> (map (\<lambda>seg. buf_str (seg_payload seg)) (snd_segments_out s),
         snd_bytes_in_flight s, win_window_size (snd_window s)) | Inl _ \<Rightarrow> ([], 0, 0))
   = ([[], [1, 2, 3, 4], [5, 6, 7, 8]], 8, 2)"
  by code_simp

end
