(* ===== verification/TCP_State.thy ===== *)
theory TCP_State
  imports TCP_Sender TCP_Receiver
begin

text \<open>
  The summary of a connection in terms of the states of RFC 793
  (\<open>libsponge/tcp_helpers/tcp_state.hh\<close>, \<open>tcp_state.cc\<close>). As in the program, the states of the two
  halves are compared as strings.
\<close>

section \<open>State and operations\<close>

definition RCV_SUMMARY_ERROR :: string where
  "RCV_SUMMARY_ERROR = ''error (connection was reset)''"

definition RCV_SUMMARY_LISTEN :: string where
  "RCV_SUMMARY_LISTEN = ''waiting for SYN: ackno is empty''"

definition RCV_SUMMARY_SYN_RECV :: string where
  "RCV_SUMMARY_SYN_RECV = ''SYN received (ackno exists), and input to stream hasn't ended''"

definition RCV_SUMMARY_FIN_RECV :: string where
  "RCV_SUMMARY_FIN_RECV = ''input to stream has ended''"

definition SND_SUMMARY_ERROR :: string where
  "SND_SUMMARY_ERROR = ''error (connection was reset)''"

definition SND_SUMMARY_CLOSED :: string where
  "SND_SUMMARY_CLOSED = ''waiting for stream to begin (no SYN sent)''"

definition SND_SUMMARY_SYN_SENT :: string where
  "SND_SUMMARY_SYN_SENT = ''stream started but nothing acknowledged''"

definition SND_SUMMARY_SYN_ACKED :: string where
  "SND_SUMMARY_SYN_ACKED = ''stream ongoing''"

definition SND_SUMMARY_FIN_SENT :: string where
  "SND_SUMMARY_FIN_SENT = ''stream finished (FIN sent) but not fully acknowledged''"

definition SND_SUMMARY_FIN_ACKED :: string where
  "SND_SUMMARY_FIN_ACKED = ''stream finished and fully acknowledged''"

record tcp_state =
  ts_sender :: string
  ts_receiver :: string
  ts_active :: bool
  ts_linger_after_streams_finish :: bool

datatype State = ST_LISTEN | ST_SYN_RCVD | ST_SYN_SENT | ST_ESTABLISHED | ST_CLOSE_WAIT | ST_LAST_ACK
  | ST_FIN_WAIT_1 | ST_FIN_WAIT_2 | ST_CLOSING | ST_TIME_WAIT | ST_CLOSED | ST_RESET

definition ts_eq :: "tcp_state \<Rightarrow> tcp_state \<Rightarrow> bool" where
  "ts_eq a b \<longleftrightarrow> ts_active a = ts_active b
     \<and> ts_linger_after_streams_finish a = ts_linger_after_streams_finish b
     \<and> ts_sender a = ts_sender b \<and> ts_receiver a = ts_receiver b"

definition ts_neq :: "tcp_state \<Rightarrow> tcp_state \<Rightarrow> bool" where
  "ts_neq a b \<longleftrightarrow> \<not> ts_eq a b"

definition bool_to_string :: "bool \<Rightarrow> string" where
  "bool_to_string b = (if b then ''1'' else ''0'')"

definition ts_name :: "tcp_state \<Rightarrow> string" where
  "ts_name t = ''sender=`'' @ ts_sender t @ ''`, receiver=`'' @ ts_receiver t @ ''`, active=''
     @ bool_to_string (ts_active t) @ '', linger_after_streams_finish=''
     @ bool_to_string (ts_linger_after_streams_finish t)"

fun ts_of_state :: "State \<Rightarrow> tcp_state" where
  "ts_of_state ST_LISTEN = \<lparr>ts_sender = SND_SUMMARY_CLOSED, ts_receiver = RCV_SUMMARY_LISTEN,
     ts_active = True, ts_linger_after_streams_finish = True\<rparr>"
| "ts_of_state ST_SYN_RCVD = \<lparr>ts_sender = SND_SUMMARY_SYN_SENT, ts_receiver = RCV_SUMMARY_SYN_RECV,
     ts_active = True, ts_linger_after_streams_finish = True\<rparr>"
| "ts_of_state ST_SYN_SENT = \<lparr>ts_sender = SND_SUMMARY_SYN_SENT, ts_receiver = RCV_SUMMARY_LISTEN,
     ts_active = True, ts_linger_after_streams_finish = True\<rparr>"
| "ts_of_state ST_ESTABLISHED = \<lparr>ts_sender = SND_SUMMARY_SYN_ACKED, ts_receiver = RCV_SUMMARY_SYN_RECV,
     ts_active = True, ts_linger_after_streams_finish = True\<rparr>"
| "ts_of_state ST_CLOSE_WAIT = \<lparr>ts_sender = SND_SUMMARY_SYN_ACKED, ts_receiver = RCV_SUMMARY_FIN_RECV,
     ts_active = True, ts_linger_after_streams_finish = False\<rparr>"
| "ts_of_state ST_LAST_ACK = \<lparr>ts_sender = SND_SUMMARY_FIN_SENT, ts_receiver = RCV_SUMMARY_FIN_RECV,
     ts_active = True, ts_linger_after_streams_finish = False\<rparr>"
| "ts_of_state ST_CLOSING = \<lparr>ts_sender = SND_SUMMARY_FIN_SENT, ts_receiver = RCV_SUMMARY_FIN_RECV,
     ts_active = True, ts_linger_after_streams_finish = True\<rparr>"
| "ts_of_state ST_FIN_WAIT_1 = \<lparr>ts_sender = SND_SUMMARY_FIN_SENT, ts_receiver = RCV_SUMMARY_SYN_RECV,
     ts_active = True, ts_linger_after_streams_finish = True\<rparr>"
| "ts_of_state ST_FIN_WAIT_2 = \<lparr>ts_sender = SND_SUMMARY_FIN_ACKED, ts_receiver = RCV_SUMMARY_SYN_RECV,
     ts_active = True, ts_linger_after_streams_finish = True\<rparr>"
| "ts_of_state ST_TIME_WAIT = \<lparr>ts_sender = SND_SUMMARY_FIN_ACKED, ts_receiver = RCV_SUMMARY_FIN_RECV,
     ts_active = True, ts_linger_after_streams_finish = True\<rparr>"
| "ts_of_state ST_RESET = \<lparr>ts_sender = SND_SUMMARY_ERROR, ts_receiver = RCV_SUMMARY_ERROR,
     ts_active = False, ts_linger_after_streams_finish = False\<rparr>"
| "ts_of_state ST_CLOSED = \<lparr>ts_sender = SND_SUMMARY_FIN_ACKED, ts_receiver = RCV_SUMMARY_FIN_RECV,
     ts_active = False, ts_linger_after_streams_finish = False\<rparr>"

definition rcv_state_summary :: "tcp_receiver \<Rightarrow> string" where
  "rcv_state_summary r =
     (if bs_error (rcv_stream_out r) then RCV_SUMMARY_ERROR
      else if rcv_ackno r = None then RCV_SUMMARY_LISTEN
      else if bs_input_ended (rcv_stream_out r) then RCV_SUMMARY_FIN_RECV
      else RCV_SUMMARY_SYN_RECV)"

definition snd_state_summary :: "tcp_sender \<Rightarrow> string" where
  "snd_state_summary s =
     (if bs_error (snd_stream s) then SND_SUMMARY_ERROR
      else if snd_next_seqno_absolute s = 0 then SND_SUMMARY_CLOSED
      else if snd_next_seqno_absolute s = snd_bytes_in_flight s then SND_SUMMARY_SYN_SENT
      else if \<not> bs_eof (snd_stream s) then SND_SUMMARY_SYN_ACKED
      else if snd_next_seqno_absolute s < bs_bytes_written (snd_stream s) + 2 then SND_SUMMARY_SYN_ACKED
      else if snd_bytes_in_flight s \<noteq> 0 then SND_SUMMARY_FIN_SENT
      else SND_SUMMARY_FIN_ACKED)"

definition ts_of :: "tcp_sender \<Rightarrow> tcp_receiver \<Rightarrow> bool \<Rightarrow> bool \<Rightarrow> tcp_state" where
  "ts_of s r active linger = \<lparr>ts_sender = snd_state_summary s, ts_receiver = rcv_state_summary r,
     ts_active = active, ts_linger_after_streams_finish = (if active then linger else False)\<rparr>"

section \<open>The summaries are unambiguous\<close>

lemmas summary_defs = RCV_SUMMARY_ERROR_def RCV_SUMMARY_LISTEN_def RCV_SUMMARY_SYN_RECV_def
  RCV_SUMMARY_FIN_RECV_def SND_SUMMARY_ERROR_def SND_SUMMARY_CLOSED_def SND_SUMMARY_SYN_SENT_def
  SND_SUMMARY_SYN_ACKED_def SND_SUMMARY_FIN_SENT_def SND_SUMMARY_FIN_ACKED_def

text \<open>The summary of a half as a function of its state.\<close>

fun rcv_summary :: "ReceiverState \<Rightarrow> string" where
  "rcv_summary RCV_ERROR = RCV_SUMMARY_ERROR"
| "rcv_summary RCV_LISTEN = RCV_SUMMARY_LISTEN"
| "rcv_summary RCV_SYN_RECV = RCV_SUMMARY_SYN_RECV"
| "rcv_summary RCV_FIN_RECV = RCV_SUMMARY_FIN_RECV"

fun snd_summary :: "SenderState \<Rightarrow> string" where
  "snd_summary SND_ERROR = SND_SUMMARY_ERROR"
| "snd_summary SND_CLOSED = SND_SUMMARY_CLOSED"
| "snd_summary SND_SYN_SENT = SND_SUMMARY_SYN_SENT"
| "snd_summary SND_SYN_ACKED = SND_SUMMARY_SYN_ACKED"
| "snd_summary SND_ESTABLISHED = SND_SUMMARY_SYN_ACKED"
| "snd_summary SND_FIN_SENT = SND_SUMMARY_FIN_SENT"
| "snd_summary SND_FIN_ACKED = SND_SUMMARY_FIN_ACKED"

lemma rcv_summary_inj: "rcv_summary a = rcv_summary b \<Longrightarrow> a = b"
  by (cases a; cases b) (simp_all add: summary_defs)

lemma snd_summary_inj:
  "a \<noteq> SND_ESTABLISHED \<Longrightarrow> b \<noteq> SND_ESTABLISHED \<Longrightarrow> snd_summary a = snd_summary b \<Longrightarrow> a = b"
  by (cases a; cases b) (simp_all add: summary_defs)

lemma snd_state_not_established [simp]: "snd_state s \<noteq> SND_ESTABLISHED"
  by (simp add: snd_state_def)

lemma rcv_state_summary_eq: "rcv_state_summary r = rcv_summary (rcv_state r)"
  by (simp add: rcv_state_summary_def rcv_state_def)

lemma snd_state_summary_eq:
  assumes "snd_bytes_in_flight s \<le> snd_next_seqno_absolute s"
    and "bs_eof (snd_stream s) \<longrightarrow> snd_next_seqno_absolute s \<le> bs_bytes_written (snd_stream s) + 2"
  shows "snd_state_summary s = snd_summary (snd_state s)"
  using assms by (auto simp: snd_state_summary_def snd_state_def word_gt_0)

lemma snd_inv_counters:
  assumes "snd_inv W s"
  shows "snd_bytes_in_flight s \<le> snd_next_seqno_absolute s"
    and "bs_eof (snd_stream s) \<longrightarrow> snd_next_seqno_absolute s \<le> bs_bytes_written (snd_stream s) + 2"
proof -
  have ok: "snd_stream_ok W s" "snd_window_ok s" using assms by (simp_all add: snd_inv_def)
  then have w: "win_inv (snd_window s)" by (simp add: snd_window_ok_def)
  show "snd_bytes_in_flight s \<le> snd_next_seqno_absolute s"
    using win_inv_first(2) [OF w]
    by (simp add: word_le_nat_alt snd_bytes_in_flight_def snd_next_seqno_absolute_def)
  have "snd_next s \<le> length W + 2"
    using ok by (auto simp: snd_window_ok_def snd_stream_ok_def split: if_splits)
  then show "bs_eof (snd_stream s) \<longrightarrow> snd_next_seqno_absolute s \<le> bs_bytes_written (snd_stream s) + 2"
    using unat_written_2 [OF ok(1)] by (simp add: word_le_nat_alt snd_next_seqno_absolute_def)
qed

lemma snd_inv_summary: "snd_inv W s \<Longrightarrow> snd_state_summary s = snd_summary (snd_state s)"
  by (rule snd_state_summary_eq) (rule snd_inv_counters, assumption)+

text \<open>The states of RFC 793 in terms of the states of the two halves.\<close>

fun state_halves :: "State \<Rightarrow> SenderState \<times> ReceiverState \<times> bool \<times> bool" where
  "state_halves ST_LISTEN = (SND_CLOSED, RCV_LISTEN, True, True)"
| "state_halves ST_SYN_RCVD = (SND_SYN_SENT, RCV_SYN_RECV, True, True)"
| "state_halves ST_SYN_SENT = (SND_SYN_SENT, RCV_LISTEN, True, True)"
| "state_halves ST_ESTABLISHED = (SND_SYN_ACKED, RCV_SYN_RECV, True, True)"
| "state_halves ST_CLOSE_WAIT = (SND_SYN_ACKED, RCV_FIN_RECV, True, False)"
| "state_halves ST_LAST_ACK = (SND_FIN_SENT, RCV_FIN_RECV, True, False)"
| "state_halves ST_CLOSING = (SND_FIN_SENT, RCV_FIN_RECV, True, True)"
| "state_halves ST_FIN_WAIT_1 = (SND_FIN_SENT, RCV_SYN_RECV, True, True)"
| "state_halves ST_FIN_WAIT_2 = (SND_FIN_ACKED, RCV_SYN_RECV, True, True)"
| "state_halves ST_TIME_WAIT = (SND_FIN_ACKED, RCV_FIN_RECV, True, True)"
| "state_halves ST_RESET = (SND_ERROR, RCV_ERROR, False, False)"
| "state_halves ST_CLOSED = (SND_FIN_ACKED, RCV_FIN_RECV, False, False)"

lemma state_halves_inj: "state_halves a = state_halves b \<Longrightarrow> a = b"
  by (cases a; cases b) simp_all

lemma state_halves_not_established: "fst (state_halves st) \<noteq> SND_ESTABLISHED"
  by (cases st) simp_all

lemma ts_of_state_eq:
  "ts_of_state st = (case state_halves st of (a, b, active, linger) \<Rightarrow>
     \<lparr>ts_sender = snd_summary a, ts_receiver = rcv_summary b, ts_active = active,
      ts_linger_after_streams_finish = linger\<rparr>)"
  by (cases st) simp_all

text \<open>The state that the summary of the sender stands for; for a sender that has kept its invariant it is
  the state that the sender computes for itself.\<close>

definition snd_shown :: "tcp_sender \<Rightarrow> SenderState" where
  "snd_shown s =
     (if bs_error (snd_stream s) then SND_ERROR
      else if snd_next_seqno_absolute s = 0 then SND_CLOSED
      else if snd_next_seqno_absolute s = snd_bytes_in_flight s then SND_SYN_SENT
      else if \<not> bs_eof (snd_stream s) then SND_SYN_ACKED
      else if snd_next_seqno_absolute s < bs_bytes_written (snd_stream s) + 2 then SND_SYN_ACKED
      else if snd_bytes_in_flight s \<noteq> 0 then SND_FIN_SENT
      else SND_FIN_ACKED)"

lemma snd_shown_summary: "snd_state_summary s = snd_summary (snd_shown s)" "snd_shown s \<noteq> SND_ESTABLISHED"
  by (simp_all add: snd_shown_def snd_state_summary_def)

lemma snd_summary_shown: "snd_state_summary s = snd_summary (snd_state s) \<Longrightarrow> snd_shown s = snd_state s"
  using snd_summary_inj [of "snd_shown s" "snd_state s"] snd_shown_summary by simp

lemma ts_eq_shown:
  "ts_eq (ts_of s r active linger) (ts_of_state st)
    \<longleftrightarrow> state_halves st = (snd_shown s, rcv_state r, active, active \<and> linger)"
proof -
  obtain a b c d where st: "state_halves st = (a, b, c, d)" by (metis prod.exhaust)
  then have "a \<noteq> SND_ESTABLISHED" using state_halves_not_established [of st] by simp
  then have "snd_summary (snd_shown s) = snd_summary a \<longleftrightarrow> snd_shown s = a"
    using snd_summary_inj [of "snd_shown s" a] snd_shown_summary(2) by auto
  moreover have "rcv_summary (rcv_state r) = rcv_summary b \<longleftrightarrow> rcv_state r = b"
    using rcv_summary_inj by auto
  ultimately show ?thesis
    by (auto simp: ts_eq_def ts_of_def ts_of_state_eq st snd_shown_summary(1) rcv_state_summary_eq)
qed

lemma ts_eq_halves:
  "snd_state_summary s = snd_summary (snd_state s) \<Longrightarrow> ts_eq (ts_of s r active linger) (ts_of_state st)
    \<longleftrightarrow> state_halves st = (snd_state s, rcv_state r, active, active \<and> linger)"
  using ts_eq_shown snd_summary_shown by metis

section \<open>Properties\<close>

text \<open>
  (C14) The comparison of summaries recognises exactly the states of RFC 793: a connection whose sender
  has kept its invariant compares equal to the official state \<open>st\<close> if and only if the states of its
  two halves, and its flags, are those of \<open>st\<close>. So the strings never confuse two states, and the
  summary that \<open>TCPState\<close> computes agrees with the one that the sender and the receiver
  compute for themselves.
\<close>

theorem tcp_state_recognised:
  assumes "snd_inv W s"
  shows "ts_eq (ts_of s r active linger) (ts_of_state st)
    \<longleftrightarrow> state_halves st = (snd_state s, rcv_state r, active, active \<and> linger)"
  using snd_inv_summary [OF assms] by (rule ts_eq_halves)

theorem tcp_state_recognised_witness:
  "ts_eq (ts_of (snd_new 7 64000 1000 None) (rcv_new 64000) True True) (ts_of_state ST_LISTEN)"
  using tcp_state_recognised [OF snd_new_inv [of 64000 7 1000 None], of "rcv_new 64000" True True ST_LISTEN]
  by (simp add: snd_state_def rcv_state_def snd_new_def rcv_new_def snd_next_seqno_absolute_def win_new_def
      bs_new_def sr_new_def rcv_stream_out_def rcv_ackno_def)

end
