(* ===== verification/TCP_Connection.thy ===== *)
theory TCP_Connection
  imports TCP_State
begin

text \<open>
  A complete endpoint of a connection (\<open>libsponge/tcp_connection.hh\<close>, \<open>tcp_connection.cc\<close>): the two
  halves, the queue of segments for the network, and the state machine that reacts to segments, to
  the application and to time. Every operation is modelled with all its calls; what it prints is not.
\<close>

section \<open>State and operations\<close>

record tcp_connection =
  conn_cfg :: tcp_config
  conn_receiver :: tcp_receiver
  conn_sender :: tcp_sender
  conn_segments_out :: "tcp_segment list"
  conn_linger_after_streams_finish :: bool
  conn_active :: bool
  conn_time_since_last_segment_received :: size_t

text \<open>\<open>random\<close> is the word that \<open>std::random_device\<close> returns to the sender.\<close>

definition conn_new :: "uint32 \<Rightarrow> tcp_config \<Rightarrow> tcp_connection" where
  "conn_new random cfg = \<lparr>conn_cfg = cfg, conn_receiver = rcv_new (cfg_recv_capacity cfg),
     conn_sender = snd_new random (cfg_send_capacity cfg) (cfg_rt_timeout cfg) (cfg_fixed_isn cfg),
     conn_segments_out = [], conn_linger_after_streams_finish = True, conn_active = True,
     conn_time_since_last_segment_received = 0\<rparr>"

definition conn_remaining_outbound_capacity :: "tcp_connection \<Rightarrow> size_t" where
  "conn_remaining_outbound_capacity c = bs_remaining_capacity (snd_stream (conn_sender c))"

definition conn_bytes_in_flight :: "tcp_connection \<Rightarrow> size_t" where
  "conn_bytes_in_flight c = snd_bytes_in_flight (conn_sender c)"

definition conn_unassembled_bytes :: "tcp_connection \<Rightarrow> size_t result" where
  "conn_unassembled_bytes c = rcv_unassembled_bytes (conn_receiver c)"

definition conn_state :: "tcp_connection \<Rightarrow> tcp_state" where
  "conn_state c = ts_of (conn_sender c) (conn_receiver c) (conn_active c)
     (conn_linger_after_streams_finish c)"

text \<open>\<open>state == TCPState(TCPState::State::X)\<close>\<close>

definition conn_in :: "tcp_connection \<Rightarrow> State \<Rightarrow> bool" where
  "conn_in c st \<longleftrightarrow> ts_eq (conn_state c) (ts_of_state st)"

text \<open>\<open>_receiver.ackno().value()\<close> throws when no SYN has been received. The window is cut to the 16
  bits of its field.\<close>

definition conn_add_ack_info :: "tcp_connection \<Rightarrow> tcp_segment \<Rightarrow> tcp_segment result" where
  "conn_add_ack_info c ack_seg =
     (let ack_seg = set_ack True ack_seg
      in case rcv_ackno (conn_receiver c) of
           None \<Rightarrow> Inl Bad_Optional_Access
         | Some ackno \<Rightarrow>
             let ack_seg = set_ackno ackno ack_seg
             in Inr (set_window_size (ucast (rcv_window_size (conn_receiver c))) ack_seg))"

definition conn_push :: "tcp_segment \<Rightarrow> tcp_connection \<Rightarrow> tcp_connection" where
  "conn_push seg c = c\<lparr>conn_segments_out := conn_segments_out c @ [seg]\<rparr>"

text \<open>The loop of \<open>_collect_sender_segments_out\<close> over the sender's queue.\<close>

fun conn_drain :: "tcp_segment list \<Rightarrow> tcp_connection \<Rightarrow> tcp_connection result" where
  "conn_drain [] c = Inr c"
| "conn_drain (segment # queue) c =
     (let c = c\<lparr>conn_sender := (conn_sender c)\<lparr>snd_segments_out := queue\<rparr>\<rparr>
      in bind_res (if rcv_ackno (conn_receiver c) \<noteq> None then conn_add_ack_info c segment else Inr segment)
           (\<lambda>segment. conn_drain queue (conn_push segment c)))"

definition conn_collect_sender_segments_out :: "tcp_connection \<Rightarrow> tcp_connection result" where
  "conn_collect_sender_segments_out c =
     bind_res (snd_fill_window (conn_sender c)) (\<lambda>s.
       conn_drain (snd_segments_out s) (c\<lparr>conn_sender := s\<rparr>))"

text \<open>An empty acknowledgment straight into the queue of the connection.\<close>

definition conn_push_ack :: "tcp_connection \<Rightarrow> tcp_connection result" where
  "conn_push_ack c = bind_res (conn_add_ack_info c seg_new) (\<lambda>ack_seg. Inr (conn_push ack_seg c))"

definition conn_connect :: "tcp_connection \<Rightarrow> tcp_connection result" where
  "conn_connect c = conn_collect_sender_segments_out c"

definition conn_write :: "bytes \<Rightarrow> tcp_connection \<Rightarrow> (tcp_connection \<times> size_t) result" where
  "conn_write data c =
     (case snd_write data (conn_sender c) of (s, ret) \<Rightarrow>
        bind_res (conn_collect_sender_segments_out (c\<lparr>conn_sender := s\<rparr>)) (\<lambda>c. Inr (c, ret)))"

definition conn_end_input_stream :: "tcp_connection \<Rightarrow> tcp_connection result" where
  "conn_end_input_stream c =
     conn_collect_sender_segments_out (c\<lparr>conn_sender := snd_end_input (conn_sender c)\<rparr>)"

definition conn_set_errors :: "tcp_connection \<Rightarrow> tcp_connection" where
  "conn_set_errors c = c\<lparr>conn_sender := snd_set_error (conn_sender c),
     conn_receiver := rcv_set_error (conn_receiver c), conn_active := False,
     conn_linger_after_streams_finish := False\<rparr>"

definition conn_unclean_shutdown :: "tcp_connection \<Rightarrow> tcp_connection" where
  "conn_unclean_shutdown c = conn_push (set_rst True seg_new) (conn_set_errors c)"

definition conn_clean_shutdown :: "tcp_connection \<Rightarrow> tcp_connection" where
  "conn_clean_shutdown c = conn_unclean_shutdown c"

definition conn_reset_received :: "tcp_connection \<Rightarrow> tcp_connection" where
  "conn_reset_received c = conn_set_errors c"

definition conn_rcv_segment :: "tcp_segment \<Rightarrow> tcp_connection \<Rightarrow> tcp_connection" where
  "conn_rcv_segment seg c = c\<lparr>conn_receiver := rcv_segment_received (conn_receiver c) seg\<rparr>"

definition conn_snd_ack :: "tcp_segment \<Rightarrow> tcp_connection \<Rightarrow> tcp_connection result" where
  "conn_snd_ack seg c =
     bind_res (snd_ack_received (th_ackno (seg_header seg)) (th_win (seg_header seg)) (conn_sender c))
       (\<lambda>s. Inr (c\<lparr>conn_sender := s\<rparr>))"

text \<open>What ESTABLISHED and FIN_WAIT_1 do with a segment: its data is received and answered first, its
  acknowledgment is read second.\<close>

definition conn_exchange :: "tcp_segment \<Rightarrow> tcp_connection \<Rightarrow> tcp_connection result" where
  "conn_exchange seg c =
     bind_res
       (if seg_length seg \<noteq> 0 \<or> \<not> th_ack (seg_header seg)
        then let c = conn_rcv_segment seg c
             in bind_res (conn_add_ack_info c seg_new) (\<lambda>ack_seg.
                conn_collect_sender_segments_out (c\<lparr>conn_sender := snd_send ack_seg (conn_sender c)\<rparr>))
        else Inr c)
       (\<lambda>c. if th_ack (seg_header seg)
            then bind_res (conn_snd_ack seg c) conn_collect_sender_segments_out
            else Inr c)"

text \<open>The states in which one side has finished.\<close>

definition conn_closing :: "tcp_segment \<Rightarrow> tcp_connection \<Rightarrow> tcp_connection result" where
  "conn_closing seg c =
     (let h = seg_header seg
      in if conn_in c ST_FIN_WAIT_2 then
           (if th_fin h \<and> th_ack h
            then bind_res (conn_snd_ack seg (conn_rcv_segment seg c)) conn_push_ack
            else Inr c)
         else if conn_in c ST_LAST_ACK then
           (if th_ack h
            then bind_res (conn_snd_ack seg c) (\<lambda>c.
                 Inr (if snd_state (conn_sender c) = SND_FIN_ACKED
                      then c\<lparr>conn_linger_after_streams_finish := False, conn_active := False\<rparr>
                      else c))
            else Inr c)
         else if conn_in c ST_CLOSING then
           (if th_ack h
            then bind_res (conn_snd_ack seg (conn_rcv_segment seg c)) conn_collect_sender_segments_out
            else Inr c)
         else if conn_in c ST_CLOSE_WAIT then
           (if th_fin h then bind_res (conn_snd_ack seg c) conn_push_ack else Inr c)
         else if conn_in c ST_TIME_WAIT then
           (if th_fin h \<and> th_ack h then bind_res (conn_snd_ack seg c) conn_push_ack else Inr c)
         else Inr c)"

text \<open>The chain of states in \<open>segment_received\<close>, one case per state.\<close>

definition conn_dispatch :: "tcp_segment \<Rightarrow> tcp_connection \<Rightarrow> tcp_connection result" where
  "conn_dispatch seg c =
     (let h = seg_header seg
      in if conn_in c ST_LISTEN then
           (if th_syn h
            then bind_res (conn_connect (conn_rcv_segment seg c)) (\<lambda>c. Inr (c\<lparr>conn_active := True\<rparr>))
            else Inr c)
         else if conn_in c ST_SYN_SENT then
           (if th_syn h \<and> th_ack h
            then bind_res (conn_snd_ack seg (conn_rcv_segment seg c)) conn_push_ack
            else if th_syn h then conn_push_ack (conn_rcv_segment seg c)
            else Inr c)
         else if conn_in c ST_SYN_RCVD then
           (if th_ack h then conn_snd_ack seg (conn_rcv_segment seg c) else Inr c)
         else if conn_in c ST_ESTABLISHED \<or> conn_in c ST_FIN_WAIT_1 then
           conn_exchange seg (if th_fin h \<and> \<not> conn_in c ST_FIN_WAIT_1
                              then c\<lparr>conn_linger_after_streams_finish := False\<rparr> else c)
         else conn_closing seg c)"

text \<open>The answer to a keep-alive probe at the end of \<open>segment_received\<close>.\<close>

definition conn_keep_alive :: "tcp_segment \<Rightarrow> tcp_connection \<Rightarrow> tcp_connection result" where
  "conn_keep_alive seg c =
     (case rcv_ackno (conn_receiver c) of
        None \<Rightarrow> Inr c
      | Some ackno \<Rightarrow>
          if seg_length seg = 0 \<and> wint_eq (th_seqno (seg_header seg)) (wint_minus ackno 1)
          then conn_collect_sender_segments_out
                 (c\<lparr>conn_sender := snd_send_empty_segment (conn_sender c)\<rparr>)
          else Inr c)"

definition conn_segment_received :: "tcp_segment \<Rightarrow> tcp_connection \<Rightarrow> tcp_connection result" where
  "conn_segment_received seg c =
     (let c = c\<lparr>conn_time_since_last_segment_received := 0\<rparr>
      in if th_rst (seg_header seg) then Inr (conn_reset_received c)
         else bind_res (conn_dispatch seg c) (conn_keep_alive seg))"

definition conn_tick :: "size_t \<Rightarrow> tcp_connection \<Rightarrow> tcp_connection result" where
  "conn_tick ms c =
     (let c = c\<lparr>conn_time_since_last_segment_received := conn_time_since_last_segment_received c + ms\<rparr>;
          c0 = c;
          c = (if conn_in c0 ST_TIME_WAIT \<and> conn_linger_after_streams_finish c
                  \<and> conn_time_since_last_segment_received c \<ge> 10 * ucast (cfg_rt_timeout (conn_cfg c))
               then c\<lparr>conn_linger_after_streams_finish := False, conn_active := False\<rparr> else c);
          c = c\<lparr>conn_sender := snd_tick ms (conn_sender c)\<rparr>
      in if snd_consecutive_retransmissions (conn_sender c) > MAX_RETX_ATTEMPTS
         then Inr (conn_unclean_shutdown c)
         else if conn_in c0 ST_ESTABLISHED \<or> conn_in c0 ST_SYN_SENT \<or> conn_in c0 ST_SYN_RCVD
                 \<or> conn_in c0 ST_FIN_WAIT_1 \<or> conn_in c0 ST_CLOSE_WAIT \<or> conn_in c0 ST_LAST_ACK
                 \<or> conn_in c0 ST_CLOSING
         then conn_collect_sender_segments_out c
         else Inr c)"

text \<open>The destructor; it catches everything that the operations in it may throw.\<close>

definition conn_destroy :: "tcp_connection \<Rightarrow> tcp_connection" where
  "conn_destroy c =
     (if conn_active c
      then conn_unclean_shutdown (c\<lparr>conn_sender := snd_send_empty_segment (conn_sender c)\<rparr>) else c)"

text \<open>The application's end of the inbound stream, and the owner's end of the queue.\<close>

definition conn_read :: "size_t \<Rightarrow> tcp_connection \<Rightarrow> tcp_connection \<times> bytes" where
  "conn_read len c = (case rcv_read (conn_receiver c) len of (r, ret) \<Rightarrow> (c\<lparr>conn_receiver := r\<rparr>, ret))"

section \<open>What the operations leave alone\<close>

lemma win_add_segment_total: "\<not> win_full w \<Longrightarrow> \<exists>w'. win_add_segment seg rto w = Inr w'"
  by (simp add: win_add_segment_def)

lemma snd_fill_loop_frame:
  "\<exists>t. snd_fill_loop s = Inr t \<and> bs_error (snd_stream t) = bs_error (snd_stream s)
    \<and> bs_end_flag (snd_stream t) = bs_end_flag (snd_stream s)
    \<and> (bs_inv (snd_stream s) \<longrightarrow> bs_inv (snd_stream t)) \<and> snd_isn t = snd_isn s
    \<and> snd_consecutive_retransmission_count t = snd_consecutive_retransmission_count s"
proof (induction s rule: snd_fill_loop.induct)
  case (1 s)
  let ?go = "(\<not> bs_buffer_empty (snd_stream s) \<or> bs_eof (snd_stream s)) \<and> \<not> win_full (snd_window s)"
  let ?fin = "snd_state s = SND_FIN_SENT \<or> snd_state s = SND_FIN_ACKED"
  obtain stream seg where seg: "snd_next_segment s = (stream, seg)" by force
  have err: "bs_error stream = bs_error (snd_stream s) \<and> bs_end_flag stream = bs_end_flag (snd_stream s)
      \<and> (bs_inv (snd_stream s) \<longrightarrow> bs_inv stream)"
    using seg by (auto simp: snd_next_segment_eq)
  consider "\<not> ?go \<or> ?fin \<or> seg_length seg = 0" | "?go" "\<not> ?fin" "seg_length seg \<noteq> 0" by blast
  then show ?case
  proof cases
    case 1
    then show ?thesis using seg err by (auto simp: snd_fill_loop.simps [of s])
  next
    case 2
    then obtain w where w: "win_add_segment seg (ucast (snd_rto s)) (snd_window s) = Inr w"
      using win_add_segment_total by blast
    then have "win_isn w = snd_isn s" by (auto simp: win_add_segment_def split: if_splits)
    moreover have "snd_fill_loop s = snd_fill_loop (snd_send seg (s\<lparr>snd_stream := stream, snd_window := w\<rparr>))"
      using 2 seg w by (simp add: snd_fill_loop.simps [of s])
    ultimately show ?thesis
      using "1.IH" [OF 2(1,2) seg [symmetric] 2(3) w] err by (auto simp: snd_send_def)
  qed
qed

lemma snd_fill_window_frame:
  assumes "snd_fill_window s = Inr t"
  shows "bs_error (snd_stream t) = bs_error (snd_stream s)" and "snd_isn t = snd_isn s"
    and "bs_end_flag (snd_stream t) = bs_end_flag (snd_stream s)"
    and "bs_inv (snd_stream s) \<Longrightarrow> bs_inv (snd_stream t)"
    and "snd_consecutive_retransmission_count t = snd_consecutive_retransmission_count s"
proof -
  obtain s1 where s1: "snd_fill_loop s1 = Inr t" "snd_stream s1 = snd_stream s" "snd_isn s1 = snd_isn s"
      "snd_consecutive_retransmission_count s1 = snd_consecutive_retransmission_count s"
    using assms by (auto simp: snd_fill_window_def Let_def bind_res_eq_Inr snd_send_def
        win_add_segment_def split: if_splits)
  then show "bs_error (snd_stream t) = bs_error (snd_stream s)" and "snd_isn t = snd_isn s"
    and "bs_end_flag (snd_stream t) = bs_end_flag (snd_stream s)"
    and "bs_inv (snd_stream s) \<Longrightarrow> bs_inv (snd_stream t)"
    and "snd_consecutive_retransmission_count t = snd_consecutive_retransmission_count s"
    using snd_fill_loop_frame [of s1] by auto
qed

lemma snd_fill_window_error:
  assumes "bs_error (snd_stream s)"
  shows "\<exists>t. snd_fill_window s = Inr t"
  using assms snd_fill_loop_frame [of s] by (auto simp: snd_fill_window_def snd_state_def)

lemma win_ack_received_isn: "win_ack_received ackno ws w = Inr (new, w') \<Longrightarrow> win_isn w' = win_isn w"
  by (auto simp: win_ack_received_def Let_def win_set_window_size_def win_advance_def
      win_shrink_front_def win_expand_back_def bind_res_eq_Inr split: if_splits option.splits)

lemma snd_ack_received_frame:
  assumes "snd_ack_received ackno ws s = Inr t"
  shows "bs_error (snd_stream t) = bs_error (snd_stream s)" and "snd_isn t = snd_isn s"
    and "bs_end_flag (snd_stream t) = bs_end_flag (snd_stream s)"
    and "bs_inv (snd_stream s) \<Longrightarrow> bs_inv (snd_stream t)"
    and "snd_consecutive_retransmission_count t \<in> {0, snd_consecutive_retransmission_count s}"
proof -
  obtain s1 where s1: "snd_fill_window s1 = Inr t" "snd_stream s1 = snd_stream s" "snd_isn s1 = snd_isn s"
      "snd_consecutive_retransmission_count s1 \<in> {0, snd_consecutive_retransmission_count s}"
    using assms by (auto simp: snd_ack_received_def Let_def bind_res_eq_Inr split: if_splits
        dest!: win_ack_received_isn)
  then show "bs_error (snd_stream t) = bs_error (snd_stream s)" and "snd_isn t = snd_isn s"
    and "bs_end_flag (snd_stream t) = bs_end_flag (snd_stream s)"
    and "bs_inv (snd_stream s) \<Longrightarrow> bs_inv (snd_stream t)"
    and "snd_consecutive_retransmission_count t \<in> {0, snd_consecutive_retransmission_count s}"
    using snd_fill_window_frame [OF s1(1)] by auto
qed

lemma sr_push_error: "bs_error (sr_output (sr_push_substring s data index eof)) = bs_error (sr_output s)"
proof -
  obtain t str where d: "sr_drain 0 (sr_stored s data index eof) [] = (t, str)" by force
  then have "sr_output t = sr_output s"
    using sr_drain_output [of 0 "sr_stored s data index eof" "[]"] by simp
  then show ?thesis using d by (simp add: sr_push_stored sr_update_output_def Let_def)
qed

lemma rcv_received_error [simp]:
  "bs_error (rcv_stream_out (rcv_segment_received r seg)) = bs_error (rcv_stream_out r)"
  by (simp add: rcv_segment_received_eq rcv_stream_out_def rcv_pushed_def sr_push_error)

lemma rcv_received_ackno:
  "rcv_ackno r \<noteq> None \<or> th_syn (seg_header seg) \<Longrightarrow> rcv_ackno (rcv_segment_received r seg) \<noteq> None"
  by (auto simp: rcv_segment_received_eq rcv_ackno_def rcv_opened_def split: if_splits)

text \<open>What a segment of the sender looks like when it leaves the connection.\<close>

definition conn_stamp :: "tcp_receiver \<Rightarrow> tcp_segment \<Rightarrow> tcp_segment" where
  "conn_stamp r seg = (case rcv_ackno r of None \<Rightarrow> seg
     | Some ackno \<Rightarrow> set_window_size (ucast (rcv_window_size r)) (set_ackno ackno (set_ack True seg)))"

lemma conn_add_ack_info_eq:
  "conn_add_ack_info c seg = (if rcv_ackno (conn_receiver c) = None then Inl Bad_Optional_Access
     else Inr (conn_stamp (conn_receiver c) seg))"
  by (auto simp: conn_add_ack_info_def conn_stamp_def Let_def split: option.splits)

lemma conn_push_ack_eq:
  "conn_push_ack c = (if rcv_ackno (conn_receiver c) = None then Inl Bad_Optional_Access
     else Inr (conn_push (conn_stamp (conn_receiver c) seg_new) c))"
  by (simp add: conn_push_ack_def conn_add_ack_info_eq)

lemma conn_drain_eq:
  assumes "snd_segments_out (conn_sender c) = queue"
  shows "conn_drain queue c = Inr (c\<lparr>conn_sender := (conn_sender c)\<lparr>snd_segments_out := []\<rparr>,
    conn_segments_out := conn_segments_out c @ map (conn_stamp (conn_receiver c)) queue\<rparr>)"
  using assms
proof (induction queue arbitrary: c)
  case Nil
  then show ?case by (cases c; cases "conn_sender c") simp
next
  case (Cons seg queue)
  let ?c = "conn_push (conn_stamp (conn_receiver c) seg)
      (c\<lparr>conn_sender := (conn_sender c)\<lparr>snd_segments_out := queue\<rparr>\<rparr>)"
  have "conn_drain (seg # queue) c = conn_drain queue ?c"
    by (auto simp: Let_def conn_add_ack_info_eq) (simp add: conn_stamp_def)
  also have "\<dots> = Inr (?c\<lparr>conn_sender := (conn_sender ?c)\<lparr>snd_segments_out := []\<rparr>,
      conn_segments_out := conn_segments_out ?c @ map (conn_stamp (conn_receiver ?c)) queue\<rparr>)"
    by (rule Cons.IH) (simp add: conn_push_def)
  finally show ?case by (simp add: conn_push_def)
qed

lemma conn_collect_eq:
  "conn_collect_sender_segments_out c = bind_res (snd_fill_window (conn_sender c)) (\<lambda>s.
     Inr (c\<lparr>conn_sender := s\<lparr>snd_segments_out := []\<rparr>,
       conn_segments_out := conn_segments_out c @ map (conn_stamp (conn_receiver c)) (snd_segments_out s)\<rparr>))"
  by (simp add: conn_collect_sender_segments_out_def conn_drain_eq)

section \<open>The life cycle\<close>

text \<open>
  What holds of every connection, whatever segments arrive: an inactive connection does not linger,
  the two streams are in error together, a connection in error is inactive, and an active one has not
  used up its retransmissions.
\<close>

definition conn_cycle :: "tcp_connection \<Rightarrow> bool" where
  "conn_cycle c \<longleftrightarrow> (\<not> conn_active c \<longrightarrow> \<not> conn_linger_after_streams_finish c)
     \<and> bs_error (snd_stream (conn_sender c)) = bs_error (rcv_stream_out (conn_receiver c))
     \<and> (bs_error (snd_stream (conn_sender c)) \<longrightarrow> \<not> conn_active c)
     \<and> (conn_active c \<longrightarrow> unat (snd_consecutive_retransmission_count (conn_sender c)) \<le> 8)"

text \<open>One step of the life cycle: the invariant is kept, an inactive connection stays inactive and an error
  is permanent. All operations but \<open>end_input_stream\<close> leave the end of the outbound stream alone.\<close>

definition conn_lives :: "tcp_connection \<Rightarrow> tcp_connection \<Rightarrow> bool" where
  "conn_lives c d \<longleftrightarrow> (conn_cycle c \<longrightarrow> conn_cycle d) \<and> (conn_active d \<longrightarrow> conn_active c)
     \<and> (bs_error (snd_stream (conn_sender c)) \<longrightarrow> bs_error (snd_stream (conn_sender d)))
     \<and> snd_isn (conn_sender d) = snd_isn (conn_sender c)
     \<and> (bs_inv (snd_stream (conn_sender c)) \<longrightarrow> bs_inv (snd_stream (conn_sender d)))"

definition conn_goes :: "tcp_connection \<Rightarrow> tcp_connection \<Rightarrow> bool" where
  "conn_goes c d \<longleftrightarrow> conn_lives c d
     \<and> bs_end_flag (snd_stream (conn_sender d)) = bs_end_flag (snd_stream (conn_sender c))"

lemma conn_goes_refl [simp]: "conn_goes c c"
  by (simp add: conn_goes_def conn_lives_def)

lemma conn_lives_trans: "conn_lives a b \<Longrightarrow> conn_lives b c \<Longrightarrow> conn_lives a c"
  by (simp add: conn_lives_def)

lemma conn_goes_trans: "conn_goes a b \<Longrightarrow> conn_goes b c \<Longrightarrow> conn_goes a c"
  by (auto simp: conn_goes_def intro: conn_lives_trans)

lemma conn_goes_bind:
  "bind_res m f = Inr d \<Longrightarrow> (\<And>b. m = Inr b \<Longrightarrow> conn_goes a b) \<Longrightarrow>
    (\<And>b. f b = Inr d \<Longrightarrow> conn_goes b d) \<Longrightarrow> conn_goes a d"
  by (auto simp: bind_res_eq_Inr intro: conn_goes_trans)

text \<open>Replacing the halves by ones that agree on what the life cycle sees.\<close>

lemma conn_goes_halves:
  assumes "conn_active d = conn_active c"
    and "conn_linger_after_streams_finish d \<longrightarrow> conn_linger_after_streams_finish c"
    and "bs_error (snd_stream (conn_sender d)) = bs_error (snd_stream (conn_sender c))"
    and "bs_error (rcv_stream_out (conn_receiver d)) = bs_error (rcv_stream_out (conn_receiver c))"
    and "snd_consecutive_retransmission_count (conn_sender d)
      \<in> {0, snd_consecutive_retransmission_count (conn_sender c)}"
    and "snd_isn (conn_sender d) = snd_isn (conn_sender c)"
    and "bs_inv (snd_stream (conn_sender c)) \<Longrightarrow> bs_inv (snd_stream (conn_sender d))"
    and "bs_end_flag (snd_stream (conn_sender d)) = bs_end_flag (snd_stream (conn_sender c))"
  shows "conn_goes c d"
  using assms by (auto simp: conn_goes_def conn_lives_def conn_cycle_def)

lemma conn_goes_collect: "conn_collect_sender_segments_out c = Inr d \<Longrightarrow> conn_goes c d"
  by (auto simp: conn_collect_eq bind_res_eq_Inr snd_fill_window_frame intro!: conn_goes_halves)

lemma conn_goes_push [simp]: "conn_goes c (conn_push seg c)"
  by (rule conn_goes_halves) (simp_all add: conn_push_def)

lemma conn_goes_push_ack: "conn_push_ack c = Inr d \<Longrightarrow> conn_goes c d"
  by (auto simp: conn_push_ack_eq split: if_splits)

lemma conn_goes_rcv [simp]: "conn_goes c (conn_rcv_segment seg c)"
  by (rule conn_goes_halves) (simp_all add: conn_rcv_segment_def)

lemma conn_goes_snd_ack: "conn_snd_ack seg c = Inr d \<Longrightarrow> conn_goes c d"
proof -
  assume "conn_snd_ack seg c = Inr d"
  then obtain s where s: "snd_ack_received (th_ackno (seg_header seg)) (th_win (seg_header seg)) (conn_sender c) = Inr s"
      and d: "d = c\<lparr>conn_sender := s\<rparr>"
    by (auto simp: conn_snd_ack_def bind_res_eq_Inr)
  show ?thesis
    using snd_ack_received_frame [OF s] by (intro conn_goes_halves) (auto simp: d)
qed

lemma conn_in_active:
  "conn_in c st \<Longrightarrow> st \<noteq> ST_CLOSED \<Longrightarrow> st \<noteq> ST_RESET \<Longrightarrow> conn_active c"
  by (cases st) (auto simp: conn_in_def conn_state_def ts_eq_def ts_of_def)

lemmas conn_goes_calls = conn_goes_collect conn_goes_push_ack conn_goes_snd_ack

lemma conn_collect_active: "conn_collect_sender_segments_out c = Inr d \<Longrightarrow> conn_active d = conn_active c"
  by (auto simp: conn_collect_eq bind_res_eq_Inr)

lemma conn_goes_linger [simp]: "conn_goes c (c\<lparr>conn_linger_after_streams_finish := False\<rparr>)"
  by (rule conn_goes_halves) simp_all

lemma conn_goes_close: "conn_goes c (c\<lparr>conn_linger_after_streams_finish := False, conn_active := False\<rparr>)"
  by (simp add: conn_goes_def conn_lives_def conn_cycle_def)

lemma conn_goes_send [simp]: "conn_goes c (c\<lparr>conn_sender := snd_send seg (conn_sender c)\<rparr>)"
  by (rule conn_goes_halves) (simp_all add: snd_send_def)

text \<open>The two ways in which a branch takes a segment.\<close>

lemma conn_goes_listen:
  assumes "bind_res (conn_connect (conn_rcv_segment seg c)) (\<lambda>c. Inr (c\<lparr>conn_active := True\<rparr>)) = Inr d"
    and "conn_active c"
  shows "conn_goes c d"
proof -
  obtain b where b: "conn_collect_sender_segments_out (conn_rcv_segment seg c) = Inr b"
      and d: "d = b\<lparr>conn_active := True\<rparr>"
    using assms(1) by (auto simp: bind_res_eq_Inr conn_connect_def)
  have "conn_active b" using conn_collect_active [OF b] assms(2) by (simp add: conn_rcv_segment_def)
  then have "d = b" by (simp add: d)
  then show ?thesis using conn_goes_trans [OF conn_goes_rcv conn_goes_collect [OF b]] by simp
qed

lemma conn_goes_rcv_ack: "conn_snd_ack seg (conn_rcv_segment seg c) = Inr d \<Longrightarrow> conn_goes c d"
  by (rule conn_goes_trans [OF conn_goes_rcv conn_goes_snd_ack])

lemma conn_goes_exchange: "conn_exchange seg c = Inr d \<Longrightarrow> conn_goes c d"
  unfolding conn_exchange_def
proof (elim conn_goes_bind)
  fix b
  show "conn_goes c b" if "(if seg_length seg \<noteq> 0 \<or> \<not> th_ack (seg_header seg)
      then let c = conn_rcv_segment seg c
           in bind_res (conn_add_ack_info c seg_new) (\<lambda>ack_seg.
              conn_collect_sender_segments_out (c\<lparr>conn_sender := snd_send ack_seg (conn_sender c)\<rparr>))
      else Inr c) = Inr b"
    using that by (auto simp: Let_def bind_res_eq_Inr split: if_splits
        intro: conn_goes_trans [OF conn_goes_rcv conn_goes_trans [OF conn_goes_send conn_goes_collect]])
  show "conn_goes b d" if "(if th_ack (seg_header seg)
      then bind_res (conn_snd_ack seg b) conn_collect_sender_segments_out else Inr b) = Inr d"
    using that by (auto split: if_splits elim!: conn_goes_bind dest: conn_goes_calls)
qed

lemma conn_goes_dispatch:
  assumes "conn_dispatch seg c = Inr d"
  shows "conn_goes c d"
proof (cases "conn_in c ST_LISTEN \<or> conn_in c ST_SYN_SENT \<or> conn_in c ST_SYN_RCVD")
  case True
  have "conn_goes c d" if "conn_in c ST_LISTEN"
    using assms conn_in_active [OF that] that
    by (auto simp: conn_dispatch_def Let_def split: if_splits intro: conn_goes_listen)
  moreover have "conn_goes c d" if "\<not> conn_in c ST_LISTEN"
    using assms True that
    by (auto simp: conn_dispatch_def Let_def split: if_splits elim!: conn_goes_bind
        dest: conn_goes_rcv_ack conn_goes_push_ack
        intro: conn_goes_trans [OF conn_goes_rcv conn_goes_push_ack])
  ultimately show ?thesis by blast
next
  case early: False
  show ?thesis
  proof (cases "conn_in c ST_ESTABLISHED \<or> conn_in c ST_FIN_WAIT_1")
    case True
    then show ?thesis using assms early
      by (auto simp: conn_dispatch_def Let_def split: if_splits
          intro: conn_goes_exchange conn_goes_trans [OF conn_goes_linger conn_goes_exchange])
  next
    case False
    then show ?thesis using assms early
      by (auto simp: conn_dispatch_def conn_closing_def Let_def bind_res_eq_Inr split: if_splits
          intro: conn_goes_trans [OF conn_goes_rcv_ack] conn_goes_trans [OF conn_goes_snd_ack] conn_goes_close
          dest: conn_goes_calls)
  qed
qed

lemma conn_goes_keep_alive:
  assumes "conn_keep_alive seg c = Inr d"
  shows "conn_goes c d"
proof -
  have "conn_goes c (c\<lparr>conn_sender := snd_send_empty_segment (conn_sender c)\<rparr>)"
    by (rule conn_goes_halves) (simp_all add: snd_send_empty_segment_def snd_send_def)
  then show ?thesis using assms
    by (auto simp: conn_keep_alive_def split: option.splits if_splits
        dest!: conn_goes_collect intro: conn_goes_trans)
qed

lemma bs_flags_same: "bs_end_flag (bs_set_error s) = bs_end_flag s" "bs_error (bs_end_input s) = bs_error s"
  by (simp_all add: bs_set_error_def bs_end_input_def)

lemma conn_set_errors_cycle: "conn_cycle (conn_set_errors c)"
  by (simp add: conn_cycle_def conn_set_errors_def snd_set_error_def rcv_set_error_def rcv_stream_out_def
      bs_set_error_def)

lemma conn_set_errors_in_reset: "conn_in (conn_set_errors c) ST_RESET"
  by (simp add: conn_in_def conn_state_def ts_eq_def ts_of_def conn_set_errors_def snd_set_error_def
      rcv_set_error_def rcv_state_summary_def snd_state_summary_def rcv_stream_out_def bs_set_error_def)

lemma conn_goes_set_errors [simp]: "conn_goes c (conn_set_errors c)"
  using conn_set_errors_cycle [of c]
  by (simp add: conn_goes_def conn_lives_def)
    (simp add: conn_set_errors_def snd_set_error_def bs_flags_same)

lemma conn_goes_unclean [simp]: "conn_goes c (conn_unclean_shutdown c)"
  unfolding conn_unclean_shutdown_def by (rule conn_goes_trans [OF conn_goes_set_errors conn_goes_push])

lemma conn_goes_segment_received: "conn_segment_received seg c = Inr d \<Longrightarrow> conn_goes c d"
proof -
  assume run: "conn_segment_received seg c = Inr d"
  let ?c = "c\<lparr>conn_time_since_last_segment_received := 0\<rparr>"
  have "conn_goes c ?c" by (rule conn_goes_halves) simp_all
  moreover have "conn_goes ?c d"
    using run by (auto simp: conn_segment_received_def conn_reset_received_def Let_def split: if_splits
        elim!: conn_goes_bind dest: conn_goes_dispatch conn_goes_keep_alive)
  ultimately show ?thesis by (rule conn_goes_trans)
qed

text \<open>A tick may count one retransmission, and gives up on the ninth.\<close>

lemma snd_tick_frame:
  "snd_stream (snd_tick ms s) = snd_stream s" "snd_isn (snd_tick ms s) = snd_isn s"
  "snd_consecutive_retransmission_count (snd_tick ms s) \<in>
     {snd_consecutive_retransmission_count s, snd_consecutive_retransmission_count s + 1}"
  by (simp_all add: snd_tick_eq Let_def snd_send_def split: list.splits)

lemma conn_within_retransmissions:
  assumes "unat (snd_consecutive_retransmission_count s) \<le> 8"
    and "\<not> snd_consecutive_retransmissions (snd_tick ms s) > MAX_RETX_ATTEMPTS"
  shows "unat (snd_consecutive_retransmission_count (snd_tick ms s)) \<le> 8"
proof -
  let ?n = "snd_consecutive_retransmission_count (snd_tick ms s)"
  have "unat (snd_consecutive_retransmission_count s + 1) \<le> 9"
    using assms(1) by (simp add: unat_word_ariths)
  then have "unat ?n \<le> 9" using snd_tick_frame(3) [of ms s] assms(1) by auto
  then have "unat (ucast ?n :: uint32) = unat ?n" by (intro unat_rto) simp
  then show ?thesis
    using assms(2) by (simp add: snd_consecutive_retransmissions_def MAX_RETX_ATTEMPTS_def word_less_nat_alt)
qed

lemma conn_goes_tick_sender:
  assumes "\<not> snd_consecutive_retransmissions (snd_tick ms (conn_sender c)) > MAX_RETX_ATTEMPTS"
  shows "conn_goes c (c\<lparr>conn_sender := snd_tick ms (conn_sender c)\<rparr>)"
  using conn_within_retransmissions [OF _ assms] by (simp add: conn_goes_def conn_lives_def conn_cycle_def snd_tick_frame)

text \<open>The state in which a tick reaches the sender.\<close>

definition conn_aged :: "size_t \<Rightarrow> tcp_connection \<Rightarrow> tcp_connection" where
  "conn_aged ms c =
     (let c = c\<lparr>conn_time_since_last_segment_received := conn_time_since_last_segment_received c + ms\<rparr>
      in if conn_in c ST_TIME_WAIT \<and> conn_linger_after_streams_finish c
            \<and> conn_time_since_last_segment_received c \<ge> 10 * ucast (cfg_rt_timeout (conn_cfg c))
         then c\<lparr>conn_linger_after_streams_finish := False, conn_active := False\<rparr> else c)"

definition conn_ticking :: "tcp_connection \<Rightarrow> bool" where
  "conn_ticking c \<longleftrightarrow> conn_in c ST_ESTABLISHED \<or> conn_in c ST_SYN_SENT \<or> conn_in c ST_SYN_RCVD
     \<or> conn_in c ST_FIN_WAIT_1 \<or> conn_in c ST_CLOSE_WAIT \<or> conn_in c ST_LAST_ACK \<or> conn_in c ST_CLOSING"

lemma conn_in_time [simp]: "conn_in (c\<lparr>conn_time_since_last_segment_received := t\<rparr>) st = conn_in c st"
  by (simp add: conn_in_def conn_state_def)

lemma conn_tick_eq:
  fixes c :: tcp_connection and ms :: size_t
  defines "d \<equiv> (conn_aged ms c)\<lparr>conn_sender := snd_tick ms (conn_sender c)\<rparr>"
  shows "conn_tick ms c = (if snd_consecutive_retransmissions (conn_sender d) > MAX_RETX_ATTEMPTS
    then Inr (conn_unclean_shutdown d)
    else if conn_ticking c then conn_collect_sender_segments_out d else Inr d)"
  by (simp add: d_def conn_tick_def conn_aged_def conn_ticking_def Let_def)

lemma conn_goes_aged: "conn_goes c (conn_aged ms c)" "conn_sender (conn_aged ms c) = conn_sender c"
proof -
  have "conn_goes c (c\<lparr>conn_time_since_last_segment_received := t\<rparr>)" for t
    by (rule conn_goes_halves) simp_all
  then show "conn_goes c (conn_aged ms c)"
    by (auto simp: conn_aged_def Let_def intro: conn_goes_trans conn_goes_close)
  show "conn_sender (conn_aged ms c) = conn_sender c" by (simp add: conn_aged_def Let_def)
qed

lemma conn_goes_tick:
  assumes "conn_tick ms c = Inr d"
  shows "conn_goes c d"
proof -
  let ?a = "conn_aged ms c"
  let ?c = "?a\<lparr>conn_sender := snd_tick ms (conn_sender c)\<rparr>"
  show ?thesis
  proof (cases "snd_consecutive_retransmissions (snd_tick ms (conn_sender c)) > MAX_RETX_ATTEMPTS")
    case True
    then have "d = conn_unclean_shutdown ?c" using assms by (simp add: conn_tick_eq)
    then show ?thesis
      using conn_set_errors_cycle [of ?c]
      by (simp add: conn_goes_def conn_lives_def conn_unclean_shutdown_def conn_push_def conn_cycle_def)
        (simp add: conn_set_errors_def snd_set_error_def snd_tick_frame)
  next
    case False
    then have "conn_goes c ?c"
      using conn_goes_trans [OF conn_goes_aged(1) [of c ms] conn_goes_tick_sender [of ms ?a]]
      by (simp add: conn_goes_aged(2))
    then show ?thesis using assms False
      by (auto simp: conn_tick_eq split: if_splits intro: conn_goes_trans conn_goes_collect)
  qed
qed

section \<open>Reachable connections\<close>

text \<open>What the owner, the network and the clock may do to a connection. \<open>Ev_Pop\<close> takes a segment from
  the queue that \<open>segments_out\<close> returns.\<close>

datatype conn_event = Ev_Connect | Ev_Write bytes | Ev_End_Input | Ev_Read size_t
  | Ev_Segment tcp_segment | Ev_Tick size_t | Ev_Pop

definition conn_pop :: "tcp_connection \<Rightarrow> tcp_connection" where
  "conn_pop c = c\<lparr>conn_segments_out := tl (conn_segments_out c)\<rparr>"

inductive conn_step :: "tcp_connection \<Rightarrow> conn_event \<Rightarrow> tcp_connection \<Rightarrow> bool" where
  connect: "conn_connect c = Inr d \<Longrightarrow> conn_step c Ev_Connect d"
| writing: "conn_write data c = Inr (d, n) \<Longrightarrow> conn_step c (Ev_Write data) d"
| end_input: "conn_end_input_stream c = Inr d \<Longrightarrow> conn_step c Ev_End_Input d"
| reading: "conn_read len c = (d, ret) \<Longrightarrow> conn_step c (Ev_Read len) d"
| segment: "conn_segment_received seg c = Inr d \<Longrightarrow> conn_step c (Ev_Segment seg) d"
| tick: "conn_tick ms c = Inr d \<Longrightarrow> conn_step c (Ev_Tick ms) d"
| pop: "conn_segments_out c \<noteq> [] \<Longrightarrow> conn_step c Ev_Pop (conn_pop c)"

inductive conn_reach :: "tcp_connection \<Rightarrow> tcp_connection \<Rightarrow> bool" for c where
  start: "conn_reach c c"
| more: "conn_reach c d \<Longrightarrow> conn_step d ev e \<Longrightarrow> conn_reach c e"

inductive_cases conn_step_elims: "conn_step c Ev_Connect d" "conn_step c (Ev_Write data) d"
  "conn_step c Ev_End_Input d" "conn_step c (Ev_Read len) d" "conn_step c (Ev_Segment seg) d"
  "conn_step c (Ev_Tick ms) d" "conn_step c Ev_Pop d"

inductive_simps conn_step_segment: "conn_step c (Ev_Segment seg) d"

lemma conn_goes_write:
  assumes "conn_write data c = Inr (d, n)"
  shows "conn_goes c d"
proof -
  obtain s where s: "snd_write data (conn_sender c) = (s, n)"
      and d: "conn_collect_sender_segments_out (c\<lparr>conn_sender := s\<rparr>) = Inr d"
    using assms by (auto simp: conn_write_def bind_res_eq_Inr split: prod.splits)
  have "conn_goes c (c\<lparr>conn_sender := s\<rparr>)"
    using s bs_write_frame(2,3) [of "snd_stream (conn_sender c)" data] ring.invar_write [of "snd_stream (conn_sender c)" data]
    by (cases "bs_write (snd_stream (conn_sender c)) data")
      (auto simp: snd_write_def intro!: conn_goes_halves)
  then show ?thesis using conn_goes_collect [OF d] by (rule conn_goes_trans)
qed

lemma conn_goes_end_input:
  "conn_end_input_stream c = Inr d \<Longrightarrow> conn_goes (c\<lparr>conn_sender := snd_end_input (conn_sender c)\<rparr>) d"
  by (auto simp: conn_end_input_stream_def intro: conn_goes_collect)

lemma conn_lives_end_input:
  assumes "conn_end_input_stream c = Inr d"
  shows "conn_lives c d"
proof -
  have "conn_lives c (c\<lparr>conn_sender := snd_end_input (conn_sender c)\<rparr>)"
    by (simp add: conn_lives_def conn_cycle_def snd_end_input_def bs_flags_same)
  moreover have "conn_lives (c\<lparr>conn_sender := snd_end_input (conn_sender c)\<rparr>) d"
    using conn_goes_end_input [OF assms] by (simp add: conn_goes_def)
  ultimately show ?thesis by (rule conn_lives_trans)
qed

lemma conn_goes_read: "conn_read len c = (d, ret) \<Longrightarrow> conn_goes c d"
  by (rule conn_goes_halves) (auto simp: conn_read_def rcv_read_def sr_read_def rcv_stream_out_def
      bs_read_def bs_pop_output_def Let_def split: prod.splits if_splits)

lemma conn_goes_step: "conn_step c ev d \<Longrightarrow> ev \<noteq> Ev_End_Input \<Longrightarrow> conn_goes c d"
proof (induction rule: conn_step.induct)
  case (pop c)
  show ?case by (rule conn_goes_halves) (simp_all add: conn_pop_def)
qed (auto simp: conn_connect_def intro: conn_goes_collect conn_goes_write conn_goes_read
    conn_goes_segment_received conn_goes_tick)

lemma conn_lives_step: "conn_step c ev d \<Longrightarrow> conn_lives c d"
  using conn_goes_step [of c ev d] conn_lives_end_input [of c d]
  by (cases "ev = Ev_End_Input") (auto simp: conn_goes_def elim: conn_step_elims)

lemma conn_lives_reach: "conn_reach c d \<Longrightarrow> conn_lives c d"
  by (induction rule: conn_reach.induct) (auto simp: conn_lives_def dest: conn_lives_step)

lemma conn_new_cycle: "conn_cycle (conn_new random cfg)"
  by (simp add: conn_cycle_def conn_new_def snd_new_def rcv_new_def rcv_stream_out_def sr_new_def bs_new_def)

section \<open>Giving up and closing\<close>

text \<open>Runs compare states instead of their names.\<close>

lemma conn_in_shown [code]:
  "conn_in c st \<longleftrightarrow> state_halves st = (snd_shown (conn_sender c), rcv_state (conn_receiver c), conn_active c,
    conn_active c \<and> conn_linger_after_streams_finish c)"
  by (simp add: conn_in_def conn_state_def ts_eq_shown)

lemma conn_in_halves:
  assumes "snd_inv W (conn_sender c)"
  shows "conn_in c st \<longleftrightarrow> state_halves st = (snd_state (conn_sender c), rcv_state (conn_receiver c),
    conn_active c, conn_active c \<and> conn_linger_after_streams_finish c)"
  unfolding conn_in_def conn_state_def by (rule ts_eq_halves [OF snd_inv_summary [OF assms]])

text \<open>Once the FIN is acknowledged nothing is outstanding.\<close>

lemma snd_fin_acked_buffer:
  assumes inv: "snd_inv W s" and "snd_state s = SND_FIN_ACKED"
  shows "win_buffer (snd_window s) = []"
proof -
  have ok: "snd_stream_ok W s" "win_inv (snd_window s)" "snd_window_ok s"
    using inv unfolding snd_inv_def snd_window_ok_def by blast+
  have le: "snd_bytes_in_flight s \<le> snd_next_seqno_absolute s"
      "bs_eof (snd_stream s) \<longrightarrow> snd_next_seqno_absolute s \<le> bs_bytes_written (snd_stream s) + 2"
    by (rule snd_inv_counters [OF inv])+
  have "\<not> 0 < snd_bytes_in_flight s"
    using assms(2) le by (auto simp: snd_state_def word_gt_0 split: if_splits)
  then have "win_bytes_in_flight (snd_window s) = 0" by (simp add: snd_bytes_in_flight_def word_gt_0)
  then show ?thesis using win_inv_first(3) [OF ok(2)] by (simp add: win_bytes_in_flight_def)
qed

lemma snd_tick_idle: "win_buffer (snd_window s) = [] \<Longrightarrow> snd_tick ms s = s"
  by (cases s; cases "snd_window s") (simp add: snd_tick_eq win_tick_eq)

lemma conn_tick_gives_up:
  assumes "snd_consecutive_retransmission_count (conn_sender c) = 8"
    and "ss \<in> set (win_buffer (snd_window (conn_sender c)))" and "ss_expired ms ss"
  shows "conn_tick ms c = Inr (conn_unclean_shutdown
    ((conn_aged ms c)\<lparr>conn_sender := snd_tick ms (conn_sender c)\<rparr>))"
proof -
  have "filter (ss_expired ms) (win_buffer (snd_window (conn_sender c))) \<noteq> []"
    using assms(2,3) by (auto simp: filter_empty_conv)
  then have "snd_consecutive_retransmission_count (snd_tick ms (conn_sender c)) = 9"
    using assms(1) by (auto simp: snd_tick_eq Let_def snd_send_def split: list.splits)
  then show ?thesis by (simp add: conn_tick_eq snd_consecutive_retransmissions_def MAX_RETX_ATTEMPTS_def)
qed

section \<open>Properties\<close>

text \<open>
  (C4) The life cycle of a connection, whatever the peer, the application and the clock do to it: an
  inactive connection has stopped lingering, both streams are in error or none is, a connection in
  error is inactive, an active connection has at most \<open>MAX_RETX_ATTEMPTS\<close> consecutive
  retransmissions behind it, and a connection that has become inactive never becomes active again.
\<close>

theorem tcp_connection_lifecycle:
  assumes "conn_reach (conn_new random cfg) c"
  shows "(\<not> conn_active c \<longrightarrow> \<not> conn_linger_after_streams_finish c)
    \<and> (bs_error (snd_stream (conn_sender c)) \<longleftrightarrow> bs_error (rcv_stream_out (conn_receiver c)))
    \<and> (bs_error (snd_stream (conn_sender c)) \<longrightarrow> \<not> conn_active c)
    \<and> (conn_active c \<longrightarrow> snd_consecutive_retransmissions (conn_sender c) \<le> MAX_RETX_ATTEMPTS)
    \<and> (\<not> conn_active c \<longrightarrow> (\<forall>d. conn_reach c d \<longrightarrow> \<not> conn_active d))"
proof (intro conjI)
  have cyc: "conn_cycle c" using conn_lives_reach [OF assms] conn_new_cycle by (simp add: conn_lives_def)
  then show "\<not> conn_active c \<longrightarrow> \<not> conn_linger_after_streams_finish c"
    and "bs_error (snd_stream (conn_sender c)) \<longleftrightarrow> bs_error (rcv_stream_out (conn_receiver c))"
    and "bs_error (snd_stream (conn_sender c)) \<longrightarrow> \<not> conn_active c"
    by (simp_all add: conn_cycle_def)
  have "unat (ucast (snd_consecutive_retransmission_count (conn_sender c)) :: uint32) \<le> 8" if "conn_active c"
    using cyc that by (subst unat_rto) (simp_all add: conn_cycle_def)
  then show "conn_active c \<longrightarrow> snd_consecutive_retransmissions (conn_sender c) \<le> MAX_RETX_ATTEMPTS"
    by (simp add: snd_consecutive_retransmissions_def MAX_RETX_ATTEMPTS_def word_le_nat_alt)
  show "\<not> conn_active c \<longrightarrow> (\<forall>d. conn_reach c d \<longrightarrow> \<not> conn_active d)"
    using conn_lives_reach [of c] by (auto simp: conn_lives_def)
qed

theorem tcp_connection_lifecycle_witness:
  "\<exists>c. conn_reach (conn_new 7 cfg_default) c \<and> \<not> conn_active c \<and> (\<forall>d. conn_reach c d \<longrightarrow> \<not> conn_active d)"
proof -
  let ?c = "conn_reset_received (conn_new 7 cfg_default)"
  have reach: "conn_reach (conn_new 7 cfg_default) ?c"
    by (rule conn_reach.more [OF conn_reach.start, of _ "Ev_Segment (set_rst True seg_new)"])
      (simp add: conn_step_segment conn_segment_received_def, simp add: conn_new_def)
  have "\<not> conn_active ?c" by (simp add: conn_reset_received_def conn_set_errors_def)
  then show ?thesis using reach tcp_connection_lifecycle [OF reach] by blast
qed

text \<open>
  A segment with the RST flag resets the connection, whatever its state: the state is RESET, both
  streams are in error, nothing is sent in reply, and nothing is thrown.
\<close>

theorem tcp_connection_reset_received:
  assumes "th_rst (seg_header seg)"
  shows "\<exists>d. conn_segment_received seg c = Inr d \<and> conn_in d ST_RESET
    \<and> bs_error (snd_stream (conn_sender d)) \<and> bs_error (rcv_stream_out (conn_receiver d))
    \<and> conn_segments_out d = conn_segments_out c"
  using assms
  by (simp add: conn_segment_received_def conn_reset_received_def conn_set_errors_in_reset)
    (simp add: conn_set_errors_def snd_set_error_def rcv_set_error_def rcv_stream_out_def bs_set_error_def)

theorem tcp_connection_reset_received_witness:
  "\<exists>d. conn_segment_received (set_rst True seg_new) (conn_new 7 cfg_default) = Inr d \<and> conn_in d ST_RESET"
  using tcp_connection_reset_received [of "set_rst True seg_new" "conn_new 7 cfg_default"] by auto

text \<open>
  (C22) A connection gives up on a silent peer: when \<open>MAX_RETX_ATTEMPTS\<close> retransmissions in a row have
  gone unanswered and the timer of an outstanding segment expires again, the tick puts the connection
  into RESET, with both streams in error, and queues a segment with the RST flag behind what was
  already queued; it throws nothing.
\<close>

theorem tcp_connection_gives_up:
  assumes "snd_consecutive_retransmission_count (conn_sender c) = 8"
    and "ss \<in> set (win_buffer (snd_window (conn_sender c)))" and "unat (ss_remaining_rto ss) \<le> unat ms"
  shows "\<exists>d. conn_tick ms c = Inr d \<and> conn_in d ST_RESET
    \<and> bs_error (snd_stream (conn_sender d)) \<and> bs_error (rcv_stream_out (conn_receiver d))
    \<and> conn_segments_out d = conn_segments_out c @ [set_rst True seg_new]"
proof -
  have "ss_expired ms ss" using assms(3) by (simp add: ss_expired_def)
  note run = conn_tick_gives_up [OF assms(1,2) this]
  show ?thesis unfolding run conn_unclean_shutdown_def
    using conn_set_errors_in_reset [of "(conn_aged ms c)\<lparr>conn_sender := snd_tick ms (conn_sender c)\<rparr>"]
    by (simp add: conn_push_def conn_in_def conn_state_def)
      (simp add: conn_set_errors_def snd_set_error_def rcv_set_error_def rcv_stream_out_def bs_set_error_def
        conn_aged_def Let_def)
qed

theorem tcp_connection_gives_up_witness:
  "\<exists>c d. conn_tick 1000 c = Inr d \<and> conn_in d ST_RESET \<and> conn_active c
    \<and> conn_segments_out d = conn_segments_out c @ [set_rst True seg_new]"
proof -
  let ?ss = "\<lparr>ss_segment = set_syn True seg_new, ss_remaining_rto = 1000\<rparr>"
  let ?c = "(conn_new 0 cfg_default)\<lparr>conn_sender := (snd_new 0 10 1000 None)\<lparr>
      snd_consecutive_retransmission_count := 8, snd_window := (win_new (WrappingInt32 0) 1)\<lparr>
        win_buffer := [?ss], win_next_seqno := 1\<rparr>\<rparr>\<rparr>"
  have "\<exists>d. conn_tick 1000 ?c = Inr d \<and> conn_in d ST_RESET
      \<and> bs_error (snd_stream (conn_sender d)) \<and> bs_error (rcv_stream_out (conn_receiver d))
      \<and> conn_segments_out d = conn_segments_out ?c @ [set_rst True seg_new]"
    by (rule tcp_connection_gives_up [of _ ?ss]) simp_all
  moreover have "conn_active ?c" by (simp add: conn_new_def)
  ultimately show ?thesis by blast
qed

text \<open>
  (C23) Lingering ends on time: in TIME_WAIT a tick sends nothing; if the time without a segment has
  reached ten initial retransmission timeouts the connection is CLOSED and inactive afterwards, and
  otherwise it is still in TIME_WAIT.
\<close>

theorem tcp_connection_lingers:
  assumes "snd_inv W (conn_sender c)" and "conn_in c ST_TIME_WAIT"
    and "snd_consecutive_retransmissions (conn_sender c) \<le> MAX_RETX_ATTEMPTS"
  shows "\<exists>d. conn_tick ms c = Inr d \<and> conn_segments_out d = conn_segments_out c
    \<and> (if 10 * ucast (cfg_rt_timeout (conn_cfg c)) \<le> conn_time_since_last_segment_received c + ms
       then conn_in d ST_CLOSED \<and> \<not> conn_active d else conn_in d ST_TIME_WAIT)"
proof -
  have h: "snd_state (conn_sender c) = SND_FIN_ACKED" "rcv_state (conn_receiver c) = RCV_FIN_RECV"
      "conn_active c" "conn_linger_after_streams_finish c"
    using assms(2) unfolding conn_in_halves [OF assms(1)] by auto
  have t: "snd_tick ms (conn_sender c) = conn_sender c"
    using snd_fin_acked_buffer [OF assms(1) h(1)] by (rule snd_tick_idle)
  have "\<not> conn_ticking c" using h by (simp add: conn_ticking_def conn_in_halves [OF assms(1)])
  then have "conn_tick ms c = Inr (conn_aged ms c)"
    using assms(3) t by (simp add: conn_tick_eq conn_goes_aged(2) not_less [symmetric])
  moreover have "conn_sender (conn_aged ms c) = conn_sender c" by (rule conn_goes_aged(2))
  ultimately show ?thesis
    using h assms(2) conn_in_halves [of W "conn_aged ms c"] assms(1)
    by (auto simp: conn_aged_def Let_def)
qed

theorem tcp_connection_lingers_witness:
  "\<exists>c d. conn_in c ST_TIME_WAIT \<and> conn_tick 10000 c = Inr d \<and> conn_in d ST_CLOSED"
proof -
  let ?s = "(snd_new 0 10 1000 None)\<lparr>snd_stream := bs_end_input (bs_new 10),
      snd_window := (win_new (WrappingInt32 0) 1)\<lparr>win_first_seqno := 2, win_next_seqno := 2\<rparr>\<rparr>"
  let ?r = "(rcv_new 10)\<lparr>rcv_is_set := True, rcv_reassembler := (sr_new 10)\<lparr>sr_output := bs_end_input (bs_new 10)\<rparr>\<rparr>"
  let ?c = "(conn_new 0 cfg_default)\<lparr>conn_sender := ?s, conn_receiver := ?r\<rparr>"
  have bs: "bs_inv (bs_new 10)" "bs_contents (bs_new 10) = []" "bs_eof (bs_end_input (bs_new 10))"
    using bs_new_correct [of 10] by (simp_all add: bs_eof_def bs_end_input_def bs_new_def bs_buffer_empty_def)
  have cnt: "bs_bytes_read (bs_end_input (bs_new 10)) = 0" "bs_bytes_written (bs_end_input (bs_new 10)) = 0"
    by (simp_all add: bs_end_input_def bs_new_def)
  have "win_from 2 (snd_window ?s)" by (simp add: win_from_def win_new_def)
  then have "win_inv (snd_window ?s)" unfolding win_inv_def ..
  then have inv: "snd_inv [] ?s" using bs cnt
    by (simp add: snd_inv_def snd_stream_ok_def snd_window_ok_def snd_new_def win_new_def)
  have tw: "conn_in ?c ST_TIME_WAIT"
    using bs(3) by (subst conn_in_halves [of "[]"]) (use inv in \<open>simp_all add: conn_new_def snd_state_def
      snd_next_seqno_absolute_def snd_bytes_in_flight_def win_bytes_in_flight_def rcv_state_def rcv_stream_out_def
      bs_input_ended_def rcv_ackno_def bs_end_input_def bs_new_def win_new_def\<close>)
  have "\<exists>d. conn_tick 10000 ?c = Inr d \<and> conn_segments_out d = conn_segments_out ?c
    \<and> (if 10 * ucast (cfg_rt_timeout (conn_cfg ?c)) \<le> conn_time_since_last_segment_received ?c + 10000
       then conn_in d ST_CLOSED \<and> \<not> conn_active d else conn_in d ST_TIME_WAIT)"
    by (rule tcp_connection_lingers [of "[]"])
      (use inv tw in \<open>simp_all add: snd_consecutive_retransmissions_def MAX_RETX_ATTEMPTS_def snd_new_def\<close>)
  then show ?thesis using tw by (auto simp: conn_new_def cfg_default_def TIMEOUT_DFLT_def)
qed

end
