(* ===== verification/TCP_Handshake.thy ===== *)
theory TCP_Handshake
  imports TCP_Connection
begin

text \<open>
  Two connections that open: the operations of \<open>tcp_connection.cc\<close> run against each other for the
  three-way handshake, for any initial sequence numbers and any configurations.
\<close>

section \<open>The halves during the handshake\<close>

text \<open>A SYN, or an empty segment, leaves an unused reassembler as it is.\<close>

lemma vec_resize_replicate [simp]: "vec_resize n x (replicate n x) = replicate n x"
  by (simp add: vec_resize_def)

lemma sr_push_nothing: "sr_push_substring (sr_new cap) [] index False = sr_new cap"
proof -
  have "sr_update_size (sr_new cap) = sr_new cap"
    by (simp add: sr_update_size_def sr_new_def bs_new_def Let_def)
  moreover have "sr_drain 0 (sr_new cap) [] = (sr_new cap, [])"
    by (simp add: sr_drain.simps sr_new_def vec_read_def)
  moreover have "fst (bs_write (sr_output (sr_new cap)) []) = sr_output (sr_new cap)"
    by (simp add: bs_write_def sr_new_def)
  ultimately show ?thesis
    by (simp add: sr_push_substring_def sr_update_output_def Let_def)
qed

text \<open>The receiver after the peer's SYN.\<close>

definition rcv_synced :: "size_t \<Rightarrow> WrappingInt32 \<Rightarrow> tcp_receiver" where
  "rcv_synced cap isn = (rcv_new cap)\<lparr>rcv_isn := raw_value isn, rcv_is_set := True, rcv_checkpoint := 1\<rparr>"

lemma unwrap_isn_zero: "unwrap isn isn 0 = 0"
  using seqno.dec_enc [of 0 0 isn] by (simp add: seq_near_def seq_dist_def nat_dist_def)

lemma rcv_syn:
  assumes "th_syn (seg_header seg)" and "\<not> th_fin (seg_header seg)" and "buf_str (seg_payload seg) = []"
  shows "rcv_segment_received (rcv_new cap) seg = rcv_synced cap (th_seqno (seg_header seg))"
  using assms unwrap_isn_zero [of "th_seqno (seg_header seg)"]
  by (simp add: rcv_segment_received_def rcv_update_checkpoint_def rcv_synced_def rcv_new_def sr_push_nothing
      Let_def seg_length_def sr_left_def)

lemma rcv_bare:
  assumes "seg_bare seg"
  shows "rcv_segment_received (rcv_synced cap isn) seg = rcv_synced cap isn"
proof -
  have "sr_first_unassembled (sr_new cap) = 0" by (simp add: sr_new_def)
  then show ?thesis using assms seg_bare_length [OF assms]
    by (simp add: rcv_segment_received_def rcv_update_checkpoint_def rcv_synced_def rcv_new_def sr_push_nothing
        Let_def sr_left_def seg_bare_def)
qed

lemma rcv_synced_state:
  "rcv_ackno (rcv_synced cap isn) = Some (wrap 1 isn)" "rcv_state (rcv_synced cap isn) = RCV_SYN_RECV"
  by (cases isn; simp add: rcv_synced_def rcv_ackno_def rcv_state_def rcv_stream_out_def rcv_new_def sr_new_def
      bs_new_def bs_input_ended_def)+

text \<open>A sender whose SYN, with initial sequence number \<open>isn\<close>, is outstanding, and one whose SYN has been
  acknowledged; \<open>s\<close> is the sender that was made by the constructor.\<close>

definition syn_seg :: "WrappingInt32 \<Rightarrow> tcp_segment" where
  "syn_seg isn = set_seqno isn (set_syn True seg_new)"

definition snd_syn_out :: "tcp_sender \<Rightarrow> tcp_sender" where
  "snd_syn_out s = s\<lparr>snd_window := (snd_window s)\<lparr>win_next_seqno := 1,
     win_buffer := [\<lparr>ss_segment = syn_seg (snd_isn s), ss_remaining_rto = ucast (snd_rto s)\<rparr>]\<rparr>\<rparr>"

definition snd_syn_acked :: "uint16 \<Rightarrow> tcp_sender \<Rightarrow> tcp_sender" where
  "snd_syn_acked ws s = s\<lparr>snd_window_size_is_zero := (ws = 0),
     snd_rto := ucast (snd_initial_retransmission_timeout s),
     snd_window := (snd_window s)\<lparr>win_next_seqno := 1, win_first_seqno := 1, win_window_size := ucast (max ws 1)\<rparr>,
     snd_consecutive_retransmission_count := 0\<rparr>"

definition snd_fresh :: "tcp_sender \<Rightarrow> bool" where
  "snd_fresh s \<longleftrightarrow> (\<exists>cap. snd_stream s = bs_new cap) \<and> (\<exists>isn. snd_window s = win_new isn 1)
     \<and> snd_segments_out s = [] \<and> snd_consecutive_retransmission_count s = 0"

lemma snd_fresh_new: "snd_fresh (snd_new random cap rt isn)"
  by (auto simp: snd_fresh_def snd_new_def)

lemma snd_fill_quiet:
  assumes "snd_stream s = bs_new cap" and "win_next_seqno (snd_window s) \<noteq> 0"
  shows "snd_fill_window s = Inr s"
  using assms by (simp add: snd_fill_window_def snd_state_def snd_next_seqno_absolute_def
      snd_fill_loop.simps [of s] bs_new_def bs_buffer_empty_def bs_eof_def)

lemma snd_fill_fresh:
  assumes "snd_fresh s"
  shows "snd_fill_window s = Inr ((snd_syn_out s)\<lparr>snd_segments_out := [syn_seg (snd_isn s)]\<rparr>)"
proof -
  obtain cap isn where s: "snd_stream s = bs_new cap" "snd_window s = win_new isn 1" "snd_segments_out s = []"
    using assms by (auto simp: snd_fresh_def)
  let ?t = "(snd_syn_out s)\<lparr>snd_segments_out := [syn_seg (snd_isn s)]\<rparr>"
  have closed: "snd_state s = SND_CLOSED"
    using s by (simp add: snd_state_def bs_new_def snd_next_seqno_absolute_def win_new_def)
  have add: "win_add_segment (syn_seg isn) r (win_new isn 1) = Inr ((win_new isn 1)\<lparr>win_next_seqno := 1,
      win_buffer := [\<lparr>ss_segment = syn_seg isn, ss_remaining_rto = r\<rparr>]\<rparr>)" for r
    by (subst win_add_segment_eq) (simp_all add: win_new_def win_full_def win_window_closed_def
        win_buffer_empty_def syn_seg_def seg_length_def seg_new_def th_new_def)
  have "snd_fill_window s = snd_fill_loop ?t"
    using closed s add by (simp add: snd_fill_window_def Let_def snd_send_def snd_syn_out_def)
      (simp add: syn_seg_def win_new_def)
  also have "\<dots> = snd_fill_window ?t"
    using s by (simp add: snd_fill_window_def snd_state_def snd_syn_out_def snd_next_seqno_absolute_def)
  also have "\<dots> = Inr ?t"
    using s by (intro snd_fill_quiet) (simp_all add: snd_syn_out_def)
  finally show ?thesis .
qed

lemma snd_ack_syn:
  assumes "snd_fresh s"
  shows "snd_ack_received (wrap 1 (snd_isn s)) ws (snd_syn_out s) = Inr (snd_syn_acked ws s)"
proof -
  obtain cap isn where s: "snd_stream s = bs_new cap" "snd_window s = win_new isn 1"
      "snd_consecutive_retransmission_count s = 0"
    using assms by (auto simp: snd_fresh_def)
  have "unwrap (wrap 1 isn) isn 1 = 1"
    by (rule seqno.dec_enc) (simp add: seq_near_def seq_dist_def nat_dist_def)
  moreover have "unwrap isn isn 1 = 0"
    using seqno.dec_enc [of 0 1 isn] by (simp add: seq_near_def seq_dist_def nat_dist_def)
  ultimately have "win_ack_received (wrap 1 isn) (max ws 1) (snd_window (snd_syn_out s))
      = Inr (True, (win_new isn 1)\<lparr>win_next_seqno := 1, win_first_seqno := 1, win_window_size := ucast (max ws 1)\<rparr>)"
    by (simp add: snd_syn_out_def s win_ack_received_def Let_def win_new_def ss_seqno_def syn_seg_def
        seg_length_def seg_new_def th_new_def win_advance_def win_shrink_front_def win_expand_back_def
        win_set_window_size_def)
  then have "snd_ack_received (wrap 1 (snd_isn s)) ws (snd_syn_out s) = snd_fill_window (snd_syn_acked ws s)"
    using s by (simp add: snd_ack_received_def Let_def snd_syn_acked_def snd_syn_out_def win_reset_timer_def win_new_def)
  then show ?thesis using s by (simp add: snd_fill_quiet snd_syn_acked_def)
qed

lemma snd_hs_state:
  assumes "snd_fresh s"
  shows "snd_state s = SND_CLOSED" "snd_state (snd_syn_out s) = SND_SYN_SENT"
    "snd_state (snd_syn_acked ws s) = SND_SYN_ACKED"
    and "snd_state_summary s = SND_SUMMARY_CLOSED" "snd_state_summary (snd_syn_out s) = SND_SUMMARY_SYN_SENT"
    "snd_state_summary (snd_syn_acked ws s) = SND_SUMMARY_SYN_ACKED"
  using assms
  by (auto simp: snd_fresh_def snd_state_def snd_state_summary_def snd_syn_out_def snd_syn_acked_def
      snd_next_seqno_absolute_def snd_bytes_in_flight_def win_bytes_in_flight_def win_new_def bs_new_def bs_eof_def
      bs_buffer_empty_def)

lemma snd_syn_out_in_flight: "snd_fresh s \<Longrightarrow> snd_bytes_in_flight (snd_syn_out s) = 1"
  by (auto simp: snd_fresh_def snd_bytes_in_flight_def win_bytes_in_flight_def snd_syn_out_def win_new_def)

lemma snd_syn_acked_in_flight: "snd_bytes_in_flight (snd_syn_acked ws s) = 0"
  by (simp add: snd_bytes_in_flight_def win_bytes_in_flight_def snd_syn_acked_def)

section \<open>The connections during the handshake\<close>

lemma conn_in_iff:
  assumes "snd_state_summary (conn_sender c) = snd_summary (snd_state (conn_sender c))"
  shows "conn_in c st \<longleftrightarrow> state_halves st = (snd_state (conn_sender c), rcv_state (conn_receiver c),
    conn_active c, conn_active c \<and> conn_linger_after_streams_finish c)"
  unfolding conn_in_def conn_state_def by (rule ts_eq_halves [OF assms])

definition conn_fresh :: "tcp_connection \<Rightarrow> bool" where
  "conn_fresh c \<longleftrightarrow> snd_fresh (conn_sender c) \<and> (\<exists>cap. conn_receiver c = rcv_new cap)
     \<and> conn_active c \<and> conn_linger_after_streams_finish c \<and> conn_segments_out c = []"

lemma conn_fresh_new: "conn_fresh (conn_new random cfg)"
  using snd_fresh_new by (auto simp: conn_fresh_def conn_new_def)

lemma rcv_new_state: "rcv_ackno (rcv_new cap) = None" "rcv_state (rcv_new cap) = RCV_LISTEN"
  by (simp_all add: rcv_ackno_def rcv_state_def rcv_new_def rcv_stream_out_def sr_new_def bs_new_def)

text \<open>Opening: the SYN goes out.\<close>

lemma conn_hs_connect:
  assumes "conn_fresh c"
  shows "conn_connect c = Inr (c\<lparr>conn_sender := snd_syn_out (conn_sender c),
    conn_segments_out := [syn_seg (snd_isn (conn_sender c))]\<rparr>)"
proof -
  obtain cap where c: "snd_fresh (conn_sender c)" "conn_receiver c = rcv_new cap" "conn_segments_out c = []"
    using assms by (auto simp: conn_fresh_def)
  have "(snd_syn_out (conn_sender c))\<lparr>snd_segments_out := []\<rparr> = snd_syn_out (conn_sender c)"
    using c(1) by (cases "conn_sender c") (simp add: snd_fresh_def snd_syn_out_def)
  then show ?thesis using c snd_fill_fresh [OF c(1)]
    by (simp add: conn_connect_def conn_collect_eq conn_stamp_def rcv_new_state)
qed

text \<open>The passive side: the SYN arrives, and is answered with SYN and ACK.\<close>

lemma conn_hs_listen:
  fixes isn :: WrappingInt32
  assumes "conn_fresh c" and "conn_receiver c = rcv_new cap"
  defines "r \<equiv> rcv_synced cap isn"
  shows "conn_segment_received (syn_seg isn) c = Inr (c\<lparr>conn_time_since_last_segment_received := 0,
    conn_receiver := r, conn_sender := snd_syn_out (conn_sender c),
    conn_segments_out := [conn_stamp r (syn_seg (snd_isn (conn_sender c)))]\<rparr>)"
proof -
  let ?c = "c\<lparr>conn_time_since_last_segment_received := 0\<rparr>"
  have c: "snd_fresh (conn_sender c)" "conn_active c" "conn_linger_after_streams_finish c" "conn_segments_out c = []"
    using assms(1) by (auto simp: conn_fresh_def)
  have listen: "conn_in ?c ST_LISTEN"
    using c snd_hs_state [OF c(1)] by (simp add: conn_in_iff assms(2) rcv_new_state)
  have syn: "th_syn (seg_header (syn_seg isn))" "\<not> th_fin (seg_header (syn_seg isn))"
      "\<not> th_rst (seg_header (syn_seg isn))" "buf_str (seg_payload (syn_seg isn)) = []"
      "th_seqno (seg_header (syn_seg isn)) = isn" "seg_length (syn_seg isn) = 1"
    by (simp_all add: syn_seg_def seg_new_def th_new_def seg_length_def)
  have queue: "(snd_syn_out (conn_sender c))\<lparr>snd_segments_out := []\<rparr> = snd_syn_out (conn_sender c)"
    using c(1) by (cases "conn_sender c") (simp add: snd_fresh_def snd_syn_out_def)
  have "conn_dispatch (syn_seg isn) ?c = Inr (?c\<lparr>conn_receiver := r, conn_sender := snd_syn_out (conn_sender c),
      conn_segments_out := [conn_stamp r (syn_seg (snd_isn (conn_sender c)))]\<rparr>)"
    using listen syn c snd_fill_fresh [OF c(1)] queue rcv_syn [of "syn_seg isn" cap]
    by (simp add: conn_dispatch_def Let_def conn_connect_def conn_collect_eq conn_rcv_segment_def assms(2) r_def)
  then show ?thesis using syn
    by (simp add: conn_segment_received_def Let_def conn_keep_alive_def r_def rcv_synced_state)
qed

text \<open>The active side: SYN and ACK arrive, and are acknowledged.\<close>

lemma conn_hs_syn_ack:
  assumes "conn_fresh c" and "conn_receiver c = rcv_new cap"
    and "th_seqno (seg_header seg) = isn" "th_syn (seg_header seg)" "th_ack (seg_header seg)"
      "\<not> th_fin (seg_header seg)" "\<not> th_rst (seg_header seg)" "buf_str (seg_payload seg) = []"
      "th_ackno (seg_header seg) = wrap 1 (snd_isn (conn_sender c))"
  defines "r \<equiv> rcv_synced cap isn"
  shows "conn_segment_received seg (c\<lparr>conn_sender := snd_syn_out (conn_sender c), conn_segments_out := q\<rparr>)
    = Inr (c\<lparr>conn_time_since_last_segment_received := 0, conn_receiver := r,
        conn_sender := snd_syn_acked (th_win (seg_header seg)) (conn_sender c),
        conn_segments_out := q @ [conn_stamp r seg_new]\<rparr>)"
proof -
  let ?c = "c\<lparr>conn_time_since_last_segment_received := 0, conn_sender := snd_syn_out (conn_sender c), conn_segments_out := q\<rparr>"
  have c: "snd_fresh (conn_sender c)" "conn_active c" "conn_linger_after_streams_finish c"
    using assms(1) by (auto simp: conn_fresh_def)
  have st: "conn_in ?c st \<longleftrightarrow> state_halves st = (SND_SYN_SENT, RCV_LISTEN, True, True)" for st
    using c snd_hs_state [OF c(1)] by (subst conn_in_iff) (simp_all add: assms(2) rcv_new_state)
  have len: "seg_length seg \<noteq> 0" using assms by (simp add: seg_length_def)
  have "conn_dispatch seg ?c = Inr (?c\<lparr>conn_receiver := r,
      conn_sender := snd_syn_acked (th_win (seg_header seg)) (conn_sender c),
      conn_segments_out := q @ [conn_stamp r seg_new]\<rparr>)"
    using assms(3-9) st snd_ack_syn [OF c(1), of "th_win (seg_header seg)"] rcv_syn [of seg cap]
    by (simp add: conn_dispatch_def Let_def conn_rcv_segment_def conn_snd_ack_def assms(2) r_def
        conn_push_ack_eq rcv_synced_state conn_push_def)
  then show ?thesis using assms(7) len
    by (cases c) (simp add: conn_segment_received_def Let_def conn_keep_alive_def r_def rcv_synced_state)
qed

text \<open>The passive side again: the acknowledgment arrives. It carries sequence number 0; if that looks
  like a keep-alive probe it is answered.\<close>

lemma conn_hs_ack:
  fixes isn :: WrappingInt32
  assumes "conn_fresh c" and "conn_receiver c = rcv_new cap"
    and "seg_bare seg" "th_ack (seg_header seg)" "\<not> th_rst (seg_header seg)"
      "th_ackno (seg_header seg) = wrap 1 (snd_isn (conn_sender c))"
  defines "r \<equiv> rcv_synced cap isn"
  shows "\<exists>d. conn_segment_received seg (c\<lparr>conn_time_since_last_segment_received := t, conn_receiver := r,
      conn_sender := snd_syn_out (conn_sender c), conn_segments_out := q\<rparr>) = Inr d \<and> conn_in d ST_ESTABLISHED
      \<and> conn_bytes_in_flight d = 0"
proof -
  let ?c = "c\<lparr>conn_time_since_last_segment_received := 0, conn_receiver := r,
      conn_sender := snd_syn_out (conn_sender c), conn_segments_out := q\<rparr>"
  let ?s = "snd_syn_acked (th_win (seg_header seg)) (conn_sender c)"
  let ?d = "?c\<lparr>conn_sender := ?s\<rparr>"
  have c: "snd_fresh (conn_sender c)" "conn_active c" "conn_linger_after_streams_finish c"
    using assms(1) by (auto simp: conn_fresh_def)
  obtain cap' where stream: "snd_stream ?s = bs_new cap'" "snd_segments_out ?s = []"
    using c(1) by (auto simp: snd_fresh_def snd_syn_acked_def)
  have st: "conn_in ?c st \<longleftrightarrow> state_halves st = (SND_SYN_SENT, RCV_SYN_RECV, True, True)" for st
    using c snd_hs_state [OF c(1)] by (subst conn_in_iff) (simp_all add: r_def rcv_synced_state)
  have est: "conn_in ?d ST_ESTABLISHED"
    using c snd_hs_state [OF c(1)] by (subst conn_in_iff) (simp_all add: r_def rcv_synced_state)
  have "conn_dispatch seg ?c = Inr ?d"
    using assms(4,6) st snd_ack_syn [OF c(1), of "th_win (seg_header seg)"] rcv_bare [OF assms(3)]
    by (simp add: conn_dispatch_def Let_def conn_rcv_segment_def conn_snd_ack_def r_def)
  moreover obtain q' where "conn_collect_sender_segments_out (?d\<lparr>conn_sender := snd_send_empty_segment ?s\<rparr>)
      = Inr (?d\<lparr>conn_segments_out := q'\<rparr>)"
  proof -
    have "snd_fill_window (snd_send_empty_segment ?s) = Inr (snd_send_empty_segment ?s)"
      using stream by (intro snd_fill_quiet)
        (simp_all add: snd_send_empty_segment_def snd_send_def snd_syn_acked_def)
    moreover have "(snd_send_empty_segment ?s)\<lparr>snd_segments_out := []\<rparr> = ?s"
      using stream(2) by (cases ?s) (simp add: snd_send_empty_segment_def snd_send_def)
    ultimately show thesis by (intro that) (simp add: conn_collect_eq)
  qed
  then have "conn_keep_alive seg ?d = Inr ?d \<or> conn_keep_alive seg ?d = Inr (?d\<lparr>conn_segments_out := q'\<rparr>)"
    by (simp add: conn_keep_alive_def r_def rcv_synced_state)
  moreover have "conn_in (?d\<lparr>conn_segments_out := q'\<rparr>) ST_ESTABLISHED"
    using est by (simp add: conn_in_def conn_state_def)
  moreover have "conn_bytes_in_flight ?d = 0" "conn_bytes_in_flight (?d\<lparr>conn_segments_out := q'\<rparr>) = 0"
    by (simp_all add: conn_bytes_in_flight_def snd_syn_acked_in_flight)
  moreover have "conn_segment_received seg (c\<lparr>conn_time_since_last_segment_received := t, conn_receiver := r,
      conn_sender := snd_syn_out (conn_sender c), conn_segments_out := q\<rparr>)
      = bind_res (conn_dispatch seg ?c) (conn_keep_alive seg)"
    using assms(5) by (cases c) (simp add: conn_segment_received_def Let_def)
  ultimately show ?thesis using est by auto
qed

section \<open>Properties\<close>

text \<open>
  (C6) The three-way handshake works: two new connections, with any initial sequence numbers and any
  configurations whose capacities a \<open>ByteStream\<close> can hold (its ring has one slot more), one of which
  connects, reach ESTABLISHED on both sides when the SYN, the SYN/ACK and the ACK that they send are
  delivered, and then neither has anything in flight; on the way the active side is in SYN_SENT and
  the passive one in SYN_RCVD with its SYN in flight, and nothing is thrown.
\<close>

theorem tcp_handshake:
  assumes "cfg_recv_capacity ca < 2 ^ 64 - 1" and "cfg_send_capacity ca < 2 ^ 64 - 1"
    and "cfg_recv_capacity cb < 2 ^ 64 - 1" and "cfg_send_capacity cb < 2 ^ 64 - 1"
  shows "\<exists>a1 syn b1 syn_ack a2 ack b2.
     conn_connect (conn_new ra ca) = Inr a1 \<and> conn_segments_out a1 = [syn] \<and> conn_in a1 ST_SYN_SENT
   \<and> conn_bytes_in_flight a1 = 1
   \<and> conn_segment_received syn (conn_new rb cb) = Inr b1 \<and> conn_segments_out b1 = [syn_ack]
   \<and> conn_in b1 ST_SYN_RCVD \<and> conn_bytes_in_flight b1 = 1
   \<and> conn_segment_received syn_ack a1 = Inr a2 \<and> conn_segments_out a2 = [syn, ack] \<and> conn_in a2 ST_ESTABLISHED
   \<and> conn_bytes_in_flight a2 = 0
   \<and> conn_segment_received ack b1 = Inr b2 \<and> conn_in b2 ST_ESTABLISHED \<and> conn_bytes_in_flight b2 = 0"
proof -
  let ?a = "conn_new ra ca" and ?b = "conn_new rb cb"
  let ?ia = "snd_isn (conn_sender ?a)" and ?ib = "snd_isn (conn_sender ?b)"
  let ?ra = "rcv_synced (cfg_recv_capacity ca) ?ib" and ?rb = "rcv_synced (cfg_recv_capacity cb) ?ia"
  have fa: "conn_fresh ?a" "conn_receiver ?a = rcv_new (cfg_recv_capacity ca)"
    and fb: "conn_fresh ?b" "conn_receiver ?b = rcv_new (cfg_recv_capacity cb)"
    by (simp_all add: conn_fresh_new, simp_all add: conn_new_def)
  have sa: "snd_fresh (conn_sender ?a)" "conn_active ?a" "conn_linger_after_streams_finish ?a"
    and sb: "snd_fresh (conn_sender ?b)" "conn_active ?b" "conn_linger_after_streams_finish ?b"
    using fa fb by (auto simp: conn_fresh_def)
  let ?syn = "syn_seg ?ia" and ?syn_ack = "conn_stamp ?rb (syn_seg ?ib)" and ?ack = "conn_stamp ?ra seg_new"
  let ?a1 = "?a\<lparr>conn_sender := snd_syn_out (conn_sender ?a), conn_segments_out := [?syn]\<rparr>"
  let ?b1 = "?b\<lparr>conn_time_since_last_segment_received := 0, conn_receiver := ?rb,
      conn_sender := snd_syn_out (conn_sender ?b), conn_segments_out := [?syn_ack]\<rparr>"
  let ?a2 = "?a\<lparr>conn_time_since_last_segment_received := 0, conn_receiver := ?ra,
      conn_sender := snd_syn_acked (th_win (seg_header ?syn_ack)) (conn_sender ?a),
      conn_segments_out := [?syn] @ [?ack]\<rparr>"
  have "conn_connect ?a = Inr ?a1" using fa(1) by (rule conn_hs_connect)
  moreover have "conn_in ?a1 ST_SYN_SENT"
    using sa snd_hs_state [OF sa(1)] by (subst conn_in_iff) (simp_all add: fa(2) rcv_new_state)
  moreover have "conn_segment_received ?syn ?b = Inr ?b1" using fb by (rule conn_hs_listen)
  moreover have "conn_in ?b1 ST_SYN_RCVD"
    using sb snd_hs_state [OF sb(1)] by (subst conn_in_iff) (simp_all add: rcv_synced_state)
  moreover have "conn_segment_received ?syn_ack ?a1 = Inr ?a2"
    by (rule conn_hs_syn_ack [OF fa])
      (simp_all add: conn_stamp_def rcv_synced_state syn_seg_def seg_new_def th_new_def)
  moreover have "conn_in ?a2 ST_ESTABLISHED"
    using sa snd_hs_state [OF sa(1)] by (subst conn_in_iff) (simp_all add: rcv_synced_state)
  moreover have "conn_bytes_in_flight ?a1 = 1" "conn_bytes_in_flight ?b1 = 1" "conn_bytes_in_flight ?a2 = 0"
    using snd_syn_out_in_flight [OF sa(1)] snd_syn_out_in_flight [OF sb(1)]
    by (simp_all add: conn_bytes_in_flight_def snd_syn_acked_in_flight)
  moreover obtain b2 where "conn_segment_received ?ack ?b1 = Inr b2" "conn_in b2 ST_ESTABLISHED" "conn_bytes_in_flight b2 = 0"
    using conn_hs_ack [OF fb, where seg = ?ack and isn = ?ia and t = 0 and q = "[?syn_ack]"]
    by (auto simp: conn_stamp_def rcv_synced_state seg_bare_def seg_new_def th_new_def)
  ultimately show ?thesis by fastforce
qed

theorem tcp_handshake_witness:
  "\<exists>a1 syn b1 syn_ack a2 ack b2.
     conn_connect (conn_new 7 cfg_default) = Inr a1 \<and> conn_segments_out a1 = [syn]
   \<and> conn_segment_received syn (conn_new 9 cfg_default) = Inr b1 \<and> conn_segments_out b1 = [syn_ack]
   \<and> conn_segment_received syn_ack a1 = Inr a2 \<and> conn_segments_out a2 = [syn, ack] \<and> conn_in a2 ST_ESTABLISHED
   \<and> conn_segment_received ack b1 = Inr b2 \<and> conn_in b2 ST_ESTABLISHED
   \<and> conn_bytes_in_flight a2 = 0 \<and> conn_bytes_in_flight b2 = 0"
  using tcp_handshake [of cfg_default cfg_default 7 9] by (simp add: cfg_default_def DEFAULT_CAPACITY_def) blast

end
