(* ===== verification/TCP_Network.thy ===== *)
theory TCP_Network
  imports TCP_Handshake
begin

text \<open>
  Two connections that talk over a network which may lose, repeat, delay and reorder segments. The
  operations are those of \<open>tcp_connection.cc\<close>, in any order, as long as the connection has not been
  reset and has not given up: \<open>tcp_sponge_socket.cc\<close> uses them while the connection is active, and
  \<open>tcp_benchmark.cc\<close> also after it was closed in good order. What
  the receiver of one side needs of its segments is what the sender of the other side guarantees, so
  that the two correctness results for the halves meet here.
\<close>

section \<open>Operations that return\<close>

text \<open>The operation does not throw, and its result satisfies \<open>P\<close>.\<close>

definition ok_res :: "('a \<Rightarrow> bool) \<Rightarrow> 'a result \<Rightarrow> bool" where
  "ok_res P m \<longleftrightarrow> (\<exists>x. m = Inr x \<and> P x)"

lemma ok_res_Inr [simp]: "ok_res P (Inr x) = P x" "\<not> ok_res P (Inl e)"
  by (simp_all add: ok_res_def)

lemma ok_res_bind: "ok_res P m \<Longrightarrow> (\<And>x. P x \<Longrightarrow> ok_res Q (f x)) \<Longrightarrow> ok_res Q (bind_res m f)"
  by (auto simp: ok_res_def)

lemma ok_res_mono: "ok_res P m \<Longrightarrow> (\<And>x. P x \<Longrightarrow> Q x) \<Longrightarrow> ok_res Q m"
  by (auto simp: ok_res_def)

lemma ok_res_if: "(b \<Longrightarrow> ok_res P m) \<Longrightarrow> (\<not> b \<Longrightarrow> ok_res P n) \<Longrightarrow> ok_res P (if b then m else n)"
  by simp

section \<open>The receiving half of a growing stream\<close>

lemma sr_inv_append:
  assumes "sr_inv S s" and "length (S @ T) < 2 ^ 63"
  shows "sr_inv (S @ T) s"
proof -
  note d = sr_invD [OF assms(1)]
  have "sr_written_pos s \<le> length S" using d(12) sr_inv_bounds(1) [OF assms(1)] by simp
  then have t: "take (sr_written_pos s) (S @ T) = take (sr_written_pos s) S" by simp
  have "sr_agrees (S @ T) s" using d(7) by (auto simp: sr_agrees_def nth_append)
  then show ?thesis unfolding sr_inv_def t using d assms(2) by simp
qed

lemma rcv_inv_append: "rcv_inv S isn r \<Longrightarrow> length (S @ T) + 2 < 2 ^ 31 \<Longrightarrow> rcv_inv (S @ T) isn r"
  by (auto simp: rcv_inv_def intro: sr_inv_append)

text \<open>Once the SYN has arrived, it is acknowledged.\<close>

definition rcv_acking :: "tcp_receiver \<Rightarrow> bool" where
  "rcv_acking r \<longleftrightarrow> (rcv_is_set r \<longrightarrow> rcv_checkpoint r \<noteq> 0)"

lemma rcv_update_acking:
  assumes "rcv_inv S isn r" and "rcv_checkpoint r \<noteq> 0 \<or> index = 0"
  shows "rcv_checkpoint (rcv_update_checkpoint r index seg) \<noteq> 0"
proof -
  have "0 < unat (rcv_checkpoint (rcv_update_checkpoint r index seg))"
    using assms(2) unfolding unat_update_checkpoint [OF assms(1)] by (auto simp: unat_gt_0)
  then show ?thesis by auto
qed

lemma rcv_received_acking:
  assumes inv: "rcv_inv S isn r" and seg: "seg_of_stream S isn seg" and "rcv_acking r"
  shows "rcv_acking (rcv_segment_received r seg)"
proof (cases "th_syn (seg_header seg)")
  case True
  then have at: "seg_at S isn 0 seg" using seg by (auto simp: seg_of_stream_def seg_bare_def seg_at_def)
  have "length S + 2 < 2 ^ 31" using inv by (simp add: rcv_inv_def)
  then have "rcv_inv S isn (rcv_pushed (rcv_opened r seg) seg (seg_stream_index 0 seg))"
    using seg_stream_index(2) [OF at] True
    by (intro rcv_pushed_inv rcv_opened_inv [OF inv seg]) (simp_all add: rcv_opened_def)
  then show ?thesis
    using rcv_received_at [OF inv at] True by (simp add: rcv_acking_def rcv_update_acking)
next
  case False
  from inv seg show ?thesis
  proof (cases rule: rcv_received_cases)
    case (2 i index)
    then have "rcv_inv S isn (rcv_pushed (rcv_opened r seg) seg i)"
      by (intro rcv_pushed_inv rcv_opened_inv [OF inv seg])
    then show ?thesis using 2 assms(3) False by (auto simp: rcv_acking_def rcv_opened_def rcv_update_acking)
  qed (use assms(3) in simp)
qed

lemma rcv_received_set:
  "rcv_is_set (rcv_segment_received r seg) \<longleftrightarrow> rcv_is_set r \<or> th_syn (seg_header seg)"
  by (auto simp: rcv_segment_received_eq rcv_opened_def)

text \<open>The acknowledgment is never the initial sequence number.\<close>

lemma rcv_ackno_new:
  assumes "rcv_inv S isn r" and "rcv_acking r"
  shows "rcv_ackno r \<noteq> Some isn"
proof
  assume "rcv_ackno r = Some isn"
  then have "rcv_is_set r" and w: "wrap (rcv_checkpoint r) isn = isn"
    using assms(1) by (auto simp: rcv_ackno_def rcv_inv_def split: if_splits)
  then have cp: "rcv_checkpoint r \<noteq> 0" "unat (rcv_checkpoint r) < 2 ^ 31"
    using assms by (auto simp: rcv_acking_def rcv_inv_def)
  then have "seq_near (rcv_checkpoint r) 0" by (intro seq_near_small) simp_all
  then have "unwrap (wrap (rcv_checkpoint r) isn) isn 0 = rcv_checkpoint r" by (rule seqno.dec_enc)
  then show False using cp(1) by (simp add: w unwrap_isn_zero)
qed

section \<open>The sending half before the peer answers\<close>

text \<open>As long as nothing has arrived from the peer, a sender has sent at most its SYN.\<close>

definition snd_silent :: "tcp_sender \<Rightarrow> bool" where
  "snd_silent s \<longleftrightarrow> win_first_seqno (snd_window s) = 0
     \<and> (\<forall>seg \<in> ss_segment ` set (win_buffer (snd_window s)) \<union> set (snd_segments_out s).
          \<not> th_fin (seg_header seg) \<and> \<not> th_ack (seg_header seg))"

lemma snd_fill_full: "win_full (snd_window s) \<Longrightarrow> snd_fill_loop s = Inr s"
  by (simp add: snd_fill_loop.simps [of s])

lemma snd_silent_full:
  assumes "snd_window_ok s" and "win_first_seqno (snd_window s) = 0" and "snd_next s \<noteq> 0"
  shows "snd_fill_loop s = Inr s"
  using snd_not_full_first [OF assms(1) _ assms(3)] assms(2) snd_fill_full by blast

lemma snd_fill_silent:
  assumes inv: "snd_inv W s" and err: "\<not> bs_error (snd_stream s)" and sil: "snd_silent s"
    and t: "snd_fill_window s = Inr t"
  shows "snd_silent t"
proof (cases "snd_next s = 0")
  case False
  then have "win_next_seqno (snd_window s) \<noteq> 0" by auto
  then have "snd_fill_window s = snd_fill_loop s" by (simp add: snd_fill_window_def snd_state_closed)
  then show ?thesis using snd_silent_full [of s] False inv sil t by (simp add: snd_inv_def snd_silent_def)
next
  case True
  let ?w = "snd_window s"
  have n: "win_next_seqno ?w = 0" using True by (simp add: unat_0_iff)
  have ok: "snd_window_ok s" "win_inv ?w" using inv unfolding snd_inv_def snd_window_ok_def by blast+
  have w: "win_first_seqno ?w = 0" "win_window_size ?w = 1" "win_buffer ?w = []"
    using win_inv_first(3) [OF ok(2)] n ok(1) sil by (auto simp: snd_window_ok_def snd_silent_def)
  let ?seg = "set_seqno (wrap 0 (win_isn ?w)) (set_syn True seg_new)"
  let ?w' = "?w\<lparr>win_buffer := [\<lparr>ss_segment = ?seg, ss_remaining_rto = ucast (snd_rto s)\<rparr>], win_next_seqno := 1\<rparr>"
  let ?t = "snd_send ?seg (s\<lparr>snd_window := ?w'\<rparr>)"
  have "win_add_segment ?seg (ucast (snd_rto s)) ?w = Inr ?w'"
    using w n by (subst win_add_segment_eq) (simp_all add: win_full_def win_window_closed_def
        win_buffer_empty_def seg_length_def seg_new_def th_new_def)
  then have "snd_fill_window s = snd_fill_loop ?t"
    using err n by (simp add: snd_fill_window_def snd_state_closed Let_def)
  moreover have "win_full (snd_window ?t)"
    using w by (simp add: snd_send_def win_full_def win_window_closed_def win_buffer_empty_def
        win_space_def win_bytes_in_flight_def)
  ultimately have "t = ?t" using t snd_fill_full [of ?t] by simp
  then show ?thesis using w(1) sil by (auto simp: snd_silent_def snd_send_def seg_new_def th_new_def)
qed

lemma snd_silent_cong:
  "win_first_seqno (snd_window t) = win_first_seqno (snd_window s) \<Longrightarrow>
    ss_segment ` set (win_buffer (snd_window t)) = ss_segment ` set (win_buffer (snd_window s)) \<Longrightarrow>
    snd_segments_out t = snd_segments_out s \<Longrightarrow> snd_silent t = snd_silent s"
  unfolding snd_silent_def by simp

lemma snd_silent_send:
  "snd_silent (snd_send seg s) \<longleftrightarrow> snd_silent s \<and> \<not> th_fin (seg_header seg) \<and> \<not> th_ack (seg_header seg)"
  by (auto simp: snd_silent_def snd_send_def)

lemma snd_tick_silent:
  assumes "snd_silent s"
  shows "snd_silent (snd_tick ms s)"
proof (cases "filter (ss_expired ms) (win_buffer (snd_window s))")
  case Nil
  then have "snd_tick ms s = s\<lparr>snd_window := fst (win_tick ms (snd_window s))\<rparr>" by (simp add: snd_tick_eq)
  then show ?thesis
    using assms by (subst snd_silent_cong [of _ s]) (simp_all add: win_tick_eq image_image)
next
  case (Cons ss rest)
  let ?r = "if snd_window_size_is_zero s then snd_rto s else snd_rto s * 2"
  have t: "snd_tick ms s = snd_send (ss_segment ss) (s\<lparr>snd_rto := ?r,
      snd_window := win_reset_timer ?r (snd_window s),
      snd_consecutive_retransmission_count := snd_consecutive_retransmission_count s + 1\<rparr>)"
    by (simp only: snd_tick_eq Cons list.case Let_def)
  have "ss \<in> set (filter (ss_expired ms) (win_buffer (snd_window s)))" by (simp only: Cons list.set_intros)
  then have "ss \<in> set (win_buffer (snd_window s))" by (simp only: set_filter mem_Collect_eq)
  then have "\<not> th_fin (seg_header (ss_segment ss)) \<and> \<not> th_ack (seg_header (ss_segment ss))"
    using assms unfolding snd_silent_def by blast
  moreover have "snd_silent (s\<lparr>snd_rto := r, snd_window := win_reset_timer r (snd_window s),
      snd_consecutive_retransmission_count := n\<rparr>) = snd_silent s" for r n
    by (rule snd_silent_cong) (simp_all add: win_reset_timer_def image_image)
  ultimately show ?thesis unfolding t snd_silent_send using assms by blast
qed

section \<open>What an endpoint promises\<close>

text \<open>
  A view is what one endpoint relies on and promises: the bytes written by its application, its initial
  sequence number, whether the application has ended the stream, how much it has read, and the bytes and
  the initial sequence number of the peer.
\<close>

record view =
  v_written :: bytes
  v_isn :: WrappingInt32
  v_ended :: bool
  v_read :: nat
  v_peer :: bytes
  v_peer_isn :: WrappingInt32

text \<open>The segments that an endpoint sends, and those that it may be given.\<close>

definition seg_from :: "view \<Rightarrow> tcp_segment \<Rightarrow> bool" where
  "seg_from v seg \<longleftrightarrow> seg_of_stream (v_written v) (v_isn v) seg
     \<and> (th_fin (seg_header seg) \<longrightarrow> v_ended v \<and> th_ack (seg_header seg))
     \<and> (th_ack (seg_header seg) \<longrightarrow> th_ackno (seg_header seg) \<noteq> v_peer_isn v)"

definition seg_for :: "view \<Rightarrow> tcp_segment \<Rightarrow> bool" where
  "seg_for v seg \<longleftrightarrow> seg_of_stream (v_peer v) (v_peer_isn v) seg
     \<and> (th_fin (seg_header seg) \<longrightarrow> th_ack (seg_header seg))
     \<and> (th_ack (seg_header seg) \<longrightarrow> th_ackno (seg_header seg) \<noteq> v_isn v)"

definition conn_sound :: "view \<Rightarrow> tcp_connection \<Rightarrow> bool" where
  "conn_sound v c \<longleftrightarrow> length (v_written v) + 2 < 2 ^ 31
     \<and> snd_isn (conn_sender c) = v_isn v \<and> bs_end_flag (snd_stream (conn_sender c)) = v_ended v
     \<and> rcv_inv (v_peer v) (v_peer_isn v) (conn_receiver c) \<and> rcv_read_pos (conn_receiver c) = v_read v
     \<and> (\<forall>seg \<in> set (conn_segments_out c). seg_from v seg)"

text \<open>A connection is unbroken until it is reset or gives up. It may have been closed in good order.\<close>

abbreviation conn_unbroken :: "tcp_connection \<Rightarrow> bool" where
  "conn_unbroken c \<equiv> \<not> bs_error (snd_stream (conn_sender c))"

definition conn_live :: "view \<Rightarrow> tcp_connection \<Rightarrow> bool" where
  "conn_live v c \<longleftrightarrow> conn_sound v c \<and> snd_inv (v_written v) (conn_sender c)
     \<and> conn_unbroken c \<and> rcv_acking (conn_receiver c)
     \<and> (\<forall>seg \<in> set (conn_segments_out c). \<not> th_rst (seg_header seg))
     \<and> (\<not> rcv_is_set (conn_receiver c) \<longrightarrow> snd_silent (conn_sender c))"

definition conn_open :: "view \<Rightarrow> tcp_connection \<Rightarrow> bool" where
  "conn_open v c \<longleftrightarrow> conn_live v c \<and> rcv_is_set (conn_receiver c)"

lemma conn_stamp_rst [simp]:
  "th_rst (seg_header (conn_stamp r seg)) = th_rst (seg_header seg)" "\<not> th_rst (seg_header seg_new)"
  by (simp_all add: conn_stamp_def seg_new_def th_new_def split: option.splits)

lemma conn_stamp_from:
  assumes "rcv_inv (v_peer v) (v_peer_isn v) r" and "rcv_acking r"
    and "seg_of_stream (v_written v) (v_isn v) seg" and "th_fin (seg_header seg) \<longrightarrow> v_ended v"
    and "\<not> rcv_is_set r \<longrightarrow> \<not> th_fin (seg_header seg) \<and> \<not> th_ack (seg_header seg)"
  shows "seg_from v (conn_stamp r seg)"
proof (cases "rcv_ackno r")
  case None
  then have "\<not> rcv_is_set r" by (simp add: rcv_ackno_def split: if_splits)
  then show ?thesis using assms None by (simp add: conn_stamp_def seg_from_def)
next
  case (Some ackno)
  then have "ackno \<noteq> v_peer_isn v" using rcv_ackno_new [OF assms(1,2)] by auto
  then show ?thesis using assms(3,4) Some
    by (simp add: conn_stamp_def seg_from_def) (simp add: seg_of_stream_def seg_at_def seg_bare_def)
qed

lemma rcv_ackno_set: "rcv_ackno r = None \<longleftrightarrow> \<not> rcv_is_set r"
  by (simp add: rcv_ackno_def)

lemma seg_bare_new: "seg_of_stream S isn seg_new" "\<not> th_fin (seg_header seg_new)"
  "\<not> th_ack (seg_header seg_new)"
  by (simp_all add: seg_of_stream_def seg_bare_def seg_new_def th_new_def)

text \<open>Collecting the segments of the sender does not touch the receiver.\<close>

lemma live_collect:
  assumes "conn_live v c"
  shows "ok_res (\<lambda>d. conn_live v d \<and> conn_receiver d = conn_receiver c) (conn_collect_sender_segments_out c)"
proof -
  let ?s = "conn_sender c" and ?r = "conn_receiver c"
  note live = assms [unfolded conn_live_def conn_sound_def]
  obtain t where t: "snd_fill_window ?s = Inr t" "snd_inv (v_written v) t" "snd_same ?s t"
    using snd_fill_window_correct [of "v_written v" ?s] live by blast
  have sil: "\<not> rcv_is_set ?r \<longrightarrow> snd_silent t" using snd_fill_silent [OF _ _ _ t(1)] live by blast
  have tok: "snd_isn t = v_isn v" "bs_end_flag (snd_stream t) = v_ended v" "\<not> bs_error (snd_stream t)"
    using t(3) live by (simp_all add: snd_same_def)
  have "seg_from v (conn_stamp ?r seg)" if "seg \<in> set (snd_segments_out t)" for seg
  proof (rule conn_stamp_from)
    have "snd_seg_ok (v_written v) t seg" using t(2) that by (simp add: snd_inv_def)
    then show "seg_of_stream (v_written v) (v_isn v) seg" "th_fin (seg_header seg) \<longrightarrow> v_ended v"
      using tok by (simp_all add: snd_seg_ok_def)
    show "\<not> rcv_is_set ?r \<longrightarrow> \<not> th_fin (seg_header seg) \<and> \<not> th_ack (seg_header seg)"
      using sil that unfolding snd_silent_def by blast
  qed (use live in blast)+
  moreover have "snd_inv (v_written v) (t\<lparr>snd_segments_out := []\<rparr>)"
    using t(2) by (auto simp: snd_inv_def snd_stream_ok_def snd_window_ok_def snd_seg_ok_def)
  moreover have "snd_silent t \<Longrightarrow> snd_silent (t\<lparr>snd_segments_out := []\<rparr>)" by (simp add: snd_silent_def)
  moreover have "\<not> th_rst (seg_header seg)" if "seg \<in> set (snd_segments_out t)" for seg
    using t(2) that by (simp add: snd_inv_def snd_seg_ok_def)
  ultimately show ?thesis using t(1) tok live sil
    by (auto simp: conn_collect_eq conn_live_def conn_sound_def)
qed

lemma live_collect_live: "conn_live v c \<Longrightarrow> ok_res (conn_live v) (conn_collect_sender_segments_out c)"
  by (rule ok_res_mono [OF live_collect]) auto

lemma open_collect: "conn_open v c \<Longrightarrow> ok_res (conn_open v) (conn_collect_sender_segments_out c)"
  using live_collect [of v c] by (auto simp: conn_open_def elim: ok_res_mono)

lemma open_push_ack:
  assumes "conn_open v c"
  shows "ok_res (conn_open v) (conn_push_ack c)"
proof -
  have "seg_from v (conn_stamp (conn_receiver c) seg_new)"
    using assms seg_bare_new by (intro conn_stamp_from) (auto simp: conn_open_def conn_live_def conn_sound_def)
  then show ?thesis using assms
    by (auto simp: conn_push_ack_eq rcv_ackno_set conn_open_def conn_live_def conn_sound_def conn_push_def)
qed

lemma live_rcv:
  assumes "conn_live v c" and "seg_for v seg"
  shows "conn_live v (conn_rcv_segment seg c)"
    and "rcv_is_set (conn_receiver c) \<or> th_syn (seg_header seg) \<Longrightarrow> conn_open v (conn_rcv_segment seg c)"
  using assms rcv_segment_received_inv rcv_received_acking rcv_received_read_pos
  by (auto simp: conn_live_def conn_open_def conn_sound_def seg_for_def conn_rcv_segment_def rcv_received_set)

lemma open_rcv: "conn_open v c \<Longrightarrow> seg_for v seg \<Longrightarrow> conn_open v (conn_rcv_segment seg c)"
  by (rule live_rcv(2)) (simp_all add: conn_open_def)

lemma open_snd_ack:
  assumes "conn_open v c" and "seg_for v seg" and "th_ack (seg_header seg) \<or> th_fin (seg_header seg)"
  shows "ok_res (conn_open v) (conn_snd_ack seg c)"
proof -
  let ?s = "conn_sender c"
  note live = assms(1) [unfolded conn_open_def conn_live_def conn_sound_def]
  have "th_ackno (seg_header seg) \<noteq> snd_isn ?s" using assms live by (auto simp: seg_for_def)
  then obtain t where "snd_ack_received (th_ackno (seg_header seg)) (th_win (seg_header seg)) ?s = Inr t"
      "snd_inv (v_written v) t" "snd_isn t = snd_isn ?s" "\<not> bs_error (snd_stream t)"
      "bs_end_flag (snd_stream t) = bs_end_flag (snd_stream ?s)"
    using snd_ack_received_correct [of "v_written v" ?s] live by blast
  then show ?thesis using live by (simp add: conn_snd_ack_def conn_open_def conn_live_def conn_sound_def)
qed

section \<open>Every operation keeps the promise\<close>

lemma live_linger [simp]:
  "conn_live v (c\<lparr>conn_linger_after_streams_finish := b\<rparr>) = conn_live v c"
  "conn_live v (c\<lparr>conn_active := a\<rparr>) = conn_live v c"
  "conn_live v (c\<lparr>conn_time_since_last_segment_received := n\<rparr>) = conn_live v c"
  by (simp_all add: conn_live_def conn_sound_def)

lemma open_linger [simp]:
  "conn_open v (c\<lparr>conn_linger_after_streams_finish := b\<rparr>) = conn_open v c"
  "conn_open v (c\<lparr>conn_active := a\<rparr>) = conn_open v c"
  "conn_open v (c\<lparr>conn_time_since_last_segment_received := n\<rparr>) = conn_open v c"
  by (simp_all add: conn_open_def)

text \<open>In every state but LISTEN and SYN_SENT the SYN of the peer has arrived.\<close>

lemma conn_in_open:
  assumes "conn_live v c" and "conn_in c st" and "fst (snd (state_halves st)) \<in> {RCV_SYN_RECV, RCV_FIN_RECV}"
  shows "conn_open v c"
proof -
  have "rcv_state (conn_receiver c) \<in> {RCV_SYN_RECV, RCV_FIN_RECV}"
    using assms(2,3) conn_in_halves [of "v_written v" c st] assms(1) by (auto simp: conn_live_def)
  then have "rcv_is_set (conn_receiver c)" by (auto simp: rcv_state_def rcv_ackno_set split: if_splits)
  then show ?thesis using assms(1) by (simp add: conn_open_def)
qed

lemma open_live: "ok_res (conn_open v) m \<Longrightarrow> ok_res (conn_live v) m"
  by (auto simp: conn_open_def elim: ok_res_mono)

lemma open_exchange:
  assumes "conn_open v c" and "seg_for v seg"
  shows "ok_res (conn_open v) (conn_exchange seg c)"
proof -
  have send: "conn_open v (d\<lparr>conn_sender := snd_send ack_seg (conn_sender d)\<rparr>)"
    if "conn_open v d" and "ack_seg = conn_stamp (conn_receiver d) seg_new" for d ack_seg
  proof -
    have "seg_bare ack_seg"
      using that(2) by (simp add: seg_bare_def conn_stamp_def seg_new_def th_new_def split: option.splits)
    then have "snd_seg_ok (v_written v) (conn_sender d) ack_seg"
      using that(2) by (simp add: snd_seg_ok_def seg_of_stream_def) (simp add: seg_bare_def)
    then show ?thesis using that(1) snd_send_inv
      by (auto simp: conn_open_def conn_live_def conn_sound_def) (auto simp: snd_send_def)
  qed
  have "ok_res (conn_open v) (let c = conn_rcv_segment seg c
      in bind_res (conn_add_ack_info c seg_new) (\<lambda>ack_seg.
         conn_collect_sender_segments_out (c\<lparr>conn_sender := snd_send ack_seg (conn_sender c)\<rparr>)))"
    using open_collect [OF send [OF open_rcv [OF assms] refl]] open_rcv [OF assms]
    by (simp add: Let_def conn_add_ack_info_eq rcv_ackno_set conn_open_def [of v "conn_rcv_segment seg c"])
  then show ?thesis unfolding conn_exchange_def
    using assms by (intro ok_res_bind [of "conn_open v"]) (auto intro: open_snd_ack open_collect ok_res_bind)
qed

lemma open_ack_then:
  assumes "conn_open v c" and "seg_for v seg" and "th_ack (seg_header seg) \<or> th_fin (seg_header seg)"
  shows "ok_res (conn_live v) (bind_res (conn_snd_ack seg c) conn_push_ack)"
    and "ok_res (conn_live v) (bind_res (conn_snd_ack seg c) conn_collect_sender_segments_out)"
    and "ok_res (conn_live v) (bind_res (conn_snd_ack seg c) (\<lambda>c. Inr (if snd_state (conn_sender c) = SND_FIN_ACKED
      then c\<lparr>conn_linger_after_streams_finish := False, conn_active := False\<rparr> else c)))"
  using open_snd_ack [OF assms]
  by (auto intro!: open_live intro: open_push_ack open_collect elim!: ok_res_bind simp: conn_open_def)

lemma live_closing:
  assumes "conn_live v c" and seg: "seg_for v seg"
  shows "ok_res (conn_live v) (conn_closing seg c)"
proof -
  have o: "conn_in c st \<Longrightarrow> st \<in> {ST_FIN_WAIT_2, ST_LAST_ACK, ST_CLOSING, ST_CLOSE_WAIT, ST_TIME_WAIT} \<Longrightarrow>
      conn_open v c" for st
    by (erule conn_in_open [OF assms(1)]) auto
  have r: "conn_in c st \<Longrightarrow> st \<in> {ST_FIN_WAIT_2, ST_CLOSING} \<Longrightarrow> conn_open v (conn_rcv_segment seg c)" for st
    using o [of st] seg by (auto intro: open_rcv)
  show ?thesis
    unfolding conn_closing_def Let_def
    by (intro ok_res_if open_ack_then) (use assms in \<open>auto intro: o r\<close>)
qed

lemma live_dispatch:
  assumes "conn_live v c" and seg: "seg_for v seg"
  shows "ok_res (conn_live v) (conn_dispatch seg c)"
proof -
  have o: "conn_in c st \<Longrightarrow> conn_open v c" if "st \<in> {ST_SYN_RCVD, ST_ESTABLISHED, ST_FIN_WAIT_1}" for st
    using that by (intro conn_in_open [OF assms(1)]) auto
  have listen: "ok_res (conn_live v) (bind_res (conn_connect (conn_rcv_segment seg c)) (\<lambda>c. Inr (c\<lparr>conn_active := True\<rparr>)))"
    unfolding conn_connect_def using live_collect [OF live_rcv(1) [OF assms]] by (rule ok_res_bind) simp
  have syn: "th_syn (seg_header seg) \<Longrightarrow> conn_open v (conn_rcv_segment seg c)"
    using live_rcv(2) [OF assms] by simp
  have rcvd: "conn_in c ST_SYN_RCVD \<Longrightarrow> conn_open v (conn_rcv_segment seg c)"
    using o seg by (auto intro: open_rcv)
  have est: "conn_in c ST_ESTABLISHED \<or> conn_in c ST_FIN_WAIT_1 \<Longrightarrow> ok_res (conn_live v)
      (conn_exchange seg (if b then c\<lparr>conn_linger_after_streams_finish := False\<rparr> else c))" for b
    using o seg by (intro open_live open_exchange) auto
  show ?thesis
    unfolding conn_dispatch_def Let_def
    by (intro ok_res_if listen open_ack_then open_live [OF open_push_ack] open_live [OF open_snd_ack]
        est live_closing) (simp_all add: assms syn rcvd)
qed

lemma live_keep_alive:
  assumes "conn_live v c"
  shows "ok_res (conn_live v) (conn_keep_alive seg c)"
proof (cases "rcv_ackno (conn_receiver c)")
  case (Some ackno)
  let ?s = "snd_send_empty_segment (conn_sender c)"
  have "rcv_is_set (conn_receiver c)" using Some rcv_ackno_set [of "conn_receiver c"] by simp
  moreover have "snd_isn ?s = snd_isn (conn_sender c)" "snd_stream ?s = snd_stream (conn_sender c)"
    by (simp_all add: snd_send_empty_segment_def snd_send_def)
  ultimately have "conn_live v (c\<lparr>conn_sender := ?s\<rparr>)"
    using assms snd_send_empty_inv by (simp add: conn_live_def conn_sound_def)
  then show ?thesis using live_collect_live assms Some by (simp add: conn_keep_alive_def)
qed (use assms in \<open>simp add: conn_keep_alive_def\<close>)

text \<open>A connection that has been reset is inactive; its application may still read what has arrived.\<close>

definition conn_fine :: "view \<Rightarrow> tcp_connection \<Rightarrow> bool" where
  "conn_fine v c \<longleftrightarrow> conn_sound v c \<and> (conn_unbroken c \<longrightarrow> conn_live v c)"

lemma live_fine: "conn_live v c \<Longrightarrow> conn_fine v c"
  by (simp add: conn_fine_def conn_live_def)

lemma set_errors_fine:
  assumes "conn_live v c"
  shows "conn_fine v (conn_set_errors c)"
  using assms rcv_set_error_inv
  by (simp add: conn_fine_def conn_live_def conn_sound_def conn_set_errors_def)
    (simp add: snd_set_error_def rcv_set_error_def bs_set_error_def)

lemma unclean_fine:
  assumes "conn_live v c"
  shows "conn_fine v (conn_unclean_shutdown c)"
proof -
  have "seg_from v (set_rst True seg_new)"
    by (simp add: seg_from_def seg_of_stream_def seg_bare_def seg_new_def th_new_def)
  moreover have "\<not> conn_unbroken (conn_set_errors c)"
    by (simp add: conn_set_errors_def snd_set_error_def bs_set_error_def)
  ultimately show ?thesis using set_errors_fine [OF assms]
    by (simp add: conn_unclean_shutdown_def conn_push_def conn_fine_def conn_sound_def)
qed

lemma fine_segment_received:
  assumes "conn_live v c" and "seg_for v seg"
  shows "ok_res (conn_fine v) (conn_segment_received seg c)"
    and "\<not> th_rst (seg_header seg) \<Longrightarrow> ok_res (conn_live v) (conn_segment_received seg c)"
proof -
  let ?c = "c\<lparr>conn_time_since_last_segment_received := 0\<rparr>"
  have c: "conn_live v ?c" using assms(1) by simp
  have "ok_res (conn_live v) (bind_res (conn_dispatch seg ?c) (conn_keep_alive seg))"
    using live_dispatch [OF c assms(2)] live_keep_alive by (rule ok_res_bind)
  then show "ok_res (conn_fine v) (conn_segment_received seg c)"
    and "\<not> th_rst (seg_header seg) \<Longrightarrow> ok_res (conn_live v) (conn_segment_received seg c)"
    using set_errors_fine [OF c]
    by (auto simp: conn_segment_received_def conn_reset_received_def Let_def intro: live_fine elim: ok_res_mono)
qed

lemma live_aged: "conn_live v (conn_aged ms c) = conn_live v c"
  by (simp add: conn_aged_def Let_def)

lemma fine_tick:
  assumes "conn_live v c"
  shows "ok_res (conn_fine v) (conn_tick ms c)"
proof -
  let ?d = "(conn_aged ms c)\<lparr>conn_sender := snd_tick ms (conn_sender c)\<rparr>"
  have "conn_live v (conn_aged ms c)" using assms by (simp add: live_aged)
  then have d: "conn_live v ?d"
    using snd_tick_inv [of "v_written v" "conn_sender c" ms] snd_tick_silent [of "conn_sender c" ms]
    by (simp add: conn_live_def conn_sound_def snd_tick_frame conn_goes_aged(2))
  have "ok_res (conn_fine v) (conn_collect_sender_segments_out ?d)"
    using live_collect_live [OF d] live_fine by (rule ok_res_mono)
  then show ?thesis unfolding conn_tick_eq
    using d unclean_fine [OF d] by (auto intro: live_fine)
qed

lemma written_seg_from:
  assumes "conn_sound v c" and "seg_from v seg"
  shows "seg_from (v\<lparr>v_written := v_written v @ take (unat (snd (snd_write data (conn_sender c)))) data\<rparr>) seg"
proof -
  have "snd_isn (fst (snd_write data (conn_sender c))) = snd_isn (conn_sender c)"
      "bs_end_flag (snd_stream (fst (snd_write data (conn_sender c)))) = bs_end_flag (snd_stream (conn_sender c))"
    using bs_write_frame(2) [of "snd_stream (conn_sender c)" data]
    by (cases "bs_write (snd_stream (conn_sender c)) data"; simp add: snd_write_def)+
  moreover have "seg_of_stream (v_written v @ take (unat (snd (snd_write data (conn_sender c)))) data) (v_isn v) seg"
  proof (cases "bs_end_flag (snd_stream (conn_sender c))")
    case True
    then show ?thesis using assms(2) by (simp add: seg_from_def snd_write_def ring.write_finished)
  next
    case False
    then show ?thesis using assms by (simp add: seg_from_def conn_sound_def seg_of_stream_append)
  qed
  ultimately show ?thesis using assms by (auto simp: seg_from_def conn_sound_def)
qed

lemma live_write:
  assumes "conn_live v c" and "length (v_written v) + length data + 2 < 2 ^ 31"
  shows "ok_res (\<lambda>(d, n). n = snd (snd_write data (conn_sender c))
    \<and> conn_live (v\<lparr>v_written := v_written v @ take (unat n) data\<rparr>) d) (conn_write data c)"
proof -
  let ?s = "conn_sender c"
  obtain t n where t: "snd_write data ?s = (t, n)" by force
  let ?v = "v\<lparr>v_written := v_written v @ take (unat n) data\<rparr>"
  note live = assms(1) [unfolded conn_live_def conn_sound_def]
  have tf: "bs_error (snd_stream t) = bs_error (snd_stream ?s)" "snd_window t = snd_window ?s"
      "bs_end_flag (snd_stream t) = bs_end_flag (snd_stream ?s)" "snd_segments_out t = snd_segments_out ?s"
    using t bs_write_frame(2,3) [of "snd_stream ?s" data]
    by (cases "bs_write (snd_stream ?s) data"; auto simp: snd_write_def)+
  have inv: "snd_inv (v_written ?v) t" using snd_write_inv [of "v_written v" ?s data] assms live t by simp
  have "seg_from ?v seg" if "seg_from v seg" for seg
    using written_seg_from [of v c seg data] assms(1) that t by (simp add: conn_live_def)
  moreover have "snd_silent t = snd_silent ?s" by (rule snd_silent_cong) (simp_all add: tf)
  moreover have "length (v_written ?v) + 2 < 2 ^ 31" using assms(2) by (simp add: min_def)
  ultimately have "conn_live ?v (c\<lparr>conn_sender := t\<rparr>)"
    using live tf inv by (simp add: conn_live_def conn_sound_def)
  from live_collect [OF this] show ?thesis by (auto simp: conn_write_def t ok_res_def)
qed

lemma live_end_input:
  assumes "conn_live v c"
  shows "ok_res (conn_live (v\<lparr>v_ended := True\<rparr>)) (conn_end_input_stream c)"
proof -
  let ?t = "snd_end_input (conn_sender c)" and ?v = "v\<lparr>v_ended := True\<rparr>"
  have t: "snd_window ?t = snd_window (conn_sender c)" "snd_segments_out ?t = snd_segments_out (conn_sender c)"
      "bs_end_flag (snd_stream ?t)" "bs_error (snd_stream ?t) = bs_error (snd_stream (conn_sender c))"
    by (simp_all add: snd_end_input_def bs_end_input_def)
  have "snd_silent ?t = snd_silent (conn_sender c)" by (rule snd_silent_cong) (simp_all add: t)
  moreover have "seg_from v seg \<Longrightarrow> seg_from ?v seg" for seg by (simp add: seg_from_def)
  ultimately have "conn_live ?v (c\<lparr>conn_sender := ?t\<rparr>)"
    using assms t snd_end_input_inv by (simp add: conn_live_def conn_sound_def)
  then show ?thesis unfolding conn_end_input_stream_def by (rule live_collect_live)
qed

text \<open>Reading and taking segments from the queue are possible at any time.\<close>

lemma conn_fine_halves:
  assumes "conn_fine v c" and "conn_sound w d" and "conn_sender d = conn_sender c"
    and "rcv_is_set (conn_receiver d) = rcv_is_set (conn_receiver c)"
    and "rcv_checkpoint (conn_receiver d) = rcv_checkpoint (conn_receiver c)"
    and "set (conn_segments_out d) \<subseteq> set (conn_segments_out c)" and "v_written w = v_written v"
  shows "conn_fine w d"
  using assms by (auto simp: conn_fine_def conn_live_def rcv_acking_def)

lemma fine_read:
  assumes "conn_fine v c" and d: "conn_read len c = (d, ret)"
  shows "conn_fine (v\<lparr>v_read := rcv_read_pos (conn_receiver d)\<rparr>) d"
    and "take (v_read v) (v_peer v) @ ret = take (rcv_read_pos (conn_receiver d)) (v_peer v)"
proof -
  let ?r = "conn_receiver c"
  have sound: "conn_sound v c" using assms(1) by (simp add: conn_fine_def)
  then have r: "rcv_inv (v_peer v) (v_peer_isn v) ?r" "rcv_read_pos ?r = v_read v" by (simp_all add: conn_sound_def)
  have rd: "conn_receiver d = fst (rcv_read ?r len)" "ret = snd (rcv_read ?r len)" "d = c\<lparr>conn_receiver := conn_receiver d\<rparr>"
    using d by (auto simp: conn_read_def split: prod.splits)
  have "rcv_is_set (fst (rcv_read ?r len)) = rcv_is_set ?r" "rcv_checkpoint (fst (rcv_read ?r len)) = rcv_checkpoint ?r"
    by (simp_all add: rcv_read_def split: prod.splits)
  moreover have "conn_sound (v\<lparr>v_read := rcv_read_pos (conn_receiver d)\<rparr>) (c\<lparr>conn_receiver := conn_receiver d\<rparr>)"
    using sound rcv_read_inv [OF r(1), of len] by (simp add: conn_sound_def rd(1)) (simp add: seg_from_def)
  ultimately have "conn_fine (v\<lparr>v_read := rcv_read_pos (conn_receiver d)\<rparr>) (c\<lparr>conn_receiver := conn_receiver d\<rparr>)"
    using rd(1) by (intro conn_fine_halves [OF assms(1)]) simp_all
  then show "conn_fine (v\<lparr>v_read := rcv_read_pos (conn_receiver d)\<rparr>) d" using rd(3) by simp
  show "take (v_read v) (v_peer v) @ ret = take (rcv_read_pos (conn_receiver d)) (v_peer v)"
    using rcv_step_inv [OF r(1) refl, of "Rcv_Read len"] r(2) rd by (simp split: prod.splits)
qed

lemma fine_pop:
  assumes "conn_fine v c"
  shows "conn_fine v (conn_pop c)" and "conn_segments_out c = seg # rest \<Longrightarrow> seg_from v seg"
proof -
  have "set (tl (conn_segments_out c)) \<subseteq> set (conn_segments_out c)" by (cases "conn_segments_out c") auto
  then show "conn_fine v (conn_pop c)"
    using assms by (intro conn_fine_halves [OF assms]) (auto simp: conn_fine_def conn_sound_def conn_pop_def)
  show "conn_segments_out c = seg # rest \<Longrightarrow> seg_from v seg" using assms by (simp add: conn_fine_def conn_sound_def)
qed

section \<open>The network\<close>

text \<open>
  An endpoint with its history: what its application has written (as far as the stream accepted it) and
  read, and the segments that have left it. \<open>ep_step\<close> is what one event does to it.
\<close>

record endpoint =
  ep_conn :: tcp_connection
  ep_written :: bytes
  ep_got :: bytes
  ep_sent :: "tcp_segment list"

definition ep_new :: "uint32 \<Rightarrow> tcp_config \<Rightarrow> endpoint" where
  "ep_new random cfg = \<lparr>ep_conn = conn_new random cfg, ep_written = [], ep_got = [], ep_sent = []\<rparr>"

fun ep_step :: "conn_event \<Rightarrow> endpoint \<Rightarrow> endpoint result" where
  "ep_step Ev_Connect e = bind_res (conn_connect (ep_conn e)) (\<lambda>c. Inr (e\<lparr>ep_conn := c\<rparr>))"
| "ep_step (Ev_Write data) e = bind_res (conn_write data (ep_conn e)) (\<lambda>(c, n).
     Inr (e\<lparr>ep_conn := c, ep_written := ep_written e @ take (unat n) data\<rparr>))"
| "ep_step Ev_End_Input e = bind_res (conn_end_input_stream (ep_conn e)) (\<lambda>c. Inr (e\<lparr>ep_conn := c\<rparr>))"
| "ep_step (Ev_Read len) e = (case conn_read len (ep_conn e) of (c, ret) \<Rightarrow>
     Inr (e\<lparr>ep_conn := c, ep_got := ep_got e @ ret\<rparr>))"
| "ep_step (Ev_Segment seg) e = bind_res (conn_segment_received seg (ep_conn e)) (\<lambda>c. Inr (e\<lparr>ep_conn := c\<rparr>))"
| "ep_step (Ev_Tick ms) e = bind_res (conn_tick ms (ep_conn e)) (\<lambda>c. Inr (e\<lparr>ep_conn := c\<rparr>))"
| "ep_step Ev_Pop e = (case conn_segments_out (ep_conn e) of [] \<Rightarrow> Inr e
     | seg # _ \<Rightarrow> Inr (e\<lparr>ep_conn := conn_pop (ep_conn e), ep_sent := ep_sent e @ [seg]\<rparr>))"

text \<open>
  What may happen to an endpoint \<open>a\<close> whose peer is \<open>b\<close>: any segment that \<open>b\<close> has sent may arrive, any number
  of times and in any order, or never; and no side writes more than sequence numbers can tell apart.
\<close>

fun ep_allowed :: "conn_event \<Rightarrow> endpoint \<Rightarrow> endpoint \<Rightarrow> bool" where
  "ep_allowed (Ev_Read len) a b \<longleftrightarrow> True"
| "ep_allowed Ev_Pop a b \<longleftrightarrow> True"
| "ep_allowed (Ev_Segment seg) a b \<longleftrightarrow> conn_unbroken (ep_conn a) \<and> seg \<in> set (ep_sent b)"
| "ep_allowed (Ev_Write data) a b \<longleftrightarrow> conn_unbroken (ep_conn a)
     \<and> int (length (ep_written a)) + int (length data) + 2 < 2 ^ 31"
| "ep_allowed Ev_Connect a b \<longleftrightarrow> conn_unbroken (ep_conn a)"
| "ep_allowed Ev_End_Input a b \<longleftrightarrow> conn_unbroken (ep_conn a)"
| "ep_allowed (Ev_Tick ms) a b \<longleftrightarrow> conn_unbroken (ep_conn a)"

inductive net_step :: "endpoint \<times> endpoint \<Rightarrow> endpoint \<times> endpoint \<Rightarrow> bool" where
  left: "ep_allowed ev a b \<Longrightarrow> ep_step ev a = Inr a' \<Longrightarrow> net_step (a, b) (a', b)"
| right: "ep_allowed ev b a \<Longrightarrow> ep_step ev b = Inr b' \<Longrightarrow> net_step (a, b) (a, b')"

inductive net_reach :: "endpoint \<times> endpoint \<Rightarrow> endpoint \<times> endpoint \<Rightarrow> bool" for s where
  start: "net_reach s s"
| more: "net_reach s t \<Longrightarrow> net_step t u \<Longrightarrow> net_reach s u"

definition view_of :: "endpoint \<Rightarrow> endpoint \<Rightarrow> view" where
  "view_of a b = \<lparr>v_written = ep_written a, v_isn = snd_isn (conn_sender (ep_conn a)),
     v_ended = bs_end_flag (snd_stream (conn_sender (ep_conn a))),
     v_read = rcv_read_pos (conn_receiver (ep_conn a)),
     v_peer = ep_written b, v_peer_isn = snd_isn (conn_sender (ep_conn b))\<rparr>"

lemma view_of_frame [simp]:
  "v_written (view_of a b) = ep_written a" "v_isn (view_of a b) = snd_isn (conn_sender (ep_conn a))"
  "v_ended (view_of a b) = bs_end_flag (snd_stream (conn_sender (ep_conn a)))"
  "v_read (view_of a b) = rcv_read_pos (conn_receiver (ep_conn a))"
  "v_peer (view_of a b) = ep_written b" "v_peer_isn (view_of a b) = snd_isn (conn_sender (ep_conn b))"
  by (simp_all add: view_of_def)

definition ep_inv :: "endpoint \<Rightarrow> endpoint \<Rightarrow> bool" where
  "ep_inv a b \<longleftrightarrow> conn_fine (view_of a b) (ep_conn a) \<and> (\<forall>seg \<in> set (ep_sent a). seg_from (view_of a b) seg)
     \<and> ep_got a = take (rcv_read_pos (conn_receiver (ep_conn a))) (ep_written b)
     \<and> (conn_unbroken (ep_conn a) \<longrightarrow> (\<forall>seg \<in> set (ep_sent a). \<not> th_rst (seg_header seg)))"

text \<open>What one side has sent is what the other side may be given.\<close>

lemma sent_seg_for: "ep_inv b a \<Longrightarrow> seg \<in> set (ep_sent b) \<Longrightarrow> seg_for (view_of a b) seg"
  by (auto simp: ep_inv_def seg_from_def seg_for_def)

text \<open>A step that changes nothing but the connection.\<close>

lemma ep_inv_conn:
  assumes "ep_inv a b" and "ep_inv b a" and "conn_fine (view_of a b) c"
    and "conn_unbroken c \<Longrightarrow> conn_unbroken (ep_conn a)"
  shows "ep_inv (a\<lparr>ep_conn := c\<rparr>) b" and "ep_inv b (a\<lparr>ep_conn := c\<rparr>)"
proof -
  let ?a = "a\<lparr>ep_conn := c\<rparr>"
  have c: "snd_isn (conn_sender c) = snd_isn (conn_sender (ep_conn a))"
      "bs_end_flag (snd_stream (conn_sender c)) = bs_end_flag (snd_stream (conn_sender (ep_conn a)))"
      "rcv_read_pos (conn_receiver c) = rcv_read_pos (conn_receiver (ep_conn a))"
    using assms(3) by (simp_all add: conn_fine_def conn_sound_def)
  then have v: "view_of ?a b = view_of a b" "view_of b ?a = view_of b a" by (simp_all add: view_of_def)
  show "ep_inv ?a b" and "ep_inv b ?a" using assms c by (simp_all add: ep_inv_def v)
qed

lemma fine_peer_append:
  assumes "conn_fine v c" and "length (v_peer v @ T) + 2 < 2 ^ 31"
  shows "conn_fine (v\<lparr>v_peer := v_peer v @ T\<rparr>) c"
proof -
  have "seg_from (v\<lparr>v_peer := v_peer v @ T\<rparr>) seg = seg_from v seg" for seg by (simp add: seg_from_def)
  moreover have "conn_sound v c" using assms(1) by (simp add: conn_fine_def)
  ultimately have "conn_sound (v\<lparr>v_peer := v_peer v @ T\<rparr>) c"
    using rcv_inv_append [of "v_peer v" "v_peer_isn v" "conn_receiver c" T] assms(2) by (simp add: conn_sound_def)
  then show ?thesis by (intro conn_fine_halves [OF assms(1)]) simp_all
qed

lemma ep_got_length:
  assumes "ep_inv a b"
  shows "rcv_read_pos (conn_receiver (ep_conn a)) \<le> length (ep_written b)"
proof -
  have "sr_inv (ep_written b) (rcv_reassembler (conn_receiver (ep_conn a)))"
    using assms by (simp add: ep_inv_def conn_fine_def conn_sound_def rcv_inv_def)
  then show ?thesis using sr_invD(11,12) sr_inv_bounds(1) by (meson order_trans)
qed

lemma ep_inv_write:
  assumes ab: "ep_inv a b" and ba: "ep_inv b a" and "ep_allowed (Ev_Write data) a b"
  shows "\<exists>a'. ep_step (Ev_Write data) a = Inr a' \<and> ep_inv a' b \<and> ep_inv b a'"
proof -
  let ?v = "view_of a b"
  have live: "conn_live ?v (ep_conn a)" and len: "length (ep_written a) + length data + 2 < 2 ^ 31"
    using ab assms(3) by (simp_all add: ep_inv_def conn_fine_def)
  obtain d n where d: "conn_write data (ep_conn a) = Inr (d, n)" "n = snd (snd_write data (conn_sender (ep_conn a)))"
      "conn_live (?v\<lparr>v_written := ep_written a @ take (unat n) data\<rparr>) d"
    using live_write [OF live, of data] len by (auto simp: ok_res_def)
  let ?a = "a\<lparr>ep_conn := d, ep_written := ep_written a @ take (unat n) data\<rparr>"
  have same: "snd_isn (conn_sender d) = snd_isn (conn_sender (ep_conn a))"
      "bs_end_flag (snd_stream (conn_sender d)) = bs_end_flag (snd_stream (conn_sender (ep_conn a)))"
      "rcv_read_pos (conn_receiver d) = rcv_read_pos (conn_receiver (ep_conn a))"
    using d(3) by (simp_all add: conn_live_def conn_sound_def)
  have un: "conn_unbroken (ep_conn a)" using live by (simp add: conn_live_def)
  have v: "view_of ?a b = ?v\<lparr>v_written := ep_written a @ take (unat n) data\<rparr>"
      "view_of b ?a = (view_of b a)\<lparr>v_peer := v_peer (view_of b a) @ take (unat n) data\<rparr>"
    using same by (simp_all add: view_of_def)
  have "seg_from (view_of ?a b) seg" if "seg \<in> set (ep_sent a)" for seg
    unfolding v using written_seg_from [of ?v "ep_conn a" seg data] that ab d(2) live
    by (simp add: ep_inv_def conn_live_def)
  moreover have "conn_fine (view_of ?a b) d" unfolding v using d(3) by (rule live_fine)
  ultimately have "ep_inv ?a b" using ab same un by (simp add: ep_inv_def)
  moreover have "conn_fine (view_of b ?a) (ep_conn b)"
    unfolding v using ba len by (intro fine_peer_append) (simp_all add: ep_inv_def min_def)
  then have "ep_inv b ?a" using ba ep_got_length [OF ba] by (auto simp: ep_inv_def v(2)) (auto simp: seg_from_def)
  ultimately show ?thesis using d(1) by simp
qed

lemma ep_inv_end_input:
  assumes ab: "ep_inv a b" and ba: "ep_inv b a" and "ep_allowed Ev_End_Input a b"
  shows "\<exists>a'. ep_step Ev_End_Input a = Inr a' \<and> ep_inv a' b \<and> ep_inv b a'"
proof -
  have un: "conn_unbroken (ep_conn a)" using assms(3) by simp
  then have "conn_live (view_of a b) (ep_conn a)" using ab by (simp add: ep_inv_def conn_fine_def)
  then obtain d where d: "conn_end_input_stream (ep_conn a) = Inr d" "conn_live ((view_of a b)\<lparr>v_ended := True\<rparr>) d"
    using live_end_input by (auto simp: ok_res_def)
  let ?a = "a\<lparr>ep_conn := d\<rparr>"
  have same: "snd_isn (conn_sender d) = snd_isn (conn_sender (ep_conn a))" "bs_end_flag (snd_stream (conn_sender d))"
      "rcv_read_pos (conn_receiver d) = rcv_read_pos (conn_receiver (ep_conn a))"
    using d(2) by (simp_all add: conn_live_def conn_sound_def)
  then have v: "view_of ?a b = (view_of a b)\<lparr>v_ended := True\<rparr>" "view_of b ?a = view_of b a"
    by (simp_all add: view_of_def)
  have "conn_fine (view_of ?a b) d" unfolding v using d(2) by (rule live_fine)
  moreover have "seg_from (view_of a b) seg \<Longrightarrow> seg_from (view_of ?a b) seg" for seg
    unfolding v by (simp add: seg_from_def)
  ultimately have "ep_inv ?a b" using ab same un by (simp add: ep_inv_def)
  moreover have "ep_inv b ?a" using ba by (simp add: ep_inv_def v)
  ultimately show ?thesis using d(1) by simp
qed

lemma ep_inv_read:
  assumes ab: "ep_inv a b" and ba: "ep_inv b a"
  shows "\<exists>a'. ep_step (Ev_Read len) a = Inr a' \<and> ep_inv a' b \<and> ep_inv b a'"
proof -
  obtain d ret where d: "conn_read len (ep_conn a) = (d, ret)" by force
  let ?a = "a\<lparr>ep_conn := d, ep_got := ep_got a @ ret\<rparr>"
  have fine: "conn_fine ((view_of a b)\<lparr>v_read := rcv_read_pos (conn_receiver d)\<rparr>) d"
      "take (rcv_read_pos (conn_receiver (ep_conn a))) (ep_written b) @ ret
        = take (rcv_read_pos (conn_receiver d)) (ep_written b)"
    using fine_read [OF _ d, of "view_of a b"] ab by (simp_all add: ep_inv_def)
  have sender: "conn_sender d = conn_sender (ep_conn a)" using d by (auto simp: conn_read_def split: prod.splits)
  then have v: "view_of ?a b = (view_of a b)\<lparr>v_read := rcv_read_pos (conn_receiver d)\<rparr>" "view_of b ?a = view_of b a"
    by (simp_all add: view_of_def)
  have "seg_from (view_of ?a b) seg = seg_from (view_of a b) seg" for seg unfolding v by (simp add: seg_from_def)
  then have "ep_inv ?a b" unfolding ep_inv_def v using ab fine sender by (simp add: ep_inv_def)
  moreover have "ep_inv b ?a" unfolding ep_inv_def v using ba by (simp add: ep_inv_def)
  ultimately show ?thesis using d by simp
qed

lemma ep_inv_pop:
  assumes ab: "ep_inv a b" and ba: "ep_inv b a"
  shows "\<exists>a'. ep_step Ev_Pop a = Inr a' \<and> ep_inv a' b \<and> ep_inv b a'"
proof (cases "conn_segments_out (ep_conn a)")
  case (Cons seg rest)
  let ?c = "a\<lparr>ep_conn := conn_pop (ep_conn a)\<rparr>"
  have pop: "conn_fine (view_of a b) (conn_pop (ep_conn a))" "seg_from (view_of a b) seg"
    using fine_pop [of "view_of a b" "ep_conn a"] ab Cons by (auto simp: ep_inv_def)
  have sender: "conn_sender (conn_pop (ep_conn a)) = conn_sender (ep_conn a)" by (simp add: conn_pop_def)
  note c = ep_inv_conn [OF ab ba pop(1)]
  have rst: "conn_unbroken (ep_conn a) \<Longrightarrow> \<not> th_rst (seg_header seg)"
    using ab Cons by (simp add: ep_inv_def conn_fine_def conn_live_def)
  have v: "view_of (?c\<lparr>ep_sent := ep_sent a @ [seg]\<rparr>) b = view_of a b"
      "view_of b (?c\<lparr>ep_sent := ep_sent a @ [seg]\<rparr>) = view_of b ?c" "view_of ?c b = view_of a b"
    by (simp_all add: view_of_def conn_pop_def)
  have "ep_inv (?c\<lparr>ep_sent := ep_sent a @ [seg]\<rparr>) b" "ep_inv b (?c\<lparr>ep_sent := ep_sent a @ [seg]\<rparr>)"
    using c pop(2) rst sender unfolding ep_inv_def v by auto
  then show ?thesis using Cons by simp
qed (use assms in simp)

lemma ep_inv_step:
  assumes "ep_inv a b" and "ep_inv b a" and "ep_allowed ev a b"
  shows "\<exists>a'. ep_step ev a = Inr a' \<and> ep_inv a' b \<and> ep_inv b a'"
proof -
  let ?v = "view_of a b"
  have conn: "\<exists>a'. bind_res m (\<lambda>c. Inr (a\<lparr>ep_conn := c\<rparr>)) = Inr a' \<and> ep_inv a' b \<and> ep_inv b a'"
    if "ok_res (conn_fine ?v) m" and "conn_unbroken (ep_conn a)" for m
    using that ep_inv_conn [OF assms(1,2)] by (auto simp: ok_res_def)
  have live: "conn_unbroken (ep_conn a) \<Longrightarrow> conn_live ?v (ep_conn a)"
    using assms(1) by (simp add: ep_inv_def conn_fine_def)
  show ?thesis
  proof (cases ev)
    case Ev_Connect
    then show ?thesis using conn [OF ok_res_mono [OF live_collect_live [OF live] live_fine]] assms(3)
      by (simp add: conn_connect_def)
  next
    case (Ev_Segment seg)
    then show ?thesis using conn [OF fine_segment_received(1) [OF live sent_seg_for [OF assms(2)]]] assms(3) by simp
  next
    case (Ev_Tick ms)
    then show ?thesis using conn [OF fine_tick [OF live]] assms(3) by simp
  qed (use assms ep_inv_write ep_inv_end_input ep_inv_read ep_inv_pop in blast)+
qed

definition cfg_ok :: "tcp_config \<Rightarrow> bool" where
  "cfg_ok cfg \<longleftrightarrow> unat (cfg_recv_capacity cfg) < 2 ^ 63 - 1 \<and> unat (cfg_send_capacity cfg) < 2 ^ 63 - 1"

lemma ep_inv_new:
  assumes "cfg_ok ca"
  shows "ep_inv (ep_new ra ca) (ep_new rb cb)"
proof -
  let ?s = "snd_new ra (cfg_send_capacity ca) (cfg_rt_timeout ca) (cfg_fixed_isn ca)"
  have "snd_inv [] ?s" using assms by (intro snd_new_inv) (simp add: cfg_ok_def)
  moreover have "rcv_inv [] isn (rcv_new (cfg_recv_capacity ca))" for isn
    using assms by (intro rcv_new_inv) (simp_all add: cfg_ok_def)
  moreover have "snd_silent ?s" "\<not> bs_error (snd_stream ?s)"
    by (simp_all add: snd_silent_def snd_new_def win_new_def bs_new_def)
  ultimately have "conn_live (view_of (ep_new ra ca) (ep_new rb cb)) (conn_new ra ca)"
    by (simp add: conn_live_def conn_sound_def ep_new_def conn_new_def rcv_acking_def) (simp add: rcv_new_def)
  from live_fine [OF this] show ?thesis by (simp add: ep_inv_def ep_new_def)
qed

lemma net_inv:
  assumes "cfg_ok ca" and "cfg_ok cb" and "net_reach (ep_new ra ca, ep_new rb cb) s"
  shows "ep_inv (fst s) (snd s) \<and> ep_inv (snd s) (fst s)"
  using assms(3)
proof induction
  case start
  then show ?case using ep_inv_new assms(1,2) by simp
next
  case (more t u)
  from more.hyps(2) more.IH show ?case
    by cases (auto dest: ep_inv_step)
qed

lemma ep_inv_prefix:
  assumes "ep_inv a b"
  shows "\<exists>rest. ep_written b = ep_got a @ bs_contents (rcv_stream_out (conn_receiver (ep_conn a))) @ rest"
proof -
  let ?r = "conn_receiver (ep_conn a)"
  have inv: "sr_inv (ep_written b) (rcv_reassembler ?r)"
    using assms by (simp add: ep_inv_def conn_fine_def conn_sound_def rcv_inv_def)
  let ?n = "sr_written_pos (rcv_reassembler ?r)"
  have "take (rcv_read_pos ?r) (ep_written b) = take (rcv_read_pos ?r) (take ?n (ep_written b))"
    using sr_invD(11) [OF inv] by (simp add: min_def)
  then have "ep_got a @ bs_contents (rcv_stream_out ?r) = take ?n (ep_written b)"
    using assms by (simp only: ep_inv_def sr_invD(10) [OF inv] append_take_drop_id rcv_stream_out_def)
  then have "ep_written b = (ep_got a @ bs_contents (rcv_stream_out ?r)) @ drop ?n (ep_written b)" by simp
  then show ?thesis by auto
qed

text \<open>Runs of the network from a schedule, for concrete inputs: each entry says which side takes the
  next event.\<close>

fun net_exec :: "(bool \<times> (endpoint \<Rightarrow> endpoint \<Rightarrow> conn_event)) list \<Rightarrow> endpoint \<times> endpoint
    \<Rightarrow> (endpoint \<times> endpoint) option" where
  "net_exec [] s = Some s"
| "net_exec ((True, f) # evs) (a, b) = (if ep_allowed (f a b) a b
     then case ep_step (f a b) a of Inl _ \<Rightarrow> None | Inr a' \<Rightarrow> net_exec evs (a', b) else None)"
| "net_exec ((False, f) # evs) (a, b) = (if ep_allowed (f b a) b a
     then case ep_step (f b a) b of Inl _ \<Rightarrow> None | Inr b' \<Rightarrow> net_exec evs (a, b') else None)"

lemma net_exec_reach:
  assumes "net_exec evs t = Some u" and "net_reach s t"
  shows "net_reach s u"
  using assms
proof (induction evs t rule: net_exec.induct)
  case (2 f evs a b)
  then show ?case by (auto split: if_splits sum.splits intro: net_reach.more net_step.left)
next
  case (3 f evs a b)
  then show ?case by (auto split: if_splits sum.splits intro: net_reach.more net_step.right)
qed simp

section \<open>What an endpoint has gone through\<close>

inductive ep_reach :: "endpoint \<Rightarrow> endpoint \<Rightarrow> bool" for e where
  start: "ep_reach e e"
| more: "ep_reach e f \<Longrightarrow> ep_step ev f = Inr g \<Longrightarrow> ep_reach e g"

lemma ep_step_conn: "ep_step ev e = Inr f \<Longrightarrow> ep_conn f = ep_conn e \<or> conn_step (ep_conn e) ev (ep_conn f)"
  using conn_step.pop [of "ep_conn e"]
  by (cases ev) (auto simp: bind_res_eq_Inr intro: conn_step.intros split: prod.splits list.splits)

lemma ep_reach_conn: "ep_reach e f \<Longrightarrow> conn_reach (ep_conn e) (ep_conn f)"
proof (induction rule: ep_reach.induct)
  case (more f ev g)
  then show ?case using ep_step_conn [of ev f g] by (auto intro: conn_reach.more)
qed (rule conn_reach.start)

abbreviation ep_stream :: "endpoint \<Rightarrow> byte_stream" where
  "ep_stream e \<equiv> snd_stream (conn_sender (ep_conn e))"

lemma ep_step_end: "ep_step ev e = Inr f \<Longrightarrow> ev \<noteq> Ev_End_Input \<Longrightarrow> bs_end_flag (ep_stream f) = bs_end_flag (ep_stream e)"
  using ep_step_conn [of ev e f] conn_goes_step [of "ep_conn e" ev "ep_conn f"] by (auto simp: conn_goes_def)

lemma ep_reach_stream: "ep_reach e f \<Longrightarrow> bs_inv (ep_stream e) \<Longrightarrow> bs_inv (ep_stream f)"
  using conn_lives_reach [OF ep_reach_conn] by (simp add: conn_lives_def)

lemma ep_new_stream: "cfg_ok cfg \<Longrightarrow> bs_inv (ep_stream (ep_new random cfg))"
  by (simp add: ep_new_def conn_new_def snd_new_def cfg_ok_def bs_new_correct)

text \<open>A write of no more bytes than there is room for is accepted whole.\<close>

lemma conn_write_whole:
  assumes "bs_inv (snd_stream (conn_sender c))" and "\<not> bs_end_flag (snd_stream (conn_sender c))"
    and "length data \<le> unat (conn_remaining_outbound_capacity c)" and "conn_write data c = Inr (d, n)"
  shows "n = size_of data"
proof -
  let ?st = "snd_stream (conn_sender c)"
  have "length (bs_contents ?st) + length data \<le> unat (bs_capacity ?st)"
    using assms(1,3) length_contents_le [of ?st] by (simp add: conn_remaining_outbound_capacity_def unat_remaining_capacity)
  then have "snd (bs_write ?st data) = size_of data" by (rule ring.write_whole(2) [OF assms(1,2)])
  then show ?thesis using assms(4) by (auto simp: conn_write_def snd_write_def bind_res_eq_Inr split: prod.splits)
qed

lemma unat_size_of_read: "length data \<le> unat (n :: size_t) \<Longrightarrow> unat (size_of data) = length data"
  using unat_less_size_limit [of n] by (intro unat_size_of) linarith

section \<open>Properties\<close>

text \<open>
  (C1) TCP works, end to end: two connections exchange segments over a network that may lose, repeat,
  delay and reorder them in any way, while their applications write, read and close and their clocks
  tick at any time. Then on both sides the bytes that the application has read, followed by the bytes
  that are ready to be read, are a prefix of the bytes that the other application has written: nothing
  is corrupted, duplicated, reordered or invented. A side that was reset or has given up is left alone,
  except that what has arrived may still be read. (Each side writes less than \<open>2^31 - 2\<close> bytes.)
\<close>

theorem tcp_network_delivers_prefix:
  assumes "cfg_ok ca" and "cfg_ok cb" and "net_reach (ep_new ra ca, ep_new rb cb) (a, b)"
  shows "(\<exists>rest. ep_written b = ep_got a @ bs_contents (rcv_stream_out (conn_receiver (ep_conn a))) @ rest)
    \<and> (\<exists>rest. ep_written a = ep_got b @ bs_contents (rcv_stream_out (conn_receiver (ep_conn b))) @ rest)"
  using net_inv [OF assms] ep_inv_prefix by simp

abbreviation net_small :: "uint32 \<Rightarrow> endpoint" where
  "net_small isn \<equiv> ep_new 0 (cfg_default\<lparr>cfg_recv_capacity := 4, cfg_send_capacity := 4,
     cfg_fixed_isn := Some (WrappingInt32 isn)\<rparr>)"

abbreviation net_open :: "(bool \<times> (endpoint \<Rightarrow> endpoint \<Rightarrow> conn_event)) list" where
  "net_open \<equiv> [(True, \<lambda>a b. Ev_Connect), (True, \<lambda>a b. Ev_Pop), (False, \<lambda>b a. Ev_Segment (ep_sent a ! 0)),
     (False, \<lambda>b a. Ev_Pop), (True, \<lambda>a b. Ev_Segment (ep_sent b ! 0)), (True, \<lambda>a b. Ev_Pop),
     (False, \<lambda>b a. Ev_Segment (ep_sent a ! 1))]"

abbreviation net_transfer :: "(bool \<times> (endpoint \<Rightarrow> endpoint \<Rightarrow> conn_event)) list" where
  "net_transfer \<equiv> [(True, \<lambda>a b. Ev_Write [1, 2]), (True, \<lambda>a b. Ev_Write [3]), (True, \<lambda>a b. Ev_Pop),
     (True, \<lambda>a b. Ev_Pop), (False, \<lambda>b a. Ev_Segment (ep_sent a ! 3)), (False, \<lambda>b a. Ev_Segment (ep_sent a ! 2)),
     (False, \<lambda>b a. Ev_Segment (ep_sent a ! 3)), (False, \<lambda>b a. Ev_Read 2)]"

theorem tcp_network_delivers_prefix_witness:
  "\<exists>a b. net_reach (net_small 0xffffffff, net_small 0xffffffff) (a, b) \<and> ep_written a = [1, 2, 3] \<and> ep_got b = [1, 2]
    \<and> (\<exists>rest. ep_written a = ep_got b @ bs_contents (rcv_stream_out (conn_receiver (ep_conn b))) @ rest)"
proof -
  let ?run = "net_exec (net_open @ net_transfer) (net_small 0xffffffff, net_small 0xffffffff)"
  have "map_option (\<lambda>(a, b). (ep_written a, ep_got b)) ?run = Some ([1, 2, 3], [1, 2])" by code_simp
  then obtain a b where run: "?run = Some (a, b)" and h: "ep_written a = [1, 2, 3]" "ep_got b = [1, 2]" by auto
  have reach: "net_reach (net_small 0xffffffff, net_small 0xffffffff) (a, b)"
    using run net_reach.start by (rule net_exec_reach)
  have ok: "cfg_ok (cfg_default\<lparr>cfg_recv_capacity := 4, cfg_send_capacity := 4, cfg_fixed_isn := i\<rparr>)" for i
    by (simp add: cfg_ok_def)
  show ?thesis using tcp_network_delivers_prefix [OF ok ok reach] reach h by blast
qed

text \<open>
  (C2) No exception is thrown in such a network: in every reachable state, whatever the network, the
  application or the clock may do next to either side returns. (The reassembler may read one element
  past the end of a vector; the result does not depend on what it finds there, and the model goes on.)
\<close>

theorem tcp_network_never_throws:
  assumes "cfg_ok ca" and "cfg_ok cb" and "net_reach (ep_new ra ca, ep_new rb cb) (a, b)"
  shows "(ep_allowed ev a b \<longrightarrow> (\<exists>a'. ep_step ev a = Inr a')) \<and> (ep_allowed ev b a \<longrightarrow> (\<exists>b'. ep_step ev b = Inr b'))"
  using net_inv [OF assms] ep_inv_step [of a b ev] ep_inv_step [of b a ev] by auto

theorem tcp_network_never_throws_witness:
  "\<exists>a'. ep_step Ev_Connect (net_small 0xffffffff) = Inr a'"
proof -
  have ok: "cfg_ok (cfg_default\<lparr>cfg_recv_capacity := 4, cfg_send_capacity := 4, cfg_fixed_isn := i\<rparr>)" for i
    by (simp add: cfg_ok_def)
  have "conn_unbroken (ep_conn (net_small 0xffffffff))" by (simp add: ep_new_def conn_new_def snd_new_def bs_new_def)
  then show ?thesis
    using tcp_network_never_throws [OF ok ok net_reach.start, of Ev_Connect 0 _ 0 None] by simp
qed

text \<open>
  A connection that has been reset is not silent: when its owner ends the stream, it fills the window of
  the peer with FINs, each with a new sequence number, since the state ERROR does not stop
  \<open>fill_window\<close>. The event loop of the socket can do this when the reset arrives in the same round as the
  end of the owner's stream.
\<close>

lemma reset_then_end_sends_fins:
  "\<exists>a b c d. net_reach (net_small 0xffffffff, net_small 0xffffffff) (a, b)
    \<and> conn_segment_received (set_rst True seg_new) (ep_conn a) = Inr c \<and> \<not> conn_active c
    \<and> conn_end_input_stream c = Inr d
    \<and> map (\<lambda>seg. (th_fin (seg_header seg), raw_value (th_seqno (seg_header seg)))) (conn_segments_out d)
        = [(True, 0), (True, 1), (True, 2), (True, 3)]"
proof -
  let ?run = "net_exec net_open (net_small 0xffffffff, net_small 0xffffffff)"
  let ?fins = "\<lambda>a. case conn_segment_received (set_rst True seg_new) (ep_conn a) of Inl _ \<Rightarrow> None
    | Inr c \<Rightarrow> (case conn_end_input_stream c of Inl _ \<Rightarrow> None | Inr d \<Rightarrow> if conn_active c then None
        else Some (map (\<lambda>seg. (th_fin (seg_header seg), raw_value (th_seqno (seg_header seg)))) (conn_segments_out d)))"
  have run: "map_option (\<lambda>(a, b). ?fins a) ?run = Some (Some [(True, 0), (True, 1), (True, 2), (True, 3)])" by code_simp
  then obtain a b where ab: "?run = Some (a, b)" and f: "?fins a = Some [(True, 0), (True, 1), (True, 2), (True, 3)]"
    by auto
  have "net_reach (net_small 0xffffffff, net_small 0xffffffff) (a, b)" using ab net_reach.start by (rule net_exec_reach)
  then show ?thesis using f by (fastforce split: sum.splits if_splits)
qed

end
