(* ===== verification/IPv4.thy ===== *)
theory IPv4
  imports TCP_Segment
begin

text \<open>
  IPv4 headers and datagrams (\<open>libsponge/tcp_helpers/ipv4_header.hh\<close>, \<open>ipv4_header.cc\<close>,
  \<open>ipv4_datagram.hh\<close>, \<open>ipv4_datagram.cc\<close>): the fields, parsing and serialising, and the
  contribution of the pseudo-header to the TCP checksum.
\<close>

section \<open>IPv4Header\<close>

definition ih_LENGTH :: size_t where
  "ih_LENGTH = 20"

definition DEFAULT_TTL :: uint8 where
  "DEFAULT_TTL = 128"

definition PROTO_TCP :: uint8 where
  "PROTO_TCP = 6"

record ipv4_header =
  ih_ver :: uint8
  ih_hlen :: uint8
  ih_tos :: uint8
  ih_len :: uint16
  ih_id :: uint16
  ih_df :: bool
  ih_mf :: bool
  ih_offset :: uint16
  ih_ttl :: uint8
  ih_proto :: uint8
  ih_cksum :: uint16
  ih_src :: uint32
  ih_dst :: uint32

definition ih_new :: ipv4_header where
  "ih_new = \<lparr>ih_ver = 4, ih_hlen = ucast (ih_LENGTH div 4), ih_tos = 0, ih_len = 0, ih_id = 0,
     ih_df = True, ih_mf = False, ih_offset = 0, ih_ttl = DEFAULT_TTL, ih_proto = PROTO_TCP,
     ih_cksum = 0, ih_src = 0, ih_dst = 0\<rparr>"

lemma ih_new_hlen [simp]: "ih_hlen ih_new = 5"
  by (simp add: ih_new_def ih_LENGTH_def)

text \<open>The sequence of reads and assignments in \<open>parse\<close>.\<close>

definition ih_read :: "net_parser \<Rightarrow> (ipv4_header \<times> net_parser) result" where
  "ih_read p =
     bind_res (np_u8 p) (\<lambda>(first_byte, p).
     bind_res (np_u8 p) (\<lambda>(tos, p).
     bind_res (np_u16 p) (\<lambda>(len, p).
     bind_res (np_u16 p) (\<lambda>(id, p).
     bind_res (np_u16 p) (\<lambda>(fo_val, p).
     bind_res (np_u8 p) (\<lambda>(ttl, p).
     bind_res (np_u8 p) (\<lambda>(proto, p).
     bind_res (np_u16 p) (\<lambda>(cksum, p).
     bind_res (np_u32 p) (\<lambda>(src, p).
     bind_res (np_u32 p) (\<lambda>(dst, p).
     Inr (\<lparr>ih_ver = drop_bit 4 first_byte, ih_hlen = first_byte AND 0x0f, ih_tos = tos, ih_len = len,
           ih_id = id, ih_df = (fo_val AND 0x4000 \<noteq> 0), ih_mf = (fo_val AND 0x2000 \<noteq> 0),
           ih_offset = fo_val AND 0x1fff, ih_ttl = ttl, ih_proto = proto, ih_cksum = cksum,
           ih_src = src, ih_dst = dst\<rparr>, p)))))))))))"

text \<open>\<open>parse\<close> of a header \<open>h\<close>: the header after the call, the parser after the call, the answer.\<close>

definition ih_parse :: "ipv4_header \<Rightarrow> net_parser \<Rightarrow> (ipv4_header \<times> net_parser \<times> ParseResult) result" where
  "ih_parse h p =
     (let original_serialized_version = np_buffer p;
          data_size = buf_size (np_buffer p)
      in if data_size < ih_LENGTH then Inr (h, p, PacketTooShort)
         else bind_res (ih_read p) (\<lambda>(h, p).
           if data_size < 4 * ucast (ih_hlen h) then Inr (h, p, PacketTooShort)
           else if ih_ver h \<noteq> 4 then Inr (h, p, WrongIPVersion)
           else if ih_hlen h < 5 then Inr (h, p, HeaderTooShort)
           else if data_size \<noteq> ucast (ih_len h) then Inr (h, p, TruncatedPacket)
           else bind_res (np_remove_prefix (ucast (ih_hlen h) * 4 - ih_LENGTH) p) (\<lambda>p.
             if np_error p then Inr (h, p, np_get_error p)
             else let check = ck_add (ck_new 0)
                        (take (4 * unat (ih_hlen h)) (buf_str original_serialized_version))
                  in if ck_value check \<noteq> 0 then Inr (h, p, BadChecksum) else Inr (h, p, NoError))))"

definition ih_first_byte :: "ipv4_header \<Rightarrow> uint8" where
  "ih_first_byte h = push_bit 4 (ih_ver h) OR (ih_hlen h AND 0xf)"

definition ih_fo_val :: "ipv4_header \<Rightarrow> uint16" where
  "ih_fo_val h = (if ih_df h then 0x4000 else 0) OR (if ih_mf h then 0x2000 else 0)
     OR (ih_offset h AND 0x1fff)"

definition ih_serialize :: "ipv4_header \<Rightarrow> bytes result" where
  "ih_serialize h =
     (if ih_ver h \<noteq> 4 then Inl (Runtime_Error ''wrong IP version'')
      else if 4 * ucast (ih_hlen h) < ih_LENGTH then Inl (Runtime_Error ''IP header too short'')
      else let ret = [];
               ret = nu_u8 ret (ih_first_byte h);
               ret = nu_u8 ret (ih_tos h);
               ret = nu_u16 ret (ih_len h);
               ret = nu_u16 ret (ih_id h);
               ret = nu_u16 ret (ih_fo_val h);
               ret = nu_u8 ret (ih_ttl h);
               ret = nu_u8 ret (ih_proto h);
               ret = nu_u16 ret (ih_cksum h);
               ret = nu_u32 ret (ih_src h);
               ret = nu_u32 ret (ih_dst h)
           in Inr (vec_resize (4 * unat (ih_hlen h)) 0 ret))"

text \<open>The difference is an \<open>int\<close> that is cut to 16 bits.\<close>

definition ih_payload_length :: "ipv4_header \<Rightarrow> uint16" where
  "ih_payload_length h = ih_len h - 4 * ucast (ih_hlen h)"

definition ih_pseudo_cksum :: "ipv4_header \<Rightarrow> uint32" where
  "ih_pseudo_cksum h =
     (let pcksum = drop_bit 16 (ih_src h) + (ih_src h AND 0xffff);
          pcksum = pcksum + (drop_bit 16 (ih_dst h) + (ih_dst h AND 0xffff));
          pcksum = pcksum + ucast (ih_proto h);
          pcksum = pcksum + ucast (ih_payload_length h)
      in pcksum)"

section \<open>IPv4Datagram\<close>

record ipv4_datagram =
  ip_header :: ipv4_header
  ip_payload :: buffer_list

definition ip_new :: ipv4_datagram where
  "ip_new = \<lparr>ip_header = ih_new, ip_payload = []\<rparr>"

text \<open>The answer of the header's parser is dropped.\<close>

definition ip_parse :: "ipv4_datagram \<Rightarrow> buffer \<Rightarrow> (ipv4_datagram \<times> ParseResult) result" where
  "ip_parse d b =
     bind_res (ih_parse (ip_header d) (np_new b)) (\<lambda>(h, p, _).
       let d = \<lparr>ip_header = h, ip_payload = [np_buffer p]\<rparr>
       in if blist_size (ip_payload d) \<noteq> ucast (ih_payload_length (ip_header d))
          then Inr (d, PacketTooShort) else Inr (d, np_get_error p))"

definition ip_serialize :: "ipv4_datagram \<Rightarrow> buffer_list result" where
  "ip_serialize d =
     (if blist_size (ip_payload d) \<noteq> ucast (ih_payload_length (ip_header d))
      then Inl (Runtime_Error ''IPv4Datagram::serialize: payload is wrong size'')
      else let header_out = (ip_header d)\<lparr>ih_cksum := 0\<rparr>
           in bind_res (ih_serialize header_out) (\<lambda>header_zero_checksum.
              let check = ck_add (ck_new 0) header_zero_checksum;
                  header_out = header_out\<lparr>ih_cksum := ck_value check\<rparr>
              in bind_res (ih_serialize header_out) (\<lambda>str.
                 Inr (blist_append (blist_append [] [buf_of_string str]) (ip_payload d)))))"

section \<open>The header on the wire\<close>

text \<open>The fields of a header at their offsets.\<close>

definition ih_fields :: "bytes \<Rightarrow> ipv4_header" where
  "ih_fields str =
     (let first_byte = be_field 0 1 str :: uint8; fo_val = be_field 6 2 str :: uint16
      in \<lparr>ih_ver = drop_bit 4 first_byte, ih_hlen = first_byte AND 0x0f, ih_tos = be_field 1 1 str,
          ih_len = be_field 2 2 str, ih_id = be_field 4 2 str, ih_df = (fo_val AND 0x4000 \<noteq> 0),
          ih_mf = (fo_val AND 0x2000 \<noteq> 0), ih_offset = fo_val AND 0x1fff, ih_ttl = be_field 8 1 str,
          ih_proto = be_field 9 1 str, ih_cksum = be_field 10 2 str, ih_src = be_field 12 4 str,
          ih_dst = be_field 16 4 str\<rparr>)"

lemma ih_read_fields:
  assumes p: "np_reads p str" and len: "20 \<le> length str"
  shows "\<exists>q. np_reads q (drop 20 str) \<and> ih_read p = Inr (ih_fields str, q)"
proof -
  obtain q1 where q1: "np_u8 p = Inr (be_field 0 1 str, q1)" "np_reads q1 (drop 1 str)"
    using u8.rd_at [of p 0 str, OF _ len] p by auto
  obtain q2 where q2: "np_u8 q1 = Inr (be_field 1 1 str, q2)" "np_reads q2 (drop 2 str)"
    using u8.rd_at [OF q1(2) len] by (auto simp: numeral_2_eq_2)
  obtain q3 where q3: "np_u16 q2 = Inr (be_field 2 2 str, q3)" "np_reads q3 (drop 4 str)"
    using u16.rd_at [OF q2(2) len] by auto
  obtain q4 where q4: "np_u16 q3 = Inr (be_field 4 2 str, q4)" "np_reads q4 (drop 6 str)"
    using u16.rd_at [OF q3(2) len] by auto
  obtain q5 where q5: "np_u16 q4 = Inr (be_field 6 2 str, q5)" "np_reads q5 (drop 8 str)"
    using u16.rd_at [OF q4(2) len] by auto
  obtain q6 where q6: "np_u8 q5 = Inr (be_field 8 1 str, q6)" "np_reads q6 (drop 9 str)"
    using u8.rd_at [OF q5(2) len] by auto
  obtain q7 where q7: "np_u8 q6 = Inr (be_field 9 1 str, q7)" "np_reads q7 (drop 10 str)"
    using u8.rd_at [OF q6(2) len] by auto
  obtain q8 where q8: "np_u16 q7 = Inr (be_field 10 2 str, q8)" "np_reads q8 (drop 12 str)"
    using u16.rd_at [OF q7(2) len] by auto
  obtain q9 where q9: "np_u32 q8 = Inr (be_field 12 4 str, q9)" "np_reads q9 (drop 16 str)"
    using u32.rd_at [OF q8(2) len] by auto
  obtain q10 where q10: "np_u32 q9 = Inr (be_field 16 4 str, q10)" "np_reads q10 (drop 20 str)"
    using u32.rd_at [OF q9(2) len] by auto
  show ?thesis using q10(2)
    by (intro exI [of _ q10]) (simp add: ih_read_def q1 q2 q3 q4 q5 q6 q7 q8 q9 q10 ih_fields_def Let_def)
qed

text \<open>The wire format as a concatenation.\<close>

definition ih_wire :: "ipv4_header \<Rightarrow> bytes" where
  "ih_wire h = be_bytes (ih_first_byte h) @ be_bytes (ih_tos h) @ be_bytes (ih_len h)
     @ be_bytes (ih_id h) @ be_bytes (ih_fo_val h) @ be_bytes (ih_ttl h) @ be_bytes (ih_proto h)
     @ be_bytes (ih_cksum h) @ be_bytes (ih_src h) @ be_bytes (ih_dst h)"

lemma length_ih_wire [simp]: "length (ih_wire h) = 20"
  by (simp add: ih_wire_def)

text \<open>The headers that the wire can carry.\<close>

definition ih_ok :: "ipv4_header \<Rightarrow> bool" where
  "ih_ok h \<longleftrightarrow> ih_ver h = 4 \<and> 5 \<le> ih_hlen h \<and> ih_hlen h < 16 \<and> ih_offset h < 0x2000"

lemma ih_ok_hlen: "ih_ok h \<Longrightarrow> 5 \<le> unat (ih_hlen h) \<and> unat (ih_hlen h) < 16"
  by (simp add: ih_ok_def word_le_nat_alt word_less_nat_alt)

lemma unat_hlen_bytes: "unat (4 * ucast (d :: uint8) :: size_t) = 4 * unat d"
proof -
  have "unat (ucast d :: size_t) = unat d"
    using unat_byte [of d] by (simp add: unsigned_ucast_eq take_bit_nat_eq_self)
  then show ?thesis using unat_byte [of d] by (simp add: unat_word_ariths)
qed

lemma ih_serialize_wire:
  "ih_ok h \<Longrightarrow> ih_serialize h = Inr (ih_wire h @ replicate (4 * unat (ih_hlen h) - 20) 0)"
proof -
  assume ok: "ih_ok h"
  then have "\<not> 4 * ucast (ih_hlen h) < ih_LENGTH"
    using ih_ok_hlen [OF ok] by (simp add: word_less_nat_alt unat_hlen_bytes ih_LENGTH_def)
  then have "ih_serialize h = Inr (vec_resize (4 * unat (ih_hlen h)) 0 (ih_wire h))"
    using ok by (simp add: ih_serialize_def Let_def codec_write ih_wire_def ih_ok_def)
  then show ?thesis using ih_ok_hlen [OF ok] by (simp add: vec_resize_def)
qed

lemma nibbles:
  assumes "n < 16"
  shows "drop_bit 4 (push_bit 4 4 OR (n AND 0xf)) = (4 :: uint8)"
    and "(push_bit 4 4 OR (n AND 0xf)) AND 0xf = (n :: uint8)"
proof -
  have m: "(0xf :: uint8) = mask 4" by (simp add: mask_eq_exp_minus_1)
  have "unat n < 16" using assms by (simp add: word_less_nat_alt)
  then have "take_bit 4 n = n" by (intro unat_eqD) (simp add: unsigned_take_bit_eq take_bit_nat_eq_self)
  then have n: "n AND 0xf = n" by (simp only: m take_bit_eq_mask [symmetric])
  have "(push_bit 4 4 OR n) AND 0xf = push_bit 4 4 AND 0xf OR n AND 0xf" by (rule bit.conj_disj_distrib2)
  then show "(push_bit 4 4 OR (n AND 0xf)) AND 0xf = n" by (simp add: n)
  have "drop_bit 4 n = 0" using \<open>unat n < 16\<close> by (intro unat_eqD, simp only: unat_drop_bit_eq) (simp add: drop_bit_eq_div)
  then show "drop_bit 4 (push_bit 4 4 OR (n AND 0xf)) = 4" by (simp add: n)
qed

lemma ih_fo_val_bits:
  "ih_fo_val h AND 0x4000 \<noteq> 0 \<longleftrightarrow> ih_df h" "ih_fo_val h AND 0x2000 \<noteq> 0 \<longleftrightarrow> ih_mf h"
  "ih_offset h < 0x2000 \<Longrightarrow> ih_fo_val h AND 0x1fff = ih_offset h"
proof -
  let ?o = "ih_offset h"
  have a: "(?o AND 0x1fff) AND 0x4000 = 0" "(?o AND 0x1fff) AND 0x2000 = 0"
    unfolding and.assoc by simp_all
  show "ih_fo_val h AND 0x4000 \<noteq> 0 \<longleftrightarrow> ih_df h" "ih_fo_val h AND 0x2000 \<noteq> 0 \<longleftrightarrow> ih_mf h"
    by (simp_all add: ih_fo_val_def bit.conj_disj_distrib2 a)
  assume "?o < 0x2000"
  then have "unat ?o < 2 ^ 13" by (simp add: word_less_nat_alt)
  then have "take_bit 13 ?o = ?o" by (intro unat_eqD) (simp add: unsigned_take_bit_eq take_bit_nat_eq_self)
  moreover have "(0x1fff :: uint16) = mask 13" by (simp add: mask_eq_exp_minus_1)
  ultimately have "?o AND 0x1fff = ?o" by (simp only: take_bit_eq_mask [symmetric])
  then show "ih_fo_val h AND 0x1fff = ?o"
    by (simp add: ih_fo_val_def bit.conj_disj_distrib2 and.assoc)
qed

lemma ih_fields_wire: "ih_ok h \<Longrightarrow> ih_fields (ih_wire h @ rest) = h"
  using nibbles [of "ih_hlen h"]
  by (simp add: ih_fields_def Let_def ih_wire_def be_field_def ih_fo_val_bits ih_first_byte_def ih_ok_def)

lemma ih_wire_cksum:
  "ih_wire (h\<lparr>ih_cksum := c\<rparr>) = take 10 (ih_wire h) @ be_bytes c @ be_bytes (ih_src h) @ be_bytes (ih_dst h)"
  by (simp add: ih_wire_def ih_first_byte_def ih_fo_val_def)

section \<open>Parsing\<close>

text \<open>What the header's parser answers for a packet \<open>str\<close> that is long enough for a header.\<close>

definition ih_verdict :: "bytes \<Rightarrow> ParseResult" where
  "ih_verdict str =
     (let h = ih_fields str
      in if length str < 4 * unat (ih_hlen h) then PacketTooShort
         else if ih_ver h \<noteq> 4 then WrongIPVersion
         else if ih_hlen h < 5 then HeaderTooShort
         else if length str \<noteq> unat (ih_len h) then TruncatedPacket
         else if ck_value (ck_add (ck_new 0) (take (4 * unat (ih_hlen h)) str)) \<noteq> 0 then BadChecksum
         else NoError)"

text \<open>Up to the checksum, everything that the parser rejects it rejects before it skips the options.\<close>

definition ih_skips :: "bytes \<Rightarrow> bool" where
  "ih_skips str \<longleftrightarrow> ih_verdict str = NoError \<or> ih_verdict str = BadChecksum"

lemma ih_skips_iff:
  "ih_skips str \<longleftrightarrow> ih_ver (ih_fields str) = 4 \<and> 5 \<le> ih_hlen (ih_fields str)
     \<and> 4 * unat (ih_hlen (ih_fields str)) \<le> length str \<and> length str = unat (ih_len (ih_fields str))"
  by (auto simp: ih_skips_def ih_verdict_def Let_def)

lemma ih_parse_result:
  assumes "buf_inv b" and "20 \<le> length (buf_str b)"
  shows "\<exists>q. ih_parse old (np_new b) = Inr (ih_fields (buf_str b), q, ih_verdict (buf_str b))
    \<and> buf_inv (np_buffer q) \<and> np_get_error q = NoError
    \<and> buf_str (np_buffer q)
      = drop (if ih_skips (buf_str b) then 4 * unat (ih_hlen (ih_fields (buf_str b))) else 20) (buf_str b)"
proof -
  define str where "str = buf_str b"
  define h where "h = ih_fields str"
  have len: "length str < size_limit" using length_buf_str [OF assms(1)] by (simp add: str_def)
  have sz: "unat (buf_size b) = length str" using assms(1) by (simp add: str_def unat_buf_size)
  have l: "unat (ucast (ih_len h) :: size_t) = unat (ih_len h)"
    using unsigned_less [of "ih_len h", where 'a = nat] by (simp add: unsigned_ucast_eq take_bit_nat_eq_self)
  have cmp: "buf_size b < ih_LENGTH \<longleftrightarrow> length str < 20"
      "buf_size b < 4 * ucast (ih_hlen h) \<longleftrightarrow> length str < 4 * unat (ih_hlen h)"
      "buf_size b = ucast (ih_len h) \<longleftrightarrow> length str = unat (ih_len h)"
    by (simp_all add: word_less_nat_alt word_unat_eq_iff sz l unat_hlen_bytes ih_LENGTH_def)
  obtain q where q: "np_reads q (drop 20 str)" "ih_read (np_new b) = Inr (h, q)"
    using ih_read_fields [OF np_reads_new [OF assms(1)] assms(2)] by (auto simp: h_def str_def)
  show ?thesis
  proof (cases "ih_skips str")
    case False
    then show ?thesis using q assms(2) cmp
      by (auto simp: ih_parse_def np_new_def Let_def ih_verdict_def ih_skips_iff np_reads_def
          h_def [symmetric] str_def [symmetric])
  next
    case True
    let ?n = "4 * unat (ih_hlen h) - 20"
    have d: "5 \<le> ih_hlen h" "5 \<le> unat (ih_hlen h)" "4 * unat (ih_hlen h) \<le> length str"
      using True by (simp_all add: ih_skips_iff h_def word_le_nat_alt)
    obtain r where r: "np_remove_prefix (of_nat ?n) q = Inr r" "np_reads r (drop ?n (drop 20 str))"
      using np_remove_prefix_reads [OF q(1), of ?n] d(3) by (auto simp del: of_nat_mult of_nat_diff intro: diff_le_mono)
    have "np_remove_prefix (ucast (ih_hlen h) * 4 - ih_LENGTH) q = Inr r"
      using r(1) option_bytes [OF d(1)] by (simp add: ih_LENGTH_def)
    then have "ih_parse old (np_new b) = Inr (h, r, ih_verdict str)"
      using q r(2) True assms(2) cmp d
      by (auto simp: ih_parse_def np_new_def Let_def ih_verdict_def ih_skips_iff np_reads_def np_error_def
          h_def [symmetric] str_def [symmetric])
    then show ?thesis using r(2) True d by (auto simp: np_reads_def h_def str_def)
  qed
qed

lemma blist_size_single: "buf_inv b \<Longrightarrow> unat (blist_size [b]) = length (buf_str b)"
  using length_buf_str [of b] by (simp add: blist_size_eq unat_size_of)

lemma blist_size_matches:
  "length (concat (map buf_str bl)) < size_limit \<Longrightarrow>
    blist_size bl = ucast (ih_payload_length h) \<longleftrightarrow> length (concat (map buf_str bl)) = unat (ih_payload_length h)"
proof -
  assume "length (concat (map buf_str bl)) < size_limit"
  then have "unat (blist_size bl) = length (concat (map buf_str bl))"
    by (simp only: blist_size_eq blist_concatenate_eq unat_size_of)
  moreover have "unat (ucast (ih_payload_length h) :: size_t) = unat (ih_payload_length h)"
    using unsigned_less [of "ih_payload_length h", where 'a = nat]
    by (simp add: unsigned_ucast_eq take_bit_nat_eq_self)
  ultimately show ?thesis by (simp add: word_unat_eq_iff)
qed

lemma unat_payload_length:
  assumes "4 * unat (ih_hlen h) \<le> unat (ih_len h)"
  shows "unat (ih_payload_length h) = unat (ih_len h) - 4 * unat (ih_hlen h)"
proof -
  have "unat (4 * ucast (ih_hlen h) :: uint16) = 4 * unat (ih_hlen h)"
    using unat_byte [of "ih_hlen h"]
    by (simp add: unat_word_ariths unsigned_ucast_eq take_bit_nat_eq_self)
  then show ?thesis using assms by (simp add: ih_payload_length_def unat_minus_no_wrap)
qed

lemma ip_parse_result:
  fixes b :: buffer
  defines "str \<equiv> buf_str b"
  defines "h \<equiv> ih_fields str"
  defines "rest \<equiv> drop (if ih_skips str then 4 * unat (ih_hlen h) else 20) str"
  assumes "buf_inv b" and "20 \<le> length str"
  shows "\<exists>c. buf_inv c \<and> buf_str c = rest \<and> ip_parse old b = Inr (\<lparr>ip_header = h, ip_payload = [c]\<rparr>,
    if length rest = unat (ih_payload_length h) then NoError else PacketTooShort)"
proof -
  obtain q where q: "ih_parse (ip_header old) (np_new b) = Inr (h, q, ih_verdict str)"
      "buf_inv (np_buffer q)" "np_get_error q = NoError" "buf_str (np_buffer q) = rest"
    using ih_parse_result [OF assms(4), of "ip_header old"] assms(5)
    by (auto simp: h_def rest_def str_def)
  then show ?thesis
    using blist_size_matches [of "[np_buffer q]" h] length_buf_str [OF q(2)]
    by (intro exI [of _ "np_buffer q"]) (simp add: ip_parse_def Let_def)
qed

section \<open>Serialising\<close>

lemma ip_serialize_wire:
  fixes d :: ipv4_datagram
  defines "h \<equiv> ip_header d" and "body \<equiv> concat (map buf_str (ip_payload d))"
  defines "pad \<equiv> replicate (4 * unat (ih_hlen h) - 20) (0 :: uint8)"
  defines "c \<equiv> ck_value (ck_add (ck_new 0) (take 10 (ih_wire h) @ [0, 0] @ be_bytes (ih_src h) @ be_bytes (ih_dst h) @ pad))"
  assumes "ih_ok h" and "unat (ih_len h) = 4 * unat (ih_hlen h) + length body"
  shows "\<exists>bl. ip_serialize d = Inr bl \<and> blist_concatenate bl = ih_wire (h\<lparr>ih_cksum := c\<rparr>) @ pad @ body"
proof -
  have "length body < size_limit" using assms(6) unsigned_less [of "ih_len h", where 'a = nat] by simp
  moreover have "unat (ih_payload_length h) = length body" using assms(6) by (simp add: unat_payload_length)
  ultimately have sz: "blist_size (ip_payload d) = ucast (ih_payload_length h)"
    using blist_size_matches [of "ip_payload d" h] by (simp add: body_def)
  have "ih_wire (h\<lparr>ih_cksum := 0\<rparr>) = take 10 (ih_wire h) @ [0, 0] @ be_bytes (ih_src h) @ be_bytes (ih_dst h)"
    by (simp add: ih_wire_cksum be_bytes_eq upt_rec)
  moreover have "ih_ok (h\<lparr>ih_cksum := x\<rparr>)" for x using assms(5) by (simp add: ih_ok_def)
  ultimately show ?thesis using sz
    by (simp add: ip_serialize_def ih_serialize_wire Let_def blist_append_def h_def [symmetric]
        body_def pad_def c_def)
qed

text \<open>The header that arrives: it verifies, and the packet is what was sent.\<close>

lemma ip_wire_parses:
  fixes h :: ipv4_header and body :: bytes
  defines "pad \<equiv> replicate (4 * unat (ih_hlen h) - 20) (0 :: uint8)"
  defines "c \<equiv> ck_value (ck_add (ck_new 0) (take 10 (ih_wire h) @ [0, 0] @ be_bytes (ih_src h) @ be_bytes (ih_dst h) @ pad))"
  defines "str \<equiv> ih_wire (h\<lparr>ih_cksum := c\<rparr>) @ pad @ body"
  assumes ok: "ih_ok h" and len: "unat (ih_len h) = 4 * unat (ih_hlen h) + length body"
  shows "ih_verdict str = NoError"
    and "\<exists>b. buf_inv b \<and> buf_str b = body \<and> ip_parse old (buf_of_string str)
      = Inr (\<lparr>ip_header = h\<lparr>ih_cksum := c\<rparr>, ip_payload = [b]\<rparr>, NoError)"
proof -
  let ?h = "h\<lparr>ih_cksum := c\<rparr>"
  have n: "5 \<le> unat (ih_hlen h)" "unat (ih_hlen h) < 16" using ih_ok_hlen [OF ok] by auto
  have f: "ih_fields str = ?h" unfolding str_def using ok by (intro ih_fields_wire) (simp add: ih_ok_def)
  have t: "take (4 * unat (ih_hlen h)) str = ih_wire ?h @ pad" "drop (4 * unat (ih_hlen h)) str = body"
    using n by (simp_all add: str_def pad_def)
  have sl: "length str = unat (ih_len h)" using n len by (simp add: str_def pad_def)
  have "ck_value (ck_add (ck_new 0) (ih_wire ?h @ pad)) = 0"
    unfolding ih_wire_cksum append_assoc
    by (rule ck_value_filled) (use n in \<open>simp_all add: c_def pad_def\<close>)
  then show v: "ih_verdict str = NoError"
    using ok len sl n by (simp add: ih_verdict_def Let_def f t(1) ih_ok_def word_le_nat_alt word_less_nat_alt)
  have inv: "buf_inv (buf_of_string str)" "20 \<le> length str"
    using sl len n unsigned_less [of "ih_len h", where 'a = nat] by simp_all
  have "unat (ih_payload_length ?h) = length body" using len by (simp add: unat_payload_length)
  then show "\<exists>b. buf_inv b \<and> buf_str b = body \<and> ip_parse old (buf_of_string str)
      = Inr (\<lparr>ip_header = ?h, ip_payload = [b]\<rparr>, NoError)"
    using ip_parse_result [OF inv(1), of old] inv(2) v t(2) by (auto simp: f ih_skips_def)
qed

section \<open>Properties\<close>

text \<open>
  (C31) Datagrams survive the wire: a datagram with a header that IPv4 can carry and a length field
  that agrees with its payload serialises, and parsing the bytes gives back every header field, with
  the checksum filled in, and the payload; the header's own parser finds nothing wrong.
\<close>

theorem ipv4_datagram_roundtrip:
  assumes "ih_ok (ip_header d)"
    and "unat (ih_len (ip_header d)) = 4 * unat (ih_hlen (ip_header d)) + length (blist_concatenate (ip_payload d))"
  shows "\<exists>bl c b. ip_serialize d = Inr bl
    \<and> ip_parse old (buf_of_string (blist_concatenate bl))
        = Inr (\<lparr>ip_header = (ip_header d)\<lparr>ih_cksum := c\<rparr>, ip_payload = [b]\<rparr>, NoError)
    \<and> buf_str b = blist_concatenate (ip_payload d) \<and> ih_verdict (blist_concatenate bl) = NoError"
proof -
  have len: "unat (ih_len (ip_header d)) = 4 * unat (ih_hlen (ip_header d)) + length (concat (map buf_str (ip_payload d)))"
    using assms(2) by simp
  show ?thesis
    using ip_serialize_wire [OF assms(1) len] ip_wire_parses(1) [OF assms(1) len]
      ip_wire_parses(2) [OF assms(1) len, of old] by fastforce
qed

theorem ipv4_datagram_roundtrip_witness:
  "\<exists>bl c b. ip_serialize \<lparr>ip_header = ih_new\<lparr>ih_len := 22\<rparr>, ip_payload = [buf_of_string [1, 2]]\<rparr> = Inr bl
    \<and> ip_parse ip_new (buf_of_string (blist_concatenate bl))
        = Inr (\<lparr>ip_header = ih_new\<lparr>ih_len := 22, ih_cksum := c\<rparr>, ip_payload = [b]\<rparr>, NoError)
    \<and> buf_str b = [1, 2]"
  using ipv4_datagram_roundtrip [of "\<lparr>ip_header = ih_new\<lparr>ih_len := 22\<rparr>, ip_payload = [buf_of_string [1, 2]]\<rparr>" ip_new]
  by (auto simp: ih_ok_def ih_new_def ih_LENGTH_def)

text \<open>
  What \<open>IPv4Datagram::parse\<close> answers for every packet: it never throws, and it accepts a packet
  exactly when what is left behind the header has the length that the header announces, or reports a
  short packet. The answer of the header's parser is lost: a wrong version, a header length that is
  too small and a bad header checksum are never reported.
\<close>

lemma ipv4_datagram_parse_result:
  assumes "buf_inv b"
  shows "\<exists>d. ip_parse ip_new b = Inr (d,
    if length (buf_str b) < 20 then PacketTooShort
    else if ih_verdict (buf_str b) = NoError \<or> ih_verdict (buf_str b) = BadChecksum then NoError
    else if length (buf_str b) - 20 = unat (ih_payload_length (ih_fields (buf_str b))) then NoError
    else PacketTooShort)"
proof (cases "length (buf_str b) < 20")
  case True
  then have "buf_size b < ih_LENGTH"
    using assms by (simp add: word_less_nat_alt unat_buf_size ih_LENGTH_def)
  moreover have "unat (ih_payload_length ih_new) = 65516"
    by (simp add: ih_payload_length_def ih_new_def ih_LENGTH_def)
  then have "blist_size [b] \<noteq> ucast (ih_payload_length ih_new)"
    using True blist_size_matches [of "[b]" ih_new] length_buf_str [OF assms] by auto
  ultimately show ?thesis using True
    by (simp add: ip_parse_def ih_parse_def np_new_def ip_new_def)
next
  case False
  then have "unat (ih_payload_length (ih_fields (buf_str b)))
      = length (buf_str b) - 4 * unat (ih_hlen (ih_fields (buf_str b)))" if "ih_skips (buf_str b)"
    using that by (simp add: ih_skips_iff unat_payload_length)
  then show ?thesis using ip_parse_result [OF assms, of ip_new] False by (auto simp: ih_skips_def)
qed

end
