(* ===== verification/Text_Format.thy ===== *)
theory Text_Format
  imports TCP_Segment IPv4
begin

text \<open>
  Text: the conversions between numbers and text that the program takes from the standard library
  (\<open>std::to_string\<close>, \<open>std::stoi\<close>, streams in \<open>hex\<close> and \<open>boolalpha\<close> mode), and the printers of the two
  headers, \<open>to_string\<close> and \<open>summary\<close> of \<open>tcp_header.cc\<close> and \<open>ipv4_header.cc\<close>.
\<close>

section \<open>Numbers as text\<close>

definition digit :: "nat \<Rightarrow> char" where
  "digit n = (if n < 10 then char_of (48 + n) else char_of (87 + n))"

text \<open>The digits of \<open>n\<close> in a base up to 16, as \<open>std::to_string\<close> and \<open>std::hex\<close> print them.\<close>

function base_string :: "nat \<Rightarrow> nat \<Rightarrow> string" where
  "base_string base n = (if base < 2 \<or> n < base then [digit n]
     else base_string base (n div base) @ [digit (n mod base)])"
  by pat_completeness auto
termination
  by (relation "measure snd") (auto intro!: div_less_dividend)

declare base_string.simps [simp del]

abbreviation dec_string :: "nat \<Rightarrow> string" where
  "dec_string \<equiv> base_string 10"

abbreviation hex_string :: "nat \<Rightarrow> string" where
  "hex_string \<equiv> base_string 16"

definition bool_string :: "bool \<Rightarrow> string" where
  "bool_string b = (if b then ''true'' else ''false'')"

text \<open>\<open>std::stoi\<close>: white space, a sign, and as many digits as there are.\<close>

definition is_space :: "char \<Rightarrow> bool" where
  "is_space c \<longleftrightarrow> of_char c \<in> {9, 10, 11, 12, 13, 32 :: nat}"

definition is_digit :: "char \<Rightarrow> bool" where
  "is_digit c \<longleftrightarrow> 48 \<le> (of_char c :: nat) \<and> (of_char c :: nat) \<le> 57"

definition dec_value :: "string \<Rightarrow> nat" where
  "dec_value s = foldl (\<lambda>r c. r * 10 + (of_char c - 48)) 0 s"

definition stoi :: "string \<Rightarrow> int result" where
  "stoi s =
     (let s = dropWhile is_space s;
          neg = (s \<noteq> [] \<and> hd s = CHR ''-'');
          s = (if s \<noteq> [] \<and> (hd s = CHR ''-'' \<or> hd s = CHR ''+'') then tl s else s);
          ds = takeWhile is_digit s;
          v = (if neg then - int (dec_value ds) else int (dec_value ds))
      in if ds = [] then Inl (Invalid_Argument ''stoi'')
         else if v < - (2 ^ 31) \<or> 2 ^ 31 \<le> v then Inl (Out_Of_Range ''stoi'')
         else Inr v)"

lemma digit_dec:
  assumes "n < 10"
  shows "is_digit (digit n)" "of_char (digit n) = 48 + n" "\<not> is_space (digit n)"
    "digit n \<noteq> CHR ''-''" "digit n \<noteq> CHR ''+''"
proof -
  have "of_char (digit n) = 48 + n" using assms by (simp add: digit_def of_char_of)
  then show "is_digit (digit n)" "of_char (digit n) = 48 + n" "\<not> is_space (digit n)"
    "digit n \<noteq> CHR ''-''" "digit n \<noteq> CHR ''+''"
    using assms by (auto simp: is_digit_def is_space_def)
qed

lemma dec_string_digits: "list_all is_digit (dec_string n) \<and> dec_string n \<noteq> [] \<and> dec_value (dec_string n) = n"
proof (induction n rule: less_induct)
  case (less n)
  show ?case
  proof (cases "n < 10")
    case True
    then show ?thesis
      by (simp add: base_string.simps [of 10 n] digit_dec dec_value_def)
  next
    case False
    then have "dec_string n = dec_string (n div 10) @ [digit (n mod 10)]"
      by (simp add: base_string.simps [of 10 n])
    moreover have "dec_value (s @ [digit (n mod 10)]) = dec_value s * 10 + n mod 10" for s
      by (simp add: dec_value_def digit_dec)
    ultimately show ?thesis using less [of "n div 10"] False by (simp add: digit_dec)
  qed
qed

lemma is_digit_plain: "is_digit c \<Longrightarrow> \<not> is_space c \<and> c \<noteq> CHR ''-'' \<and> c \<noteq> CHR ''+''"
  by (auto simp: is_digit_def is_space_def)

text \<open>Reading back what was printed.\<close>

lemma stoi_dec_string:
  assumes "n < 2 ^ 31"
  shows "stoi (dec_string n) = Inr (int n)"
proof -
  have d: "list_all is_digit (dec_string n)" "dec_value (dec_string n) = n" and "dec_string n \<noteq> []"
    using dec_string_digits [of n] by auto
  then obtain c s where cs: "dec_string n = c # s" by (cases "dec_string n") auto
  then have "is_digit c" using d by simp
  then have "dropWhile is_space (dec_string n) = dec_string n" "hd (dec_string n) \<noteq> CHR ''-''"
      "hd (dec_string n) \<noteq> CHR ''+''"
    using is_digit_plain [of c] by (simp_all add: cs)
  moreover have tw: "takeWhile is_digit (dec_string n) = dec_string n"
    using d by (simp add: takeWhile_eq_all_conv list_all_iff)
  ultimately show ?thesis using d assms \<open>dec_string n \<noteq> []\<close> by (simp add: stoi_def Let_def tw)
qed

lemma dec_string_inject [simp]: "dec_string m = dec_string n \<longleftrightarrow> m = n"
  using dec_string_digits by metis

section \<open>The headers as text\<close>

abbreviation new_line :: string where
  "new_line \<equiv> [CHR 0x0A]"

definition th_to_string :: "tcp_header \<Rightarrow> string" where
  "th_to_string h =
     ''TCP source port: '' @ hex_string (unat (th_sport h)) @ new_line
     @ ''TCP dest port: '' @ hex_string (unat (th_dport h)) @ new_line
     @ ''TCP seqno: '' @ hex_string (unat (raw_value (th_seqno h))) @ new_line
     @ ''TCP ackno: '' @ hex_string (unat (raw_value (th_ackno h))) @ new_line
     @ ''TCP doff: '' @ hex_string (unat (th_doff h)) @ new_line
     @ ''Flags: urg: '' @ bool_string (th_urg h) @ '' ack: '' @ bool_string (th_ack h)
     @ '' psh: '' @ bool_string (th_psh h) @ '' rst: '' @ bool_string (th_rst h)
     @ '' syn: '' @ bool_string (th_syn h) @ '' fin: '' @ bool_string (th_fin h) @ new_line
     @ ''TCP winsize: '' @ hex_string (unat (th_win h)) @ new_line
     @ ''TCP cksum: '' @ hex_string (unat (th_cksum h)) @ new_line
     @ ''TCP uptr: '' @ hex_string (unat (th_uptr h)) @ new_line"

definition th_summary :: "tcp_header \<Rightarrow> string" where
  "th_summary h =
     ''Header(flags='' @ (if th_syn h then ''S'' else []) @ (if th_ack h then ''A'' else [])
     @ (if th_rst h then ''R'' else []) @ (if th_fin h then ''F'' else [])
     @ '',seqno='' @ dec_string (unat (raw_value (th_seqno h)))
     @ '',ack='' @ dec_string (unat (raw_value (th_ackno h)))
     @ '',win='' @ dec_string (unat (th_win h)) @ '')''"

definition ih_to_string :: "ipv4_header \<Rightarrow> string" where
  "ih_to_string h =
     ''IP version: '' @ hex_string (unat (ih_ver h)) @ new_line
     @ ''IP hdr len: '' @ hex_string (unat (ih_hlen h)) @ new_line
     @ ''IP tos: '' @ hex_string (unat (ih_tos h)) @ new_line
     @ ''IP dgram len: '' @ hex_string (unat (ih_len h)) @ new_line
     @ ''IP id: '' @ hex_string (unat (ih_id h)) @ new_line
     @ ''Flags: df: '' @ bool_string (ih_df h) @ '' mf: '' @ bool_string (ih_mf h) @ new_line
     @ ''Offset: '' @ hex_string (unat (ih_offset h)) @ new_line
     @ ''TTL: '' @ hex_string (unat (ih_ttl h)) @ new_line
     @ ''Protocol: '' @ hex_string (unat (ih_proto h)) @ new_line
     @ ''Checksum: '' @ hex_string (unat (ih_cksum h)) @ new_line
     @ ''Src addr: '' @ hex_string (unat (ih_src h)) @ new_line
     @ ''Dst addr: '' @ hex_string (unat (ih_dst h)) @ new_line"

text \<open>\<open>inet_ntoa\<close> belongs to the C library: a parameter, applied to the four bytes of an address in
  network order.\<close>

definition ih_summary :: "(bytes \<Rightarrow> string) \<Rightarrow> ipv4_header \<Rightarrow> string" where
  "ih_summary inet_ntoa h =
     ''IPv'' @ hex_string (unat (ih_ver h)) @ '', '' @ ''len='' @ hex_string (unat (ih_len h)) @ '', ''
     @ ''protocol='' @ hex_string (unat (ih_proto h)) @ '', ''
     @ (if ih_ttl h \<ge> 10 then [] else ''ttl='' @ dec_string (unat (ih_ttl h)) @ '', '')
     @ ''src='' @ inet_ntoa (be_bytes (ih_src h)) @ '', ''
     @ ''dst='' @ inet_ntoa (be_bytes (ih_dst h))"

end
