(* ===== verification/Address.thy ===== *)
theory Address
  imports Text_Format
begin

text \<open>
  Socket addresses (\<open>libsponge/util/address.hh\<close>, \<open>address.cc\<close>): the bytes of a \<open>sockaddr_storage\<close> and
  the number of them in use. The resolver of the C library is a parameter of the definitions that
  call it: \<open>getaddrinfo\<close> returns an error code or the list of the addresses found, \<open>getnameinfo\<close> an
  error code or the texts of host and port, \<open>inet_ntoa\<close> the dotted quad of four bytes. The layout of a
  \<open>sockaddr_in\<close> is that of a little-endian host.
\<close>

section \<open>State and operations\<close>

datatype ai_flag = AI_ALL | AI_NUMERICHOST | AI_NUMERICSERV

datatype ai_family = AF_INET

record addrinfo =
  ai_flags :: "ai_flag list"
  ai_family :: ai_family

type_synonym getaddrinfo = "string \<Rightarrow> string \<Rightarrow> addrinfo \<Rightarrow> int + bytes list"
type_synonym getnameinfo = "bytes \<Rightarrow> int + (string \<times> string)"
type_synonym inet_ntoa = "bytes \<Rightarrow> string"

record address =
  addr_size :: uint32
  addr_storage :: bytes

definition addr_of_sockaddr :: "bytes \<Rightarrow> address result" where
  "addr_of_sockaddr addr =
     (if size_of addr > 128 then Inl (Runtime_Error ''invalid sockaddr size'')
      else Inr \<lparr>addr_size = ucast (size_of addr),
                addr_storage = addr @ replicate (128 - length addr) 0\<rparr>)"

definition addr_resolve :: "getaddrinfo \<Rightarrow> string \<Rightarrow> string \<Rightarrow> addrinfo \<Rightarrow> address result" where
  "addr_resolve gai node service hints =
     (case gai node service hints of
        Inl gai_ret \<Rightarrow> Inl (System_Error (''getaddrinfo('' @ node @ '', '' @ service @ '')'') gai_ret)
      | Inr [] \<Rightarrow> Inl (Runtime_Error ''getaddrinfo returned successfully but with no results'')
      | Inr (resolved_address # _) \<Rightarrow> addr_of_sockaddr resolved_address)"

definition make_hints :: "ai_flag list \<Rightarrow> ai_family \<Rightarrow> addrinfo" where
  "make_hints flags family = \<lparr>ai_flags = flags, ai_family = family\<rparr>"

definition addr_of_host :: "getaddrinfo \<Rightarrow> string \<Rightarrow> string \<Rightarrow> address result" where
  "addr_of_host gai hostname service = addr_resolve gai hostname service (make_hints [AI_ALL] AF_INET)"

definition addr_of_ip :: "getaddrinfo \<Rightarrow> string \<Rightarrow> uint16 \<Rightarrow> address result" where
  "addr_of_ip gai ip port =
     addr_resolve gai ip (dec_string (unat port)) (make_hints [AI_NUMERICHOST, AI_NUMERICSERV] AF_INET)"

text \<open>The bytes in use, which the system calls see.\<close>

definition addr_raw :: "address \<Rightarrow> bytes" where
  "addr_raw a = take (unat (addr_size a)) (addr_storage a)"

definition addr_ip_port :: "getnameinfo \<Rightarrow> address \<Rightarrow> (string \<times> uint16) result" where
  "addr_ip_port gni a =
     (case gni (addr_raw a) of
        Inl gni_ret \<Rightarrow> Inl (System_Error ''getnameinfo'' gni_ret)
      | Inr (ip, port) \<Rightarrow> bind_res (stoi port) (\<lambda>n. Inr (ip, word_of_int n)))"

definition addr_ip :: "getnameinfo \<Rightarrow> address \<Rightarrow> string result" where
  "addr_ip gni a = bind_res (addr_ip_port gni a) (\<lambda>(ip, port). Inr ip)"

definition addr_port :: "getnameinfo \<Rightarrow> address \<Rightarrow> uint16 result" where
  "addr_port gni a = bind_res (addr_ip_port gni a) (\<lambda>(ip, port). Inr port)"

definition addr_to_string :: "getnameinfo \<Rightarrow> address \<Rightarrow> string result" where
  "addr_to_string gni a =
     bind_res (addr_ip_port gni a) (\<lambda>(ip, port). Inr (ip @ '':'' @ dec_string (unat port)))"

text \<open>A \<open>sockaddr_in\<close>: family, port, address, padding.\<close>

definition sockaddr_in :: "uint16 \<Rightarrow> uint32 \<Rightarrow> bytes" where
  "sockaddr_in port ip = [2, 0] @ be_bytes port @ be_bytes ip @ replicate 8 0"

definition addr_ipv4_numeric :: "address \<Rightarrow> uint32 result" where
  "addr_ipv4_numeric a =
     (if take 2 (addr_storage a) \<noteq> [2, 0] \<or> addr_size a \<noteq> 16
      then Inl (Runtime_Error ''ipv4_numeric called on non-IPV4 address'')
      else Inr (be_field 4 4 (addr_storage a)))"

definition addr_from_ipv4_numeric :: "uint32 \<Rightarrow> address result" where
  "addr_from_ipv4_numeric ip_address = addr_of_sockaddr (sockaddr_in 0 ip_address)"

text \<open>\<open>memcmp\<close> over the bytes in use.\<close>

definition addr_eq :: "address \<Rightarrow> address \<Rightarrow> bool" where
  "addr_eq a b \<longleftrightarrow> addr_size a = addr_size b
     \<and> take (unat (addr_size a)) (addr_storage a) = take (unat (addr_size a)) (addr_storage b)"

section \<open>Numeric addresses\<close>

text \<open>The address with a given port and number.\<close>

definition addr_in :: "uint16 \<Rightarrow> uint32 \<Rightarrow> address" where
  "addr_in port ip = \<lparr>addr_size = 16, addr_storage = sockaddr_in port ip @ replicate 112 0\<rparr>"

lemma length_sockaddr_in [simp]: "length (sockaddr_in port ip) = 16"
  by (simp add: sockaddr_in_def)

lemma addr_of_sockaddr_in [simp]: "addr_of_sockaddr (sockaddr_in port ip) = Inr (addr_in port ip)"
  by (simp add: addr_of_sockaddr_def addr_in_def)

lemma addr_raw_in [simp]: "addr_raw (addr_in port ip) = sockaddr_in port ip"
  by (simp add: addr_raw_def addr_in_def)

lemma addr_ipv4_numeric_in [simp]: "addr_ipv4_numeric (addr_in port ip) = Inr ip"
  by (simp add: addr_ipv4_numeric_def addr_in_def sockaddr_in_def be_field_def)

lemma addr_eq_refl [simp]: "addr_eq a a"
  by (simp add: addr_eq_def)

lemma sockaddr_in_inject [simp]: "sockaddr_in p x = sockaddr_in q y \<longleftrightarrow> p = q \<and> x = y"
proof
  assume eq: "sockaddr_in p x = sockaddr_in q y"
  have "be_field 2 2 (sockaddr_in p x) = p" "be_field 4 4 (sockaddr_in p x) = x" for p x
    by (simp_all add: sockaddr_in_def be_field_def)
  then show "p = q \<and> x = y" using eq by metis
qed simp

lemma addr_eq_in [simp]: "addr_eq (addr_in p x) (addr_in q y) \<longleftrightarrow> p = q \<and> x = y"
  by (simp add: addr_eq_def addr_in_def)

text \<open>
  What the manual pages promise for numeric hosts and services: a dotted quad and a decimal port
  resolve to the \<open>sockaddr_in\<close> that they denote, and the numeric name of a \<open>sockaddr_in\<close> is that quad
  and that port.
\<close>

definition numeric_resolver :: "getaddrinfo \<Rightarrow> getnameinfo \<Rightarrow> inet_ntoa \<Rightarrow> bool" where
  "numeric_resolver gai gni ntoa \<longleftrightarrow>
     (\<forall>port ip. gai (ntoa (be_bytes ip)) (dec_string (unat port))
          (make_hints [AI_NUMERICHOST, AI_NUMERICSERV] AF_INET) = Inr [sockaddr_in port ip]
        \<and> gni (sockaddr_in port ip) = Inr (ntoa (be_bytes (ip :: uint32)), dec_string (unat (port :: uint16))))"

lemma resolver_address:
  assumes "numeric_resolver gai gni ntoa"
  shows "addr_of_ip gai (ntoa (be_bytes ip)) port = Inr (addr_in port ip)"
    and "addr_ip_port gni (addr_in port ip) = Inr (ntoa (be_bytes ip), port)"
    and "addr_port gni (addr_in port ip) = Inr port"
proof -
  show "addr_of_ip gai (ntoa (be_bytes ip)) port = Inr (addr_in port ip)"
    using assms by (simp add: addr_of_ip_def addr_resolve_def numeric_resolver_def)
  have "unat port < 2 ^ 31" using unsigned_less [of port, where 'a = nat] by simp
  then show "addr_ip_port gni (addr_in port ip) = Inr (ntoa (be_bytes ip), port)"
    using assms by (simp add: addr_ip_port_def numeric_resolver_def stoi_dec_string)
  then show "addr_port gni (addr_in port ip) = Inr port" by (simp add: addr_port_def)
qed

text \<open>A resolver of this kind: it writes an address as one decimal number.\<close>

definition sample_ntoa :: inet_ntoa where
  "sample_ntoa b = dec_string (be_nat b)"

definition sample_gai :: getaddrinfo where
  "sample_gai node service hints = Inr [sockaddr_in (of_nat (dec_value service)) (of_nat (dec_value node))]"

definition sample_gni :: getnameinfo where
  "sample_gni raw = Inr (dec_string (be_nat (take 4 (drop 4 raw))), dec_string (be_nat (take 2 (drop 2 raw))))"

lemma sample_resolver: "numeric_resolver sample_gai sample_gni sample_ntoa"
  using dec_string_digits
  by (simp add: numeric_resolver_def sample_gai_def sample_gni_def sample_ntoa_def sockaddr_in_def)

section \<open>Properties\<close>

text \<open>
  Numeric addresses survive the resolver: with a resolver that does what its manual promises, the
  address built from a dotted quad and a port has that number and that port, prints as
  \<open>quad:port\<close>, and equals another such address exactly when both number and port are the same.
\<close>

lemma address_numeric:
  assumes "numeric_resolver gai gni ntoa"
  shows "\<exists>a. addr_of_ip gai (ntoa (be_bytes ip)) port = Inr a \<and> addr_ipv4_numeric a = Inr ip
    \<and> addr_port gni a = Inr port
    \<and> addr_to_string gni a = Inr (ntoa (be_bytes ip) @ '':'' @ dec_string (unat port))
    \<and> (\<forall>ip' port' a'. addr_of_ip gai (ntoa (be_bytes ip')) port' = Inr a' \<longrightarrow>
         (addr_eq a a' \<longleftrightarrow> ip' = ip \<and> port' = port))"
  using resolver_address [OF assms] by (auto simp: addr_to_string_def)

end
