(* ===== verification/Adapters.thy ===== *)
theory Adapters
  imports Address "HOL-Library.Sublist"
begin

text \<open>
  The adapters between a connection and the network: \<open>FdAdapterBase\<close> and the adapter over UDP
  (\<open>libsponge/tcp_helpers/fd_adapter.hh\<close>, \<open>fd_adapter.cc\<close>), TCP in IPv4 datagrams (\<open>tcp_over_ip.hh\<close>,
  \<open>tcp_over_ip.cc\<close>), the adapter over a TUN device (\<open>tuntap_adapter.hh\<close>) and the one that drops
  packets at random (\<open>lossy_fd_adapter.hh\<close>). What a system call returns is an argument of the reading
  operations, and what is handed to one is a result of the writing operations. The contract that the
  reading operations share is the locale \<open>segment_adapter\<close>.
\<close>

section \<open>FdAdapterBase\<close>

record fd_adapter_config =
  fc_source :: address
  fc_destination :: address
  fc_loss_rate_dn :: uint16
  fc_loss_rate_up :: uint16

definition fc_default :: "getaddrinfo \<Rightarrow> fd_adapter_config result" where
  "fc_default gai =
     bind_res (addr_of_ip gai ''0'' 0) (\<lambda>source.
     bind_res (addr_of_ip gai ''0'' 0) (\<lambda>destination.
     Inr \<lparr>fc_source = source, fc_destination = destination, fc_loss_rate_dn = 0, fc_loss_rate_up = 0\<rparr>))"

record fd_adapter =
  fa_config :: fd_adapter_config
  fa_listening :: bool

definition fa_new :: "getaddrinfo \<Rightarrow> fd_adapter result" where
  "fa_new gai = bind_res (fc_default gai) (\<lambda>cfg. Inr \<lparr>fa_config = cfg, fa_listening = False\<rparr>)"

definition fa_set_listening :: "bool \<Rightarrow> fd_adapter \<Rightarrow> fd_adapter" where
  "fa_set_listening l a = a\<lparr>fa_listening := l\<rparr>"

definition fa_tick :: "size_t \<Rightarrow> fd_adapter \<Rightarrow> fd_adapter" where
  "fa_tick ms a = a"

abbreviation fa_source :: "fd_adapter \<Rightarrow> address" where
  "fa_source a \<equiv> fc_source (fa_config a)"

abbreviation fa_destination :: "fd_adapter \<Rightarrow> address" where
  "fa_destination a \<equiv> fc_destination (fa_config a)"

section \<open>TCPOverIPv4Adapter\<close>

text \<open>\<open>not listening() and (address != ours)\<close>: the number is computed only when needed.\<close>

definition fa_not_ours :: "fd_adapter \<Rightarrow> uint32 \<Rightarrow> address \<Rightarrow> bool result" where
  "fa_not_ours a x ours =
     (if fa_listening a then Inr False else bind_res (addr_ipv4_numeric ours) (\<lambda>n. Inr (x \<noteq> n)))"

text \<open>The part of \<open>unwrap_tcp_in_ip\<close> in which a listening adapter adopts its peer; \<open>None\<close> is the early
  return.\<close>

definition fa_adopt :: "getaddrinfo \<Rightarrow> getnameinfo \<Rightarrow> inet_ntoa \<Rightarrow> ipv4_datagram \<Rightarrow> tcp_segment
    \<Rightarrow> fd_adapter \<Rightarrow> fd_adapter option result" where
  "fa_adopt gai gni ntoa ip_dgram tcp_seg a =
     (if fa_listening a then
        if th_syn (seg_header tcp_seg) \<and> \<not> th_rst (seg_header tcp_seg) then
          bind_res (addr_port gni (fa_source a)) (\<lambda>port.
          bind_res (addr_of_ip gai (ntoa (be_bytes (ih_dst (ip_header ip_dgram)))) port) (\<lambda>source.
          bind_res (addr_of_ip gai (ntoa (be_bytes (ih_src (ip_header ip_dgram)))) (th_sport (seg_header tcp_seg)))
            (\<lambda>destination.
          Inr (Some (fa_set_listening False (a\<lparr>fa_config :=
            (fa_config a)\<lparr>fc_source := source, fc_destination := destination\<rparr>\<rparr>))))))
        else Inr None
      else Inr (Some a))"

definition unwrap_tcp_in_ip :: "getaddrinfo \<Rightarrow> getnameinfo \<Rightarrow> inet_ntoa \<Rightarrow> ipv4_datagram \<Rightarrow> fd_adapter
    \<Rightarrow> (fd_adapter \<times> tcp_segment option) result" where
  "unwrap_tcp_in_ip gai gni ntoa ip_dgram a =
     bind_res (fa_not_ours a (ih_dst (ip_header ip_dgram)) (fa_source a)) (\<lambda>other. if other then Inr (a, None) else
     bind_res (fa_not_ours a (ih_src (ip_header ip_dgram)) (fa_destination a)) (\<lambda>other. if other then Inr (a, None) else
     if ih_proto (ip_header ip_dgram) \<noteq> PROTO_TCP then Inr (a, None) else
     bind_res (blist_to_buffer (ip_payload ip_dgram)) (\<lambda>payload.
     bind_res (seg_parse seg_new payload (ih_pseudo_cksum (ip_header ip_dgram))) (\<lambda>(tcp_seg, res).
     if res \<noteq> NoError then Inr (a, None) else
     bind_res (addr_port gni (fa_source a)) (\<lambda>port.
     if th_dport (seg_header tcp_seg) \<noteq> port then Inr (a, None) else
     bind_res (fa_adopt gai gni ntoa ip_dgram tcp_seg a) (\<lambda>adopted. case adopted of None \<Rightarrow> Inr (a, None) | Some a \<Rightarrow>
     bind_res (addr_port gni (fa_destination a)) (\<lambda>port.
     if th_sport (seg_header tcp_seg) \<noteq> port then Inr (a, None) else Inr (a, Some tcp_seg))))))))"

text \<open>\<open>wrap_tcp_in_ip\<close> also sets the ports in the segment that the caller passes.\<close>

definition wrap_tcp_in_ip :: "getnameinfo \<Rightarrow> tcp_segment \<Rightarrow> fd_adapter \<Rightarrow> (tcp_segment \<times> ipv4_datagram) result" where
  "wrap_tcp_in_ip gni seg a =
     bind_res (addr_port gni (fa_source a)) (\<lambda>sport.
     bind_res (addr_port gni (fa_destination a)) (\<lambda>dport.
     let seg = seg\<lparr>seg_header := (seg_header seg)\<lparr>th_sport := sport, th_dport := dport\<rparr>\<rparr> in
     bind_res (addr_ipv4_numeric (fa_source a)) (\<lambda>src.
     bind_res (addr_ipv4_numeric (fa_destination a)) (\<lambda>dst.
     let h = (ip_header ip_new)\<lparr>ih_src := src, ih_dst := dst\<rparr>;
         h = h\<lparr>ih_len := ucast (ucast (ih_hlen h) * 4 + ucast (th_doff (seg_header seg)) * 4
               + buf_size (seg_payload seg) :: size_t)\<rparr>
     in bind_res (seg_serialize seg (ih_pseudo_cksum h)) (\<lambda>payload.
        Inr (seg, \<lparr>ip_header = h, ip_payload = payload\<rparr>))))))"

section \<open>TCPOverIPv4OverTunFdAdapter\<close>

text \<open>\<open>data\<close> is what \<open>_tun.read()\<close> returns; the bytes written to the device are the result.\<close>

definition tun_read :: "getaddrinfo \<Rightarrow> getnameinfo \<Rightarrow> inet_ntoa \<Rightarrow> bytes \<Rightarrow> fd_adapter
    \<Rightarrow> (fd_adapter \<times> tcp_segment option) result" where
  "tun_read gai gni ntoa data a =
     bind_res (ip_parse ip_new (buf_of_string data)) (\<lambda>(ip_dgram, res).
       if res \<noteq> NoError then Inr (a, None) else unwrap_tcp_in_ip gai gni ntoa ip_dgram a)"

definition tun_write :: "getnameinfo \<Rightarrow> tcp_segment \<Rightarrow> fd_adapter \<Rightarrow> (tcp_segment \<times> buffer_list) result" where
  "tun_write gni seg a =
     bind_res (wrap_tcp_in_ip gni seg a) (\<lambda>(seg, ip_dgram).
     bind_res (ip_serialize ip_dgram) (\<lambda>bl. Inr (seg, bl)))"

section \<open>TCPOverUDPSocketAdapter\<close>

text \<open>What \<open>UDPSocket::recv\<close> returns.\<close>

record received_datagram =
  rd_source_address :: address
  rd_payload :: bytes

definition udp_read :: "received_datagram \<Rightarrow> fd_adapter \<Rightarrow> (fd_adapter \<times> tcp_segment option) result" where
  "udp_read datagram a =
     (if \<not> fa_listening a \<and> \<not> addr_eq (rd_source_address datagram) (fa_destination a) then Inr (a, None)
      else bind_res (seg_parse seg_new (buf_of_string (rd_payload datagram)) 0) (\<lambda>(seg, res).
        if res \<noteq> NoError then Inr (a, None)
        else if fa_listening a then
          if th_syn (seg_header seg) \<and> \<not> th_rst (seg_header seg)
          then Inr (fa_set_listening False (a\<lparr>fa_config :=
                 (fa_config a)\<lparr>fc_destination := rd_source_address datagram\<rparr>\<rparr>), Some seg)
          else Inr (a, None)
        else Inr (a, Some seg)))"

definition udp_write :: "getnameinfo \<Rightarrow> tcp_segment \<Rightarrow> fd_adapter
    \<Rightarrow> (tcp_segment \<times> address \<times> buffer_list) result" where
  "udp_write gni seg a =
     bind_res (addr_port gni (fa_source a)) (\<lambda>sport.
     bind_res (addr_port gni (fa_destination a)) (\<lambda>dport.
     let seg = seg\<lparr>seg_header := (seg_header seg)\<lparr>th_sport := sport, th_dport := dport\<rparr>\<rparr>
     in bind_res (seg_serialize seg 0) (\<lambda>payload. Inr (seg, fa_destination a, payload))))"

section \<open>LossyFdAdapter\<close>

text \<open>\<open>rand\<close> is the generator of the standard library: the next word and the generator after it.
  \<open>rd\<close> and \<open>wr\<close> are the operations of \<open>AdapterT\<close>.\<close>

record 'g lossy =
  ls_rand :: 'g
  ls_adapter :: fd_adapter

definition ls_should_drop :: "('g \<Rightarrow> uint32 \<times> 'g) \<Rightarrow> bool \<Rightarrow> 'g lossy \<Rightarrow> bool \<times> 'g lossy" where
  "ls_should_drop rand uplink l =
     (let cfg = fa_config (ls_adapter l);
          loss = (if uplink then fc_loss_rate_up cfg else fc_loss_rate_dn cfg)
      in if loss \<noteq> 0
         then (case rand (ls_rand l) of (x, g) \<Rightarrow> (ucast x < loss, l\<lparr>ls_rand := g\<rparr>))
         else (False, l))"

definition ls_read :: "('g \<Rightarrow> uint32 \<times> 'g) \<Rightarrow> ('i \<Rightarrow> fd_adapter \<Rightarrow> (fd_adapter \<times> tcp_segment option) result)
    \<Rightarrow> 'i \<Rightarrow> 'g lossy \<Rightarrow> ('g lossy \<times> tcp_segment option) result" where
  "ls_read rand rd i l =
     bind_res (rd i (ls_adapter l)) (\<lambda>(a, ret).
       case ls_should_drop rand False (l\<lparr>ls_adapter := a\<rparr>) of (dropped, l) \<Rightarrow>
         Inr (l, if dropped then None else ret))"

text \<open>The last component is what the underlying adapter handed to the network, if anything.\<close>

definition ls_write :: "('g \<Rightarrow> uint32 \<times> 'g) \<Rightarrow> (tcp_segment \<Rightarrow> fd_adapter \<Rightarrow> (tcp_segment \<times> 'o) result)
    \<Rightarrow> tcp_segment \<Rightarrow> 'g lossy \<Rightarrow> ('g lossy \<times> tcp_segment \<times> 'o option) result" where
  "ls_write rand wr seg l =
     (case ls_should_drop rand True l of (dropped, l) \<Rightarrow>
        if dropped then Inr (l, seg, None)
        else bind_res (wr seg (ls_adapter l)) (\<lambda>(seg, sent). Inr (l, seg, Some sent)))"

definition ls_set_listening :: "bool \<Rightarrow> 'g lossy \<Rightarrow> 'g lossy" where
  "ls_set_listening b l = l\<lparr>ls_adapter := fa_set_listening b (ls_adapter l)\<rparr>"

definition ls_config :: "'g lossy \<Rightarrow> fd_adapter_config" where
  "ls_config l = fa_config (ls_adapter l)"

definition ls_tick :: "size_t \<Rightarrow> 'g lossy \<Rightarrow> 'g lossy" where
  "ls_tick ms l = l\<lparr>ls_adapter := fa_tick ms (ls_adapter l)\<rparr>"

section \<open>The contract of a reading adapter\<close>

text \<open>
  What the owner of an adapter relies on: once the adapter is not listening, reading changes neither
  that nor its configuration; and a listening adapter delivers a segment only if that opens a
  connection, and has stopped listening then.
\<close>

locale segment_adapter =
  fixes rd :: "'i \<Rightarrow> 'a \<Rightarrow> ('a \<times> tcp_segment option) result"
    and listening :: "'a \<Rightarrow> bool"
    and config :: "'a \<Rightarrow> fd_adapter_config"
  assumes connected: "\<not> listening a \<Longrightarrow> rd i a = Inr (b, r) \<Longrightarrow> \<not> listening b \<and> config b = config a"
    and opened: "listening a \<Longrightarrow> rd i a = Inr (b, Some seg) \<Longrightarrow>
      th_syn (seg_header seg) \<and> \<not> th_rst (seg_header seg) \<and> \<not> listening b"
begin

text \<open>Reading a sequence of packets, with the segments that were delivered.\<close>

fun reads :: "'i list \<Rightarrow> 'a \<Rightarrow> ('a \<times> tcp_segment list) result" where
  "reads [] a = Inr (a, [])"
| "reads (i # is) a = bind_res (rd i a) (\<lambda>(a, r).
     bind_res (reads is a) (\<lambda>(a, segs). Inr (a, (case r of None \<Rightarrow> segs | Some seg \<Rightarrow> seg # segs))))"

lemma reads_connected: "\<not> listening a \<Longrightarrow> reads is a = Inr (b, segs) \<Longrightarrow> \<not> listening b \<and> config b = config a"
proof (induction "is" arbitrary: a segs)
  case (Cons i "is")
  then obtain c r segs' where "rd i a = Inr (c, r)" "reads is c = Inr (b, segs')"
    by (auto simp: bind_res_eq_Inr)
  then show ?case using Cons.IH [of c segs'] connected [of a i c r] Cons.prems(1) by simp
qed simp

end

text \<open>
  An adapter that loses nothing: while it listens, a packet that it does not deliver changes nothing.
\<close>

locale lossless_adapter = segment_adapter +
  assumes silent: "listening a \<Longrightarrow> rd i a = Inr (b, None) \<Longrightarrow> listening b \<and> config b = config a"
begin

lemma reads_first:
  assumes "listening a" and "reads is a = Inr (b, segs)"
  shows "segs \<noteq> [] \<longrightarrow> th_syn (seg_header (hd segs)) \<and> \<not> th_rst (seg_header (hd segs)) \<and> \<not> listening b"
    and "segs = [] \<longrightarrow> listening b \<and> config b = config a"
proof -
  have "(segs \<noteq> [] \<longrightarrow> th_syn (seg_header (hd segs)) \<and> \<not> th_rst (seg_header (hd segs)) \<and> \<not> listening b)
    \<and> (segs = [] \<longrightarrow> listening b \<and> config b = config a)"
    using assms
  proof (induction "is" arbitrary: a segs)
    case (Cons i "is")
    then obtain c r segs' where c: "rd i a = Inr (c, r)" "reads is c = Inr (b, segs')"
        "segs = (case r of None \<Rightarrow> segs' | Some seg \<Rightarrow> seg # segs')"
      by (auto simp: bind_res_eq_Inr)
    show ?case
    proof (cases r)
      case None
      then show ?thesis using c silent [of a i c] Cons.IH [of c segs'] Cons.prems(1) by simp
    next
      case (Some seg)
      then show ?thesis using c opened [of a i c seg] reads_connected [of c "is" b segs'] Cons.prems(1) by simp
    qed
  qed simp
  then show "segs \<noteq> [] \<longrightarrow> th_syn (seg_header (hd segs)) \<and> \<not> th_rst (seg_header (hd segs)) \<and> \<not> listening b"
    and "segs = [] \<longrightarrow> listening b \<and> config b = config a" by simp_all
qed

end

text \<open>Wrapping an adapter into a lossy one keeps the contract.\<close>

lemma ls_should_drop_adapter: "ls_should_drop rand up l = (dropped, l') \<Longrightarrow> ls_adapter l' = ls_adapter l"
  by (auto simp: ls_should_drop_def Let_def split: if_splits prod.splits)

lemma ls_read_cases:
  assumes "ls_read rand rd i l = Inr (l', r)"
  obtains ret where "rd i (ls_adapter l) = Inr (ls_adapter l', ret)" "r = None \<or> r = ret"
proof -
  obtain a ret where ret: "rd i (ls_adapter l) = Inr (a, ret)"
    using assms by (auto simp: ls_read_def bind_res_eq_Inr)
  obtain dropped m where m: "ls_should_drop rand False (l\<lparr>ls_adapter := a\<rparr>) = (dropped, m)" by force
  then have "l' = m" "r = (if dropped then None else ret)" using assms ret by (simp_all add: ls_read_def)
  then show thesis using that [of ret] ret ls_should_drop_adapter [OF m] by auto
qed

lemma lossy_segment_adapter:
  assumes "segment_adapter rd fa_listening fa_config"
  shows "segment_adapter (ls_read rand rd) (fa_listening \<circ> ls_adapter) ls_config"
proof
  fix l m i r
  assume l: "\<not> (fa_listening \<circ> ls_adapter) l" "ls_read rand rd i l = Inr (m, r)"
  obtain ret where "rd i (ls_adapter l) = Inr (ls_adapter m, ret)" using l(2) by (rule ls_read_cases)
  then show "\<not> (fa_listening \<circ> ls_adapter) m \<and> ls_config m = ls_config l"
    using segment_adapter.connected [OF assms _ \<open>rd i (ls_adapter l) = _\<close>] l(1) by (simp add: ls_config_def)
next
  fix l m i seg
  assume l: "(fa_listening \<circ> ls_adapter) l" "ls_read rand rd i l = Inr (m, Some seg)"
  obtain ret where "rd i (ls_adapter l) = Inr (ls_adapter m, ret)" "Some seg = None \<or> Some seg = ret"
    using l(2) by (rule ls_read_cases)
  then show "th_syn (seg_header seg) \<and> \<not> th_rst (seg_header seg) \<and> \<not> (fa_listening \<circ> ls_adapter) m"
    using segment_adapter.opened [OF assms, of "ls_adapter l" i "ls_adapter m" seg] l(1) by simp
qed

lemma unwrap_cases:
  assumes "unwrap_tcp_in_ip gai gni ntoa d a = Inr (b, r)"
  obtains "r = None" "b = a"
  | payload seg p where "fa_not_ours a (ih_dst (ip_header d)) (fa_source a) = Inr False"
      "fa_not_ours a (ih_src (ip_header d)) (fa_destination a) = Inr False"
      "blist_to_buffer (ip_payload d) = Inr payload"
      "seg_parse seg_new payload (ih_pseudo_cksum (ip_header d)) = Inr (seg, NoError)"
      "ih_proto (ip_header d) = PROTO_TCP" "addr_port gni (fa_source a) = Inr (th_dport (seg_header seg))"
      "fa_adopt gai gni ntoa d seg a = Inr (Some b)" "addr_port gni (fa_destination b) = Inr p"
      "r = (if th_sport (seg_header seg) = p then Some seg else None)"
  using assms unfolding unwrap_tcp_in_ip_def
  by (auto simp: bind_res_eq_Inr split: if_splits prod.splits option.splits)

lemma fa_adopt_cases:
  assumes "fa_adopt gai gni ntoa d seg a = Inr (Some b)"
  shows "\<not> fa_listening b" and "\<not> fa_listening a \<longrightarrow> b = a"
    and "fa_listening a \<longrightarrow> th_syn (seg_header seg) \<and> \<not> th_rst (seg_header seg)"
  using assms by (auto simp: fa_adopt_def bind_res_eq_Inr fa_set_listening_def split: if_splits)

lemma tun_read_cases:
  assumes "tun_read gai gni ntoa data a = Inr (b, r)"
  obtains "r = None" "b = a"
  | d payload seg p where "ip_parse ip_new (buf_of_string data) = Inr (d, NoError)"
      "fa_not_ours a (ih_dst (ip_header d)) (fa_source a) = Inr False"
      "fa_not_ours a (ih_src (ip_header d)) (fa_destination a) = Inr False"
      "blist_to_buffer (ip_payload d) = Inr payload"
      "seg_parse seg_new payload (ih_pseudo_cksum (ip_header d)) = Inr (seg, NoError)"
      "ih_proto (ip_header d) = PROTO_TCP" "addr_port gni (fa_source a) = Inr (th_dport (seg_header seg))"
      "fa_adopt gai gni ntoa d seg a = Inr (Some b)" "addr_port gni (fa_destination b) = Inr p"
      "r = (if th_sport (seg_header seg) = p then Some seg else None)"
proof -
  obtain d res where d: "ip_parse ip_new (buf_of_string data) = Inr (d, res)"
      "(if res \<noteq> NoError then Inr (a, None) else unwrap_tcp_in_ip gai gni ntoa d a) = Inr (b, r)"
    using assms by (auto simp: tun_read_def bind_res_eq_Inr)
  show thesis
  proof (cases "res = NoError")
    case True
    then have "unwrap_tcp_in_ip gai gni ntoa d a = Inr (b, r)" using d(2) by simp
    then show thesis by (rule unwrap_cases) (use that d(1) True in blast)+
  qed (use d(2) that(1) in simp)
qed

lemma udp_read_cases:
  assumes "udp_read d a = Inr (b, r)"
  obtains "r = None" "b = a"
  | seg where "\<not> fa_listening a" "addr_eq (rd_source_address d) (fa_destination a)" "r = Some seg" "b = a"
  | seg where "fa_listening a" "th_syn (seg_header seg)" "\<not> th_rst (seg_header seg)" "r = Some seg"
      "b = a\<lparr>fa_config := (fa_config a)\<lparr>fc_destination := rd_source_address d\<rparr>, fa_listening := False\<rparr>"
  using assms
  by (cases "fa_listening a") (auto simp: udp_read_def bind_res_eq_Inr fa_set_listening_def split: if_splits)

text \<open>
  What the lossy wrapper relies on besides: reading leaves the loss rates alone. Then a sequence of
  reads through the wrapper takes the wrapped adapter through the same states and delivers a part of
  the same segments in the same order.
\<close>

locale rated_adapter = segment_adapter rd fa_listening fa_config
  for rd :: "'i \<Rightarrow> fd_adapter \<Rightarrow> (fd_adapter \<times> tcp_segment option) result" +
  assumes rates: "rd i a = Inr (b, r) \<Longrightarrow> fc_loss_rate_dn (fa_config b) = fc_loss_rate_dn (fa_config a)"
begin

lemma lossy_reads:
  assumes "reads is (ls_adapter l) = Inr (b, segs)"
  shows "\<exists>l' kept. segment_adapter.reads (ls_read rand rd) is l = Inr (l', kept) \<and> ls_adapter l' = b \<and> subseq kept segs
    \<and> (fc_loss_rate_dn (fa_config (ls_adapter l)) = 0 \<longrightarrow> kept = segs)"
  using assms
proof (induction "is" arbitrary: l segs)
  case (Cons i "is")
  note lossy_reads_simps = segment_adapter.reads.simps [OF lossy_segment_adapter [OF segment_adapter_axioms], of rand]
  obtain c r segs' where c: "rd i (ls_adapter l) = Inr (c, r)" "reads is c = Inr (b, segs')"
      "segs = (case r of None \<Rightarrow> segs' | Some seg \<Rightarrow> seg # segs')"
    using Cons.prems by (auto simp: bind_res_eq_Inr)
  obtain dropped m where m: "ls_should_drop rand False (l\<lparr>ls_adapter := c\<rparr>) = (dropped, m)" by force
  have m_c: "ls_adapter m = c" using ls_should_drop_adapter [OF m] by simp
  have rate: "fc_loss_rate_dn (fa_config c) = 0 \<longrightarrow> \<not> dropped"
    using m by (auto simp: ls_should_drop_def Let_def)
  obtain l' kept where l': "segment_adapter.reads (ls_read rand rd) is m = Inr (l', kept)" "ls_adapter l' = b"
      "subseq kept segs'" "fc_loss_rate_dn (fa_config c) = 0 \<longrightarrow> kept = segs'"
    using Cons.IH [of m segs'] c(2) m_c by auto
  have step: "ls_read rand rd i l = Inr (m, if dropped then None else r)" using c(1) m by (simp add: ls_read_def)
  show ?case using step l' c(3) rates [OF c(1)] rate by (cases r) (auto simp: lossy_reads_simps)
qed (simp add: segment_adapter.reads.simps [OF lossy_segment_adapter [OF segment_adapter_axioms]])

end

section \<open>The adapters of the program\<close>

interpretation udp: lossless_adapter udp_read fa_listening fa_config
  by unfold_locales (auto elim!: udp_read_cases)

interpretation tun: segment_adapter "tun_read gai gni ntoa" fa_listening fa_config
  for gai :: getaddrinfo and gni :: getnameinfo and ntoa :: inet_ntoa
  by unfold_locales (auto elim!: tun_read_cases dest: fa_adopt_cases split: if_splits)

interpretation lossy_udp: segment_adapter "ls_read rand udp_read" "fa_listening \<circ> ls_adapter" ls_config
  for rand :: "'g \<Rightarrow> uint32 \<times> 'g"
  by (rule lossy_segment_adapter) unfold_locales

interpretation lossy_tun: segment_adapter "ls_read rand (tun_read gai gni ntoa)"
  "fa_listening \<circ> ls_adapter" ls_config
  for rand :: "'g \<Rightarrow> uint32 \<times> 'g" and gai :: getaddrinfo and gni :: getnameinfo and ntoa :: inet_ntoa
  by (rule lossy_segment_adapter) unfold_locales

interpretation rated_udp: rated_adapter udp_read
  by unfold_locales (auto elim!: udp_read_cases)

lemma fa_adopt_rates:
  "fa_adopt gai gni ntoa d seg a = Inr (Some b) \<Longrightarrow> fc_loss_rate_dn (fa_config b) = fc_loss_rate_dn (fa_config a)"
  by (auto simp: fa_adopt_def bind_res_eq_Inr fa_set_listening_def split: if_splits)

interpretation rated_tun: rated_adapter "tun_read gai gni ntoa"
  for gai :: getaddrinfo and gni :: getnameinfo and ntoa :: inet_ntoa
  by unfold_locales (auto elim!: tun_read_cases dest: fa_adopt_rates)

section \<open>How often the lossy adapter drops\<close>

lemma card_low_part:
  assumes "n \<le> b"
  shows "card {k. k < m * b \<and> k mod b < n} = m * (n :: nat)"
proof -
  have "inj_on (\<lambda>(q, r). q * b + r) ({..<m} \<times> {..<n})"
  proof (rule inj_onI, clarify)
    fix q r q' r' assume "q * b + r = q' * b + r'" and r: "r < n" "r' < n"
    then have "(q * b + r) div b = (q' * b + r') div b" "(q * b + r) mod b = (q' * b + r') mod b" by simp_all
    then show "q = q' \<and> r = r'" using r assms by simp
  qed
  moreover have "(\<lambda>(q, r). q * b + r) ` ({..<m} \<times> {..<n}) = {k. k < m * b \<and> k mod b < n}"
  proof (intro equalityI subsetI)
    fix k assume "k \<in> {k. k < m * b \<and> k mod b < n}"
    then have "(k div b, k mod b) \<in> {..<m} \<times> {..<n}" by (simp add: less_mult_imp_div_less)
    then show "k \<in> (\<lambda>(q, r). q * b + r) ` ({..<m} \<times> {..<n})" by (rule rev_image_eqI) simp
  next
    fix k assume "k \<in> (\<lambda>(q, r). q * b + r) ` ({..<m} \<times> {..<n})"
    then obtain q r where k: "k = q * b + r" "q < m" "r < n" by auto
    have "q * b + r < Suc q * b" using k(3) assms by simp
    also have "\<dots> \<le> m * b" using k(2) by (intro mult_le_mono1) simp
    finally show "k \<in> {k. k < m * b \<and> k mod b < n}" using k assms by simp
  qed
  ultimately show ?thesis
    using card_image [of "\<lambda>(q, r). q * b + r" "{..<m} \<times> {..<n}"] by (simp add: card_cartesian_product)
qed

lemma card_unat: "card {x :: 'a::len word. P (unat x)} = card {k. k < 2 ^ LENGTH('a) \<and> P k}"
proof -
  have "unat ` {x :: 'a word. P (unat x)} = {k. k < 2 ^ LENGTH('a) \<and> P k}"
  proof (intro equalityI subsetI)
    fix k assume "k \<in> {k. k < 2 ^ LENGTH('a) \<and> P k}"
    then show "k \<in> unat ` {x :: 'a word. P (unat x)}"
      by (intro image_eqI [of _ _ "of_nat k"]) (simp_all add: unsigned_of_nat take_bit_nat_eq_self)
  qed (auto simp: unsigned_less)
  moreover have "inj_on unat {x :: 'a word. P (unat x)}" by (rule inj_onI) (simp only: word_unat_eq_iff)
  ultimately show ?thesis using card_image [of unat "{x :: 'a word. P (unat x)}"] by simp
qed

lemma card_draws_below: "card {x :: uint32. (ucast x :: uint16) < loss} = 65536 * unat loss"
proof -
  have "(ucast x :: uint16) < loss \<longleftrightarrow> unat x mod 65536 < unat loss" for x :: uint32
    by (simp add: word_less_nat_alt unsigned_ucast_eq take_bit_eq_mod)
  then show ?thesis
    using card_low_part [of "unat loss" 65536 65536] card_unat [where P = "\<lambda>k. k mod 65536 < unat loss" and 'a = 32]
      unsigned_less [of loss, where 'a = nat] by simp
qed

lemma card_draws_not_below: "card {x :: uint32. \<not> (ucast x :: uint16) < loss} = 65536 * (65536 - unat loss)"
proof -
  have "card (- {x :: uint32. (ucast x :: uint16) < loss}) = CARD(uint32) - 65536 * unat loss"
    by (simp add: Compl_eq_Diff_UNIV card_Diff_subset card_draws_below card_word)
  moreover have "- {x :: uint32. (ucast x :: uint16) < loss} = {x. \<not> ucast x < loss}" by auto
  ultimately show ?thesis by (simp add: card_word diff_mult_distrib2)
qed

lemma ls_should_drop_iff:
  "ls_should_drop (\<lambda>g. (x, g)) up l =
    (ucast x < (if up then fc_loss_rate_up (ls_config l) else fc_loss_rate_dn (ls_config l)), l)"
  by (simp add: ls_should_drop_def Let_def ls_config_def)

section \<open>TCP in IPv4\<close>

lemma unat_add_le: "unat (a + b :: 'a::len word) \<le> unat a + unat b"
  by (simp add: unat_word_ariths)

lemma pseudo_cksum_bound: "unat (ih_pseudo_cksum h) < 2 ^ 24"
proof -
  have half: "unat (drop_bit 16 x + (x AND 0xffff)) \<le> 2 * 65535" for x :: uint32
  proof -
    have "unat x < 65536 * 65536" using unsigned_less [of x, where 'a = nat] by simp
    then have "unat (drop_bit 16 x) < 65536"
      by (simp only: unat_drop_bit_eq) (simp add: drop_bit_eq_div less_mult_imp_div_less)
    moreover have "unat x mod 65536 < 65536" by simp
    ultimately show ?thesis
      using unat_add_le [of "drop_bit 16 x" "x AND 0xffff"] unfolding unat_low_half by linarith
  qed
  have b: "unat (ucast (ih_proto h) :: uint32) < 256" "unat (ucast (ih_payload_length h) :: uint32) < 65536"
    using unat_byte [of "ih_proto h"] unsigned_less [of "ih_payload_length h", where 'a = nat]
    by (simp_all add: unsigned_ucast_eq take_bit_nat_eq_self)
  let ?s = "drop_bit 16 (ih_src h) + (ih_src h AND 0xffff)" and ?d = "drop_bit 16 (ih_dst h) + (ih_dst h AND 0xffff)"
  have "unat (?s + ?d) \<le> 4 * 65535" using unat_add_le [of ?s ?d] half [of "ih_src h"] half [of "ih_dst h"] by linarith
  moreover have "unat (?s + ?d + ucast (ih_proto h)) \<le> unat (?s + ?d) + unat (ucast (ih_proto h) :: uint32)"
    by (rule unat_add_le)
  ultimately have "unat (ih_pseudo_cksum h) < 16777216"
    using b unat_add_le [of "?s + ?d + ucast (ih_proto h)" "ucast (ih_payload_length h)"]
    unfolding ih_pseudo_cksum_def Let_def by linarith
  then show ?thesis by simp
qed

text \<open>The header that \<open>wrap_tcp_in_ip\<close> builds for a payload of \<open>n\<close> bytes.\<close>

definition ip_header_for :: "uint32 \<Rightarrow> uint32 \<Rightarrow> nat \<Rightarrow> ipv4_header" where
  "ip_header_for src dst n = ih_new\<lparr>ih_src := src, ih_dst := dst, ih_len := of_nat (20 + n)\<rparr>"

lemma ip_header_for:
  assumes "20 + n < 65536"
  shows "ih_ok (ip_header_for src dst n)" and "unat (ih_len (ip_header_for src dst n)) = 20 + n"
    and "unat (ih_hlen (ip_header_for src dst n)) = 5"
  using assms by (simp_all add: ip_header_for_def ih_ok_def ih_new_def ih_LENGTH_def unat_of_nat_less del: of_nat_add)

text \<open>An adapter with both ends fixed.\<close>

definition fa_between :: "fd_adapter \<Rightarrow> uint16 \<Rightarrow> uint32 \<Rightarrow> uint16 \<Rightarrow> uint32 \<Rightarrow> bool" where
  "fa_between a sport src dport dst \<longleftrightarrow> fa_source a = addr_in sport src \<and> fa_destination a = addr_in dport dst"

lemma tun_write_sends:
  fixes seg :: tcp_segment
  defines "n \<equiv> 4 * unat (th_doff (seg_header seg)) + length (buf_str (seg_payload seg))"
  assumes res: "numeric_resolver gai gni ntoa" and a: "fa_between a sport src dport dst"
    and doff: "5 \<le> th_doff (seg_header seg)" "th_doff (seg_header seg) < 16"
    and len: "20 + n < 65536" and pay: "buf_inv (seg_payload seg)"
  defines "h \<equiv> ip_header_for src dst n"
    and "seg1 \<equiv> seg\<lparr>seg_header := (seg_header seg)\<lparr>th_sport := sport, th_dport := dport\<rparr>\<rparr>"
  shows "\<exists>bl wire c b d. tun_write gni seg a = Inr (seg1, bl)
    \<and> ip_parse ip_new (buf_of_string (blist_concatenate bl)) = Inr (d, NoError)
    \<and> ip_header d = h\<lparr>ih_cksum := wire\<rparr> \<and> blist_to_buffer (ip_payload d) = Inr b \<and> buf_inv b
    \<and> (\<exists>p. seg_parse seg_new b (ih_pseudo_cksum (ip_header d))
         = Inr (\<lparr>seg_header = (seg_header seg1)\<lparr>th_cksum := c\<rparr>, seg_payload = p\<rparr>, NoError)
         \<and> buf_str p = buf_str (seg_payload seg))"
proof -
  let ?dl = "ucast (ih_hlen ih_new) * 4 + ucast (th_doff (seg_header seg)) * 4 + buf_size (seg_payload seg) :: size_t"
  have sz: "buf_size (seg_payload seg) = of_nat (length (buf_str (seg_payload seg)))"
    by (simp add: buf_size_def)
  have "?dl = of_nat (20 + n)" by (simp add: n_def sz)
  moreover have "unat (of_nat (20 + n) :: size_t) = 20 + n" using len by (intro unat_of_nat_less) simp
  ultimately have "unat ?dl = 20 + n" by (simp only:)
  then have "(ucast ?dl :: uint16) = of_nat (20 + n)"
    using len by (intro unat_eqD) (simp add: unsigned_ucast_eq take_bit_nat_eq_self unat_of_nat_less del: of_nat_add)
  then have h: "ih_new\<lparr>ih_src := src, ih_dst := dst, ih_len := ucast ?dl\<rparr> = h" by (simp add: h_def ip_header_for_def)
  have s1: "5 \<le> th_doff (seg_header seg1)" "th_doff (seg_header seg1) < 16"
      "th_doff (seg_header seg1) = th_doff (seg_header seg)" "seg_payload seg1 = seg_payload seg"
    using doff by (simp_all add: seg1_def)
  obtain bl c where bl: "seg_serialize seg1 (ih_pseudo_cksum h) = Inr bl" "length (blist_concatenate bl) = n"
      "\<And>b. buf_inv b \<Longrightarrow> buf_str b = blist_concatenate bl \<Longrightarrow>
         \<exists>p. seg_parse seg_new b (ih_pseudo_cksum h)
             = Inr (\<lparr>seg_header = (seg_header seg1)\<lparr>th_cksum := c\<rparr>, seg_payload = p\<rparr>, NoError)
           \<and> buf_str p = buf_str (seg_payload seg)"
    using seg_roundtrip [OF s1(1,2) _ pseudo_cksum_bound [of h]] len unfolding s1(3,4) n_def by fastforce
  let ?d = "\<lparr>ip_header = h, ip_payload = bl\<rparr>"
  have wrap: "wrap_tcp_in_ip gni seg a = Inr (seg1, ?d)"
    using resolver_address [OF res] a bl(1) h
    by (simp add: wrap_tcp_in_ip_def fa_between_def seg1_def ip_new_def Let_def)
  have ok: "ih_ok h" "unat (ih_len h) = 4 * unat (ih_hlen h) + length (concat (map buf_str bl))"
    using ip_header_for [OF len, of src dst] bl(2) by (simp_all add: h_def)
  obtain wl where wl: "ip_serialize ?d = Inr wl" and
    "\<exists>c b. buf_inv b \<and> buf_str b = concat (map buf_str bl)
      \<and> ip_parse ip_new (buf_of_string (blist_concatenate wl)) = Inr (\<lparr>ip_header = h\<lparr>ih_cksum := c\<rparr>, ip_payload = [b]\<rparr>, NoError)"
    using ip_serialize_wire [of ?d] ip_wire_parses(2) [OF ok] ok by fastforce
  then obtain wire b where b: "buf_inv b" "buf_str b = blist_concatenate bl"
      "ip_parse ip_new (buf_of_string (blist_concatenate wl)) = Inr (\<lparr>ip_header = h\<lparr>ih_cksum := wire\<rparr>, ip_payload = [b]\<rparr>, NoError)"
    by auto
  have "ih_pseudo_cksum (h\<lparr>ih_cksum := wire\<rparr>) = ih_pseudo_cksum h"
    by (simp add: ih_pseudo_cksum_def ih_payload_length_def)
  then show ?thesis using wrap wl b bl(3) [OF b(1,2)]
    by (auto simp: tun_write_def blist_to_buffer_def simp del: blist_concatenate_eq)
qed

section \<open>Properties\<close>

text \<open>
  (C25) Segments survive the way through IPv4: what one adapter writes to its TUN device for a segment,
  an adapter at the other end, connected to the first or listening on the right port for a SYN, reads
  from its own device as the same segment, with the ports filled in, whatever the segment's other
  header fields and payload are; and after that the second adapter is connected to the first. (The
  datagram is shorter than 64 KiB; the resolver does what its manual promises.)
\<close>

theorem tcp_over_ip_roundtrip:
  assumes "numeric_resolver gai gni ntoa" and "fa_between a sport src dport dst"
    and "5 \<le> th_doff (seg_header seg)" and "th_doff (seg_header seg) < 16" and "buf_inv (seg_payload seg)"
    and "20 + 4 * unat (th_doff (seg_header seg)) + length (buf_str (seg_payload seg)) < 65536"
    and "\<not> fa_listening b \<and> fa_between b dport dst sport src
      \<or> fa_listening b \<and> fa_source b = addr_in dport any
        \<and> th_syn (seg_header seg) \<and> \<not> th_rst (seg_header seg)"
  shows "\<exists>seg1 bl b' c payload. tun_write gni seg a = Inr (seg1, bl)
    \<and> tun_read gai gni ntoa (blist_concatenate bl) b = Inr (b', Some
        \<lparr>seg_header = (seg_header seg)\<lparr>th_sport := sport, th_dport := dport, th_cksum := c\<rparr>, seg_payload = payload\<rparr>)
    \<and> buf_str payload = buf_str (seg_payload seg)
    \<and> \<not> fa_listening b' \<and> fa_between b' dport dst sport src"
proof -
  let ?n = "4 * unat (th_doff (seg_header seg)) + length (buf_str (seg_payload seg))"
  have "20 + ?n < 65536" using assms(6) by simp
  from tun_write_sends [OF assms(1-4) this assms(5)] obtain bl wire c buf d p where
    w: "tun_write gni seg a = Inr (seg\<lparr>seg_header := (seg_header seg)\<lparr>th_sport := sport, th_dport := dport\<rparr>\<rparr>, bl)"
    and d: "ip_parse ip_new (buf_of_string (blist_concatenate bl)) = Inr (d, NoError)"
      "ip_header d = (ip_header_for src dst ?n)\<lparr>ih_cksum := wire\<rparr>" "blist_to_buffer (ip_payload d) = Inr buf"
    and seg: "seg_parse seg_new buf (ih_pseudo_cksum (ip_header d)) = Inr (\<lparr>seg_header =
        (seg_header seg)\<lparr>th_sport := sport, th_dport := dport, th_cksum := c\<rparr>, seg_payload = p\<rparr>, NoError)"
      "buf_str p = buf_str (seg_payload seg)"
    by auto
  have h: "ih_src (ip_header d) = src" "ih_dst (ip_header d) = dst" "ih_proto (ip_header d) = PROTO_TCP"
    by (simp_all add: d(2) ip_header_for_def ih_new_def)
  let ?read = "tun_read gai gni ntoa (blist_concatenate bl) b"
  have "?read = unwrap_tcp_in_ip gai gni ntoa d b" by (simp only: tun_read_def d(1)) simp
  also have "\<exists>b'. \<dots> = Inr (b', Some \<lparr>seg_header =
        (seg_header seg)\<lparr>th_sport := sport, th_dport := dport, th_cksum := c\<rparr>, seg_payload = p\<rparr>)
      \<and> \<not> fa_listening b' \<and> fa_between b' dport dst sport src"
    using assms(7) d(3) seg(1) h resolver_address [OF assms(1)]
    by (auto simp: unwrap_tcp_in_ip_def fa_not_ours_def fa_adopt_def fa_set_listening_def fa_between_def)
  finally show ?thesis using w seg(2) by fastforce
qed

theorem tcp_over_ip_roundtrip_witness:
  "\<exists>seg1 bl b' c payload.
    tun_write sample_gni (seg_new\<lparr>seg_header := th_new\<lparr>th_syn := True\<rparr>\<rparr>)
      \<lparr>fa_config = \<lparr>fc_source = addr_in 80 1, fc_destination = addr_in 90 2, fc_loss_rate_dn = 0, fc_loss_rate_up = 0\<rparr>,
       fa_listening = False\<rparr> = Inr (seg1, bl)
    \<and> tun_read sample_gai sample_gni sample_ntoa (blist_concatenate bl)
      \<lparr>fa_config = \<lparr>fc_source = addr_in 90 0, fc_destination = addr_in 0 0, fc_loss_rate_dn = 0, fc_loss_rate_up = 0\<rparr>,
       fa_listening = True\<rparr> = Inr (b', Some \<lparr>seg_header =
         th_new\<lparr>th_syn := True, th_sport := 80, th_dport := 90, th_cksum := c\<rparr>, seg_payload = payload\<rparr>)
    \<and> buf_str payload = [] \<and> \<not> fa_listening b' \<and> fa_between b' 90 2 80 1"
  using tcp_over_ip_roundtrip [OF sample_resolver, of
      "\<lparr>fa_config = \<lparr>fc_source = addr_in 80 1, fc_destination = addr_in 90 2, fc_loss_rate_dn = 0, fc_loss_rate_up = 0\<rparr>,
        fa_listening = False\<rparr>" 80 1 90 2 "seg_new\<lparr>seg_header := th_new\<lparr>th_syn := True\<rparr>\<rparr>"
      "\<lparr>fa_config = \<lparr>fc_source = addr_in 90 0, fc_destination = addr_in 0 0, fc_loss_rate_dn = 0, fc_loss_rate_up = 0\<rparr>,
        fa_listening = True\<rparr>" 0]
  by (simp add: fa_between_def seg_new_def th_new_def)

text \<open>Two connected adapters with given loss rates, for the witnesses below.\<close>

definition sample_adapter :: "uint16 \<Rightarrow> uint32 \<Rightarrow> uint16 \<Rightarrow> uint32 \<Rightarrow> uint16 \<Rightarrow> uint16 \<Rightarrow> fd_adapter" where
  "sample_adapter sport src dport dst dn up = \<lparr>fa_config = \<lparr>fc_source = addr_in sport src, fc_destination = addr_in dport dst,
     fc_loss_rate_dn = dn, fc_loss_rate_up = up\<rparr>, fa_listening = False\<rparr>"

lemma sample_adapter:
  "fa_between (sample_adapter sport src dport dst dn up) sport src dport dst"
  "\<not> fa_listening (sample_adapter sport src dport dst dn up)"
  by (simp_all add: sample_adapter_def fa_between_def)

lemma sample_tun_write:
  "\<exists>bl d buf p c seg1. tun_write sample_gni seg_new (sample_adapter sport src dport dst dn up) = Inr (seg1, bl)
    \<and> ip_parse ip_new (buf_of_string (blist_concatenate bl)) = Inr (d, NoError)
    \<and> blist_to_buffer (ip_payload d) = Inr buf \<and> ih_src (ip_header d) = src \<and> ih_dst (ip_header d) = dst
    \<and> ih_proto (ip_header d) = PROTO_TCP \<and> seg_parse seg_new buf (ih_pseudo_cksum (ip_header d)) = Inr (\<lparr>seg_header =
        (seg_header seg_new)\<lparr>th_sport := sport, th_dport := dport, th_cksum := c\<rparr>, seg_payload = p\<rparr>, NoError)"
proof -
  have len: "20 + (4 * unat (th_doff (seg_header seg_new)) + length (buf_str (seg_payload seg_new))) < 65536"
    by (simp add: seg_new_def th_new_def)
  show ?thesis
    using tun_write_sends [OF sample_resolver sample_adapter(1) _ _ len, of sport src dport dst dn up]
    by (fastforce simp: seg_new_def th_new_def ip_header_for_def ih_new_def)
qed

lemma sample_tun_read:
  "\<exists>bl seg. tun_read sample_gai sample_gni sample_ntoa (blist_concatenate bl) (sample_adapter dport dst sport src dn up)
    = Inr (sample_adapter dport dst sport src dn up, Some seg)"
proof -
  obtain bl d buf p c where "ip_parse ip_new (buf_of_string (blist_concatenate bl)) = Inr (d, NoError)"
      "blist_to_buffer (ip_payload d) = Inr buf" "ih_src (ip_header d) = src" "ih_dst (ip_header d) = dst"
      "ih_proto (ip_header d) = PROTO_TCP" "seg_parse seg_new buf (ih_pseudo_cksum (ip_header d)) = Inr (\<lparr>seg_header =
        (seg_header seg_new)\<lparr>th_sport := sport, th_dport := dport, th_cksum := c\<rparr>, seg_payload = p\<rparr>, NoError)"
    using sample_tun_write [of sport src dport dst dn up] by blast
  then have "\<exists>seg. tun_read sample_gai sample_gni sample_ntoa (blist_concatenate bl) (sample_adapter dport dst sport src dn up)
      = Inr (sample_adapter dport dst sport src dn up, Some seg)"
    using resolver_address [OF sample_resolver] unfolding tun_read_def sample_adapter_def
    by (simp del: blist_concatenate_eq add: unwrap_tcp_in_ip_def fa_not_ours_def fa_adopt_def)
  then show ?thesis by blast
qed

text \<open>
  (C26) Nothing unrelated gets through: a segment that a connected TUN adapter delivers came in an IPv4
  datagram between exactly the two addresses of the connection, marked as TCP, passed the checksum
  with the pseudo-header of that datagram, and carries the ports of the connection; the adapter itself
  is unchanged.
\<close>

theorem tcp_over_ip_filters:
  assumes "numeric_resolver gai gni ntoa" and "fa_between a sport src dport dst" and "\<not> fa_listening a"
    and "tun_read gai gni ntoa data a = Inr (b, Some seg)"
  shows "b = a \<and> th_dport (seg_header seg) = sport \<and> th_sport (seg_header seg) = dport
    \<and> (\<exists>d payload. ip_parse ip_new (buf_of_string data) = Inr (d, NoError)
        \<and> ih_dst (ip_header d) = src \<and> ih_src (ip_header d) = dst \<and> ih_proto (ip_header d) = 6
        \<and> blist_to_buffer (ip_payload d) = Inr payload
        \<and> ck_value (ck_add (ck_new (ih_pseudo_cksum (ip_header d))) (buf_str payload)) = 0)"
  using assms(4)
proof (cases rule: tun_read_cases)
  case (2 d payload seg' p)
  have ends: "addr_port gni (fa_source a) = Inr sport" "addr_port gni (fa_destination a) = Inr dport"
      "addr_ipv4_numeric (fa_source a) = Inr src" "addr_ipv4_numeric (fa_destination a) = Inr dst"
    using assms(2) resolver_address(3) [OF assms(1)] by (simp_all add: fa_between_def)
  have b: "b = a" using fa_adopt_cases(2) [OF 2(8)] assms(3) by simp
  moreover have "seg' = seg" "th_sport (seg_header seg) = p" using 2(10) by (auto split: if_splits)
  moreover have "ih_dst (ip_header d) = src" "ih_src (ip_header d) = dst"
    using 2(2,3) ends assms(3) by (simp_all add: fa_not_ours_def)
  moreover have "ck_value (ck_add (ck_new (ih_pseudo_cksum (ip_header d))) (buf_str payload)) = 0"
    using 2(5) by (auto simp: seg_parse_def Let_def split: if_splits)
  ultimately show ?thesis using 2 ends by (auto simp: PROTO_TCP_def)
qed simp

theorem tcp_over_ip_filters_witness:
  "\<exists>bl a seg b. tun_read sample_gai sample_gni sample_ntoa (blist_concatenate bl) a = Inr (b, Some seg)
    \<and> \<not> fa_listening a \<and> b = a \<and> th_dport (seg_header seg) = 90 \<and> th_sport (seg_header seg) = 80"
proof -
  let ?b = "sample_adapter 90 2 80 1 0 0"
  obtain bl seg where "tun_read sample_gai sample_gni sample_ntoa (blist_concatenate bl) ?b = Inr (?b, Some seg)"
    using sample_tun_read by blast
  from tcp_over_ip_filters [OF sample_resolver sample_adapter(1) _ this] this show ?thesis
    by (intro exI [of _ bl] exI [of _ ?b] exI [of _ seg]) (simp add: sample_adapter)
qed

text \<open>
  (C27) The lossy adapter loses packets at the configured rate and does nothing else. Of the \<open>2 ^ 32\<close>
  numbers that the generator can draw, exactly \<open>65536\<close> times the loss rate of the downlink make a read
  of a segment return nothing, and all others make it return that segment; for a write the same holds
  with the loss rate of the uplink, where a dropped segment is left as it is and a sent one is sent as
  the wrapped adapter sends it. Whatever the generator draws, a sequence of reads through the lossy
  adapter over UDP or over a TUN device leaves the wrapped adapter as its own reads would and delivers
  a subsequence of the same segments, all of them if the rate is 0.
\<close>

theorem lossy_adapter_only_drops:
  fixes l :: "'g lossy"
  assumes rd: "rd i (ls_adapter l) = Inr (a, Some seg)" and wr: "wr seg' (ls_adapter l) = Inr (seg_sent, sent)"
    and udp: "udp.reads datagrams (ls_adapter l) = Inr (b, udp_segs)"
    and tun: "tun.reads gai gni ntoa packets (ls_adapter l) = Inr (c, tun_segs)"
  shows "card {x. ls_read (\<lambda>g. (x, g)) rd i l = Inr (l\<lparr>ls_adapter := a\<rparr>, None)}
      = 65536 * unat (fc_loss_rate_dn (fa_config a))
    \<and> card {x. ls_read (\<lambda>g. (x, g)) rd i l = Inr (l\<lparr>ls_adapter := a\<rparr>, Some seg)}
      = 65536 * (65536 - unat (fc_loss_rate_dn (fa_config a)))
    \<and> card {x. ls_write (\<lambda>g. (x, g)) wr seg' l = Inr (l, seg', None)} = 65536 * unat (fc_loss_rate_up (ls_config l))
    \<and> card {x. ls_write (\<lambda>g. (x, g)) wr seg' l = Inr (l, seg_sent, Some sent)}
      = 65536 * (65536 - unat (fc_loss_rate_up (ls_config l)))
    \<and> (\<exists>l' kept. lossy_udp.reads rand datagrams l = Inr (l', kept) \<and> ls_adapter l' = b \<and> subseq kept udp_segs
      \<and> (fc_loss_rate_dn (ls_config l) = 0 \<longrightarrow> kept = udp_segs))
    \<and> (\<exists>l' kept. lossy_tun.reads rand gai gni ntoa packets l = Inr (l', kept) \<and> ls_adapter l' = c
      \<and> subseq kept tun_segs \<and> (fc_loss_rate_dn (ls_config l) = 0 \<longrightarrow> kept = tun_segs))"
proof (intro conjI)
  have reading: "ls_read (\<lambda>g. (x, g)) rd i l
      = Inr (l\<lparr>ls_adapter := a\<rparr>, if ucast x < fc_loss_rate_dn (fa_config a) then None else Some seg)" for x
    using rd by (simp add: ls_read_def ls_should_drop_iff ls_config_def)
  have writes: "ls_write (\<lambda>g. (x, g)) wr seg' l
      = (if ucast x < fc_loss_rate_up (ls_config l) then Inr (l, seg', None) else Inr (l, seg_sent, Some sent))" for x
    using wr by (simp add: ls_write_def ls_should_drop_iff)
  show "card {x. ls_read (\<lambda>g. (x, g)) rd i l = Inr (l\<lparr>ls_adapter := a\<rparr>, None)}
      = 65536 * unat (fc_loss_rate_dn (fa_config a))"
    using card_draws_below by (simp add: reading)
  show "card {x. ls_read (\<lambda>g. (x, g)) rd i l = Inr (l\<lparr>ls_adapter := a\<rparr>, Some seg)}
      = 65536 * (65536 - unat (fc_loss_rate_dn (fa_config a)))"
    using card_draws_not_below by (simp add: reading)
  show "card {x. ls_write (\<lambda>g. (x, g)) wr seg' l = Inr (l, seg', None)} = 65536 * unat (fc_loss_rate_up (ls_config l))"
    using card_draws_below by (simp add: writes)
  show "card {x. ls_write (\<lambda>g. (x, g)) wr seg' l = Inr (l, seg_sent, Some sent)}
      = 65536 * (65536 - unat (fc_loss_rate_up (ls_config l)))"
    using card_draws_not_below by (simp add: writes)
  show "\<exists>l' kept. lossy_udp.reads rand datagrams l = Inr (l', kept) \<and> ls_adapter l' = b \<and> subseq kept udp_segs
      \<and> (fc_loss_rate_dn (ls_config l) = 0 \<longrightarrow> kept = udp_segs)"
    using rated_udp.lossy_reads [OF udp] by (simp add: ls_config_def)
  show "\<exists>l' kept. lossy_tun.reads rand gai gni ntoa packets l = Inr (l', kept) \<and> ls_adapter l' = c
      \<and> subseq kept tun_segs \<and> (fc_loss_rate_dn (ls_config l) = 0 \<longrightarrow> kept = tun_segs)"
    using rated_tun.lossy_reads [OF tun] by (simp add: ls_config_def)
qed

theorem lossy_adapter_only_drops_witness:
  "\<exists>packet seg l m :: unit lossy. \<exists>out. \<not> fa_listening (ls_adapter l)
    \<and> card {x. ls_read (\<lambda>g. (x, g)) (tun_read sample_gai sample_gni sample_ntoa) packet l = Inr (l, None)} = 2 ^ 30
    \<and> card {x. ls_read (\<lambda>g. (x, g)) (tun_read sample_gai sample_gni sample_ntoa) packet l = Inr (l, Some seg)} = 3 * 2 ^ 30
    \<and> card {x. ls_write (\<lambda>g. (x, g)) (tun_write sample_gni) seg_new l = Inr (l, seg_new, None)} = 2 ^ 31
    \<and> lossy_tun.reads (\<lambda>g. (0, g)) sample_gai sample_gni sample_ntoa [packet] l = Inr (m, out) \<and> subseq out [seg]"
proof -
  let ?b = "sample_adapter 90 2 80 1 16384 32768"
  let ?l = "\<lparr>ls_rand = (), ls_adapter = ?b\<rparr>"
  obtain bl seg where seg: "tun_read sample_gai sample_gni sample_ntoa (blist_concatenate bl) ?b = Inr (?b, Some seg)"
    using sample_tun_read by blast
  then have rd: "tun_read sample_gai sample_gni sample_ntoa (blist_concatenate bl) (ls_adapter ?l) = Inr (?b, Some seg)"
    and tun: "tun.reads sample_gai sample_gni sample_ntoa [blist_concatenate bl] (ls_adapter ?l) = Inr (?b, [seg])"
    by simp_all
  have udp: "udp.reads [] (ls_adapter ?l) = Inr (?b, [])" by simp
  obtain seg' sent where wr: "tun_write sample_gni seg_new (ls_adapter ?l) = Inr (seg', sent)"
    using sample_tun_write [of 90 2 80 1 16384 32768] by auto
  from lossy_adapter_only_drops [where l = ?l and rd = "tun_read sample_gai sample_gni sample_ntoa"
      and i = "blist_concatenate bl" and wr = "tun_write sample_gni" and seg' = seg_new and rand = "\<lambda>g. (0, g)",
      OF rd wr udp tun]
  show ?thesis
    by (intro exI [of _ "blist_concatenate bl"] exI [of _ seg] exI [of _ ?l]) (auto simp: sample_adapter_def ls_config_def)
qed

text \<open>
  A listening adapter over UDP is opened by a SYN: whatever datagrams it reads, the first segment
  that it delivers has the SYN flag and not the RST flag, and once it has delivered one it no longer
  listens; as long as it has delivered nothing its configuration is unchanged.
\<close>

theorem udp_adapter_opened_by_syn:
  assumes "fa_listening a" and "udp.reads datagrams a = Inr (b, segs)"
  shows "(segs \<noteq> [] \<longrightarrow> th_syn (seg_header (hd segs)) \<and> \<not> th_rst (seg_header (hd segs)) \<and> \<not> fa_listening b)
    \<and> (segs = [] \<longrightarrow> fa_listening b \<and> fa_config b = fa_config a)"
  using udp.reads_first [OF assms] by blast

theorem udp_adapter_opened_by_syn_witness:
  "\<exists>b. udp.reads [\<lparr>rd_source_address = addr_in 1 1, rd_payload = []\<rparr>]
      \<lparr>fa_config = \<lparr>fc_source = addr_in 80 1, fc_destination = addr_in 90 2,
         fc_loss_rate_dn = 0, fc_loss_rate_up = 0\<rparr>, fa_listening = True\<rparr> = Inr (b, [])
    \<and> fa_listening b"
proof -
  let ?a = "\<lparr>fa_config = \<lparr>fc_source = addr_in 80 1, fc_destination = addr_in 90 2,
         fc_loss_rate_dn = 0, fc_loss_rate_up = 0\<rparr>, fa_listening = True\<rparr>"
  have "unat (ck_value (ck_new 0)) = 65535" by (simp add: unat_ck_value ck_new_def ones_residue_def)
  then have "ck_value (ck_new 0) \<noteq> 0" by auto
  then have "udp.reads [\<lparr>rd_source_address = addr_in 1 1, rd_payload = []\<rparr>] ?a = Inr (?a, [])"
    by (simp add: udp_read_def seg_parse_def)
  then show ?thesis
    using udp_adapter_opened_by_syn [of ?a "[\<lparr>rd_source_address = addr_in 1 1, rd_payload = []\<rparr>]" ?a "[]"] by simp
qed

end
