(* ===== verification/File_Descriptor.thy ===== *)
theory File_Descriptor
  imports Text_Format
begin

text \<open>
  File descriptors (\<open>libsponge/util/file_descriptor.hh\<close>, \<open>file_descriptor.cc\<close>) and the wrapper of
  system calls (\<open>SystemCall\<close> in \<open>util.cc\<close>). The operating system is a parameter: a record of functions,
  one for each system call, over a state of an arbitrary type. What the program relies on of it is
  \<open>kernel_ok\<close>. The shared \<open>FDWrapper\<close> of a descriptor is a value that its owner keeps; descriptors made
  by \<open>duplicate\<close> are the same value.
\<close>

section \<open>System calls\<close>

text \<open>The return value of a system call and \<open>errno\<close> after it.\<close>

type_synonym sys_ret = "int \<times> int"

record pollfd =
  pf_fd :: int
  pf_events :: "16 word"
  pf_revents :: "16 word"

text \<open>\<open>read\<close> also returns the bytes that it stored, \<open>poll\<close> the events that it wrote into its array, \<open>recvfrom\<close> the bytes
  that it stored and the address of the sender, \<open>getsockopt\<close> the value of the option and its length.
  \<open>k_sockname\<close> is \<open>getpeername\<close> or \<open>getsockname\<close>, \<open>k_now\<close> the clock in milliseconds; \<open>socketpair\<close> also returns the two
  descriptors, \<open>getsockopt\<close> and \<open>setsockopt\<close> are at the level \<open>SOL_SOCKET\<close>, and \<open>k_tunsetiff\<close> is the call of \<open>ioctl\<close>
  with \<open>TUNSETIFF\<close>, the flags and the name.\<close>

record 'k kernel =
  k_read :: "int \<Rightarrow> size_t \<Rightarrow> 'k \<Rightarrow> (sys_ret \<times> bytes) \<times> 'k"
  k_writev :: "int \<Rightarrow> (bytes \<times> size_t) list \<Rightarrow> 'k \<Rightarrow> sys_ret \<times> 'k"
  k_close :: "int \<Rightarrow> 'k \<Rightarrow> sys_ret \<times> 'k"
  k_getfl :: "int \<Rightarrow> 'k \<Rightarrow> sys_ret \<times> 'k"
  k_setfl :: "int \<Rightarrow> int \<Rightarrow> 'k \<Rightarrow> sys_ret \<times> 'k"
  k_shutdown :: "int \<Rightarrow> int \<Rightarrow> 'k \<Rightarrow> sys_ret \<times> 'k"
  k_recvfrom :: "int \<Rightarrow> size_t \<Rightarrow> 'k \<Rightarrow> (sys_ret \<times> bytes \<times> bytes) \<times> 'k"
  k_sendmsg :: "int \<Rightarrow> bytes option \<Rightarrow> (bytes \<times> size_t) list \<Rightarrow> 'k \<Rightarrow> sys_ret \<times> 'k"
  k_getsockopt :: "int \<Rightarrow> int \<Rightarrow> 'k \<Rightarrow> (sys_ret \<times> int \<times> nat) \<times> 'k"
  k_sockname :: "bool \<Rightarrow> int \<Rightarrow> 'k \<Rightarrow> (sys_ret \<times> bytes) \<times> 'k"
  k_poll :: "pollfd list \<Rightarrow> int \<Rightarrow> 'k \<Rightarrow> (sys_ret \<times> 16 word list) \<times> 'k"
  k_now :: "'k \<Rightarrow> uint64 \<times> 'k"
  k_socket :: "int \<Rightarrow> int \<Rightarrow> 'k \<Rightarrow> sys_ret \<times> 'k"
  k_socketpair :: "int \<Rightarrow> int \<Rightarrow> 'k \<Rightarrow> (sys_ret \<times> int \<times> int) \<times> 'k"
  k_bind :: "int \<Rightarrow> bytes \<Rightarrow> 'k \<Rightarrow> sys_ret \<times> 'k"
  k_connect :: "int \<Rightarrow> bytes \<Rightarrow> 'k \<Rightarrow> sys_ret \<times> 'k"
  k_listen :: "int \<Rightarrow> int \<Rightarrow> 'k \<Rightarrow> sys_ret \<times> 'k"
  k_accept :: "int \<Rightarrow> 'k \<Rightarrow> sys_ret \<times> 'k"
  k_setsockopt :: "int \<Rightarrow> int \<Rightarrow> int \<Rightarrow> 'k \<Rightarrow> sys_ret \<times> 'k"
  k_open :: "string \<Rightarrow> int \<Rightarrow> 'k \<Rightarrow> sys_ret \<times> 'k"
  k_tunsetiff :: "int \<Rightarrow> 16 word \<Rightarrow> bytes \<Rightarrow> 'k \<Rightarrow> sys_ret \<times> 'k"

text \<open>The argument of \<open>SystemCall\<close> is an \<open>int\<close>, so that a return value of type \<open>ssize_t\<close> is cut to 32 bits.\<close>

definition to_int :: "int \<Rightarrow> int" where
  "to_int x = sint (word_of_int x :: int32)"

definition SystemCall :: "string \<Rightarrow> sys_ret \<Rightarrow> int \<Rightarrow> int result" where
  "SystemCall attempt ret errno_mask =
     (let return_value = to_int (fst ret); errno = snd ret
      in if return_value \<ge> 0 \<or> errno = errno_mask then Inr return_value
         else Inl (System_Error attempt errno))"

section \<open>FDWrapper and FileDescriptor\<close>

record file_descriptor =
  fdw_fd :: int
  fdw_eof :: bool
  fdw_closed :: bool
  fdw_read_count :: uint32
  fdw_write_count :: uint32

definition fd_new :: "int \<Rightarrow> file_descriptor result" where
  "fd_new fd = (if fd < 0 then Inl (Runtime_Error (''invalid fd number:-'' @ dec_string (nat (- fd))))
     else Inr \<lparr>fdw_fd = fd, fdw_eof = False, fdw_closed = False, fdw_read_count = 0, fdw_write_count = 0\<rparr>)"

definition fd_register_read :: "file_descriptor \<Rightarrow> file_descriptor" where
  "fd_register_read fd = fd\<lparr>fdw_read_count := fdw_read_count fd + 1\<rparr>"

definition fd_register_write :: "file_descriptor \<Rightarrow> file_descriptor" where
  "fd_register_write fd = fd\<lparr>fdw_write_count := fdw_write_count fd + 1\<rparr>"

definition fd_close :: "'k kernel \<Rightarrow> file_descriptor \<Rightarrow> 'k \<Rightarrow> (file_descriptor \<times> 'k) result" where
  "fd_close k fd w =
     (case k_close k (fdw_fd fd) w of (ret, w) \<Rightarrow>
        bind_res (SystemCall ''close'' ret 0) (\<lambda>_. Inr (fd\<lparr>fdw_eof := True, fdw_closed := True\<rparr>, w)))"

text \<open>The destructor of the wrapper catches what \<open>close\<close> throws.\<close>

definition fd_destroy :: "'k kernel \<Rightarrow> file_descriptor \<Rightarrow> 'k \<Rightarrow> 'k" where
  "fd_destroy k fd w = (if fdw_closed fd then w else snd (k_close k (fdw_fd fd) w))"

text \<open>A string of \<open>size_to_read\<close> zero bytes of which the first were overwritten by the system call, cut
  or extended to \<open>bytes_read\<close>; a negative length is not possible for a string.\<close>

definition fd_read :: "'k kernel \<Rightarrow> size_t \<Rightarrow> file_descriptor \<Rightarrow> 'k \<Rightarrow> (bytes \<times> file_descriptor \<times> 'k) result" where
  "fd_read k limit fd w =
     (let size_to_read = min (1024 * 1024) limit
      in case k_read k (fdw_fd fd) size_to_read w of ((ret, data), w) \<Rightarrow>
         bind_res (SystemCall ''read'' ret 0) (\<lambda>bytes_read.
         let fd = (if limit > 0 \<and> bytes_read = 0 then fd\<lparr>fdw_eof := True\<rparr> else fd)
         in if bytes_read > sint size_to_read then Inl (Runtime_Error ''read() read more than requested'')
            else if bytes_read < 0 then Inl (Length_Error ''basic_string::resize'')
            else Inr (vec_resize (nat bytes_read) 0 (data @ replicate (unat size_to_read - length data) 0),
                      fd_register_read fd, w)))"

lemma to_int_eq: "- (2 ^ 31) \<le> x \<Longrightarrow> x < 2 ^ 31 \<Longrightarrow> to_int x = x"
  by (simp add: to_int_def sint_sbintrunc' signed_take_bit_int_eq_self)

lemma sint_size_t: "- (2 ^ 63) \<le> x \<Longrightarrow> x < 2 ^ 63 \<Longrightarrow> sint (word_of_int x :: size_t) = x"
  by (simp add: sint_sbintrunc' signed_take_bit_int_eq_self)

lemma to_int_range: "- (2 ^ 31) \<le> to_int x" "to_int x < 2 ^ 31"
  using sint_ge [of "word_of_int x :: int32"] sint_lt [of "word_of_int x :: int32"] by (simp_all add: to_int_def)

lemma unat_word_of_int: "0 \<le> x \<Longrightarrow> x < 2 ^ 64 \<Longrightarrow> unat (word_of_int x :: size_t) = nat x"
  using unat_of_nat_less [of "nat x", where 'a = 64] by (simp add: nat_less_iff)

lemma bview_remove_prefix_shorter:
  "bview_remove_prefix n vl = Inr vl' \<Longrightarrow> 0 < n \<Longrightarrow> length (concat vl') < length (concat vl)"
proof (induction n vl rule: bview_remove_prefix.induct)
  case (2 n v vl)
  show ?case
  proof (cases "n < size_of v")
    case True
    then have "v \<noteq> []" by auto
    then show ?thesis using 2 True by (auto simp: word_gt_0 unat_gt_0)
  next
    case False
    then have r: "bview_remove_prefix (n - size_of v) vl = Inr vl'" using 2 by simp
    show ?thesis
    proof (cases "n = size_of v")
      case True
      then have "v \<noteq> []" "vl' = vl" using 2(3) r by (auto elim: bview_remove_prefix.elims)
      then show ?thesis by simp
    next
      case ne: False
      then have "length (concat vl') < length (concat vl)" using 2 False r by (simp add: word_gt_0)
      then show ?thesis by simp
    qed
  qed
qed simp

lemma fd_write_decreases:
  assumes "SystemCall attempt ret errno_mask = Inr n" and "\<not> (n = 0 \<and> bview_size buffer \<noteq> 0)"
    and "bview_remove_prefix (word_of_int n) buffer = Inr buffer'" and "bview_size buffer' \<noteq> 0"
  shows "length (concat buffer') < length (concat buffer)"
proof -
  have "n \<noteq> 0"
  proof
    assume "n = 0"
    then have "buffer' = buffer" using assms(3) by (auto elim: bview_remove_prefix.elims)
    then show False using assms(2,4) \<open>n = 0\<close> by simp
  qed
  moreover have "n = to_int (fst ret)" using assms(1) by (simp add: SystemCall_def Let_def split: if_splits)
  then have "- (2 ^ 31) \<le> n" "n < 2 ^ 31" using to_int_range by simp_all
  ultimately have "(word_of_int n :: size_t) \<noteq> 0" using sint_size_t [of n] by auto
  then show ?thesis using bview_remove_prefix_shorter [OF assms(3)] by (simp add: word_gt_0)
qed

function fd_write_loop :: "'k kernel \<Rightarrow> bool \<Rightarrow> buffer_view_list \<Rightarrow> size_t \<Rightarrow> file_descriptor \<Rightarrow> 'k
    \<Rightarrow> (size_t \<times> file_descriptor \<times> 'k) result" where
  "fd_write_loop k write_all buffer total_bytes_written fd w =
     (case k_writev k (fdw_fd fd) (bview_as_iovecs buffer) w of (ret, w) \<Rightarrow>
        bind_res (SystemCall ''writev'' ret 0) (\<lambda>bytes_written.
        if bytes_written = 0 \<and> bview_size buffer \<noteq> 0
        then Inl (Runtime_Error ''write returned 0 given non-empty input buffer'')
        else if bytes_written > sint (bview_size buffer)
        then Inl (Runtime_Error ''write wrote more than length of input buffer'')
        else let fd = fd_register_write fd
             in bind_res (bview_remove_prefix (word_of_int bytes_written) buffer) (\<lambda>buffer.
                let total_bytes_written = total_bytes_written + word_of_int bytes_written
                in if write_all \<and> bview_size buffer \<noteq> 0
                   then fd_write_loop k write_all buffer total_bytes_written fd w
                   else Inr (total_bytes_written, fd, w))))"
  by pat_completeness auto
termination
  by (relation "measure (\<lambda>(k, write_all, buffer, total, fd, w). length (concat buffer))")
    (auto intro: fd_write_decreases)

declare fd_write_loop.simps [simp del]

definition fd_write :: "'k kernel \<Rightarrow> buffer_view_list \<Rightarrow> bool \<Rightarrow> file_descriptor \<Rightarrow> 'k
    \<Rightarrow> (size_t \<times> file_descriptor \<times> 'k) result" where
  "fd_write k buffer write_all fd w = fd_write_loop k write_all buffer 0 fd w"

definition O_NONBLOCK :: int32 where
  "O_NONBLOCK = 0x800"

definition fd_set_blocking :: "'k kernel \<Rightarrow> bool \<Rightarrow> file_descriptor \<Rightarrow> 'k \<Rightarrow> 'k result" where
  "fd_set_blocking k blocking_state fd w =
     (case k_getfl k (fdw_fd fd) w of (ret, w) \<Rightarrow>
        bind_res (SystemCall ''fcntl'' ret 0) (\<lambda>n.
        let flags = word_of_int n :: int32;
            flags = (if blocking_state then flags XOR (flags AND O_NONBLOCK) else flags OR O_NONBLOCK)
        in case k_setfl k (fdw_fd fd) (sint flags) w of (ret, w) \<Rightarrow>
           bind_res (SystemCall ''fcntl'' ret 0) (\<lambda>_. Inr w)))"

section \<open>What the program relies on\<close>

text \<open>
  The documented behaviour of the system calls that move bytes, in terms of the bytes that have been
  taken from and given to each descriptor so far: \<open>read\<close> returns at most as many bytes as requested,
  \<open>writev\<close> takes a prefix of its buffers (and never more than \<open>0x7ffff000\<close> bytes), a failed call returns
  -1, sets \<open>errno\<close> and moves nothing, and the other calls move nothing on streams; \<open>poll\<close> answers for
  every entry of its array.
\<close>

definition failed :: "sys_ret \<Rightarrow> bool" where
  "failed ret \<longleftrightarrow> fst ret = - 1 \<and> snd ret \<noteq> 0"

definition read_ok :: "'k kernel \<Rightarrow> ('k \<Rightarrow> int \<Rightarrow> bytes) \<Rightarrow> ('k \<Rightarrow> int \<Rightarrow> bytes) \<Rightarrow> bool" where
  "read_ok k taken given \<longleftrightarrow> (\<forall>fd n w ret data w'. k_read k fd n w = ((ret, data), w') \<longrightarrow> given w' = given w
     \<and> (failed ret \<and> taken w' = taken w \<or> fst ret = int (length data) \<and> length data \<le> unat n
        \<and> taken w' = (taken w)(fd := taken w fd @ data)))"

definition writev_ok :: "'k kernel \<Rightarrow> ('k \<Rightarrow> int \<Rightarrow> bytes) \<Rightarrow> ('k \<Rightarrow> int \<Rightarrow> bytes) \<Rightarrow> bool" where
  "writev_ok k taken given \<longleftrightarrow> (\<forall>fd iov w ret w'. k_writev k fd iov w = (ret, w') \<longrightarrow> taken w' = taken w
     \<and> (failed ret \<and> given w' = given w
        \<or> 0 \<le> fst ret \<and> fst ret \<le> int (length (concat (map fst iov))) \<and> fst ret \<le> 0x7ffff000
          \<and> given w' = (given w)(fd := given w fd @ take (nat (fst ret)) (concat (map fst iov)))))"

definition kernel_ok :: "'k kernel \<Rightarrow> ('k \<Rightarrow> int \<Rightarrow> bytes) \<Rightarrow> ('k \<Rightarrow> int \<Rightarrow> bytes) \<Rightarrow> bool" where
  "kernel_ok k taken given \<longleftrightarrow> read_ok k taken given \<and> writev_ok k taken given
     \<and> (\<forall>fd w. taken (snd (k_close k fd w)) = taken w \<and> given (snd (k_close k fd w)) = given w)
     \<and> (\<forall>fd how w. taken (snd (k_shutdown k fd how w)) = taken w \<and> given (snd (k_shutdown k fd how w)) = given w)
     \<and> (\<forall>fd w. taken (snd (k_getfl k fd w)) = taken w \<and> given (snd (k_getfl k fd w)) = given w)
     \<and> (\<forall>fd fl w. taken (snd (k_setfl k fd fl w)) = taken w \<and> given (snd (k_setfl k fd fl w)) = given w)
     \<and> (\<forall>fd n w. taken (snd (k_recvfrom k fd n w)) = taken w \<and> given (snd (k_recvfrom k fd n w)) = given w)
     \<and> (\<forall>fd a iov w. taken (snd (k_sendmsg k fd a iov w)) = taken w \<and> given (snd (k_sendmsg k fd a iov w)) = given w)
     \<and> (\<forall>w. taken (snd (k_now k w)) = taken w \<and> given (snd (k_now k w)) = given w)
     \<and> (\<forall>d t w. taken (snd (k_socket k d t w)) = taken w \<and> given (snd (k_socket k d t w)) = given w)
     \<and> (\<forall>fd a w. taken (snd (k_connect k fd a w)) = taken w \<and> given (snd (k_connect k fd a w)) = given w)
     \<and> (\<forall>fds t w. taken (snd (k_poll k fds t w)) = taken w \<and> given (snd (k_poll k fds t w)) = given w
          \<and> length (snd (fst (k_poll k fds t w))) = length fds)"

lemma fd_register_frame [simp]:
  "fdw_eof (fd_register_write fd) = fdw_eof fd"
  "fdw_fd (fd_register_read fd) = fdw_fd fd" "fdw_fd (fd_register_write fd) = fdw_fd fd"
  "fdw_write_count (fd_register_write fd) = fdw_write_count fd + 1"
  "fdw_read_count (fd_register_read fd) = fdw_read_count fd + 1"
  by (simp_all add: fd_register_read_def fd_register_write_def)

lemma kernel_okD:
  assumes "kernel_ok k taken given"
  shows "read_ok k taken given" "writev_ok k taken given"
    "k_close k fd w = (r, w') \<Longrightarrow> taken w' = taken w \<and> given w' = given w"
    "k_shutdown k fd how w = (r, w') \<Longrightarrow> taken w' = taken w \<and> given w' = given w"
    "k_poll k fds t w = (p, w') \<Longrightarrow> taken w' = taken w \<and> given w' = given w \<and> length (snd p) = length fds"
    "k_getfl k fd w = (r, w') \<Longrightarrow> taken w' = taken w \<and> given w' = given w"
    "k_setfl k fd fl w = (r, w') \<Longrightarrow> taken w' = taken w \<and> given w' = given w"
    "k_recvfrom k fd m w = (d, w') \<Longrightarrow> taken w' = taken w \<and> given w' = given w"
    "k_sendmsg k fd a iov w = (r, w') \<Longrightarrow> taken w' = taken w \<and> given w' = given w"
    "k_now k w = (now, w') \<Longrightarrow> taken w' = taken w \<and> given w' = given w"
    "k_socket k dm type w = (r, w') \<Longrightarrow> taken w' = taken w \<and> given w' = given w"
    "k_connect k fd addr w = (r, w') \<Longrightarrow> taken w' = taken w \<and> given w' = given w"
proof -
  note ok = assms [unfolded kernel_ok_def]
  show "read_ok k taken given" "writev_ok k taken given" using ok by blast+
  show "k_close k fd w = (r, w') \<Longrightarrow> taken w' = taken w \<and> given w' = given w" using ok by (metis snd_conv)
  show "k_shutdown k fd how w = (r, w') \<Longrightarrow> taken w' = taken w \<and> given w' = given w" using ok by (metis snd_conv)
  show "k_poll k fds t w = (p, w') \<Longrightarrow> taken w' = taken w \<and> given w' = given w \<and> length (snd p) = length fds"
    using ok by (metis fst_conv snd_conv)
  show "k_getfl k fd w = (r, w') \<Longrightarrow> taken w' = taken w \<and> given w' = given w" using ok by (metis snd_conv)
  show "k_setfl k fd fl w = (r, w') \<Longrightarrow> taken w' = taken w \<and> given w' = given w" using ok by (metis snd_conv)
  show "k_recvfrom k fd m w = (d, w') \<Longrightarrow> taken w' = taken w \<and> given w' = given w" using ok by (metis snd_conv)
  show "k_sendmsg k fd a iov w = (r, w') \<Longrightarrow> taken w' = taken w \<and> given w' = given w" using ok by (metis snd_conv)
  show "k_now k w = (now, w') \<Longrightarrow> taken w' = taken w \<and> given w' = given w" using ok by (metis snd_conv)
  show "k_socket k dm type w = (r, w') \<Longrightarrow> taken w' = taken w \<and> given w' = given w" using ok by (metis snd_conv)
  show "k_connect k fd addr w = (r, w') \<Longrightarrow> taken w' = taken w \<and> given w' = given w" using ok by (metis snd_conv)
qed

lemma SystemCall_error: "SystemCall attempt ret n = Inl e \<Longrightarrow> \<exists>m. e = System_Error attempt m"
  by (auto simp: SystemCall_def Let_def split: if_splits)

lemma SystemCall_failed: "failed ret \<Longrightarrow> SystemCall attempt ret 0 = Inl (System_Error attempt (snd ret))"
  by (simp add: SystemCall_def failed_def Let_def to_int_eq)

lemma SystemCall_returned:
  "0 \<le> fst ret \<Longrightarrow> fst ret < 2 ^ 31 \<Longrightarrow> SystemCall attempt ret mask_arg = Inr (fst ret)"
  by (simp add: SystemCall_def Let_def to_int_eq)

lemma fd_read_cases:
  assumes ok: "read_ok k taken given" and run: "fd_read k limit fd w = res"
  obtains (failed) e where "res = Inl (System_Error ''read'' e)"
  | (got) data w' where "res = Inr (data, (fd_register_read fd)\<lparr>fdw_eof := fdw_eof fd \<or> limit > 0 \<and> data = []\<rparr>, w')"
      "length data \<le> unat limit" "taken w' = (taken w)(fdw_fd fd := taken w (fdw_fd fd) @ data)" "given w' = given w"
proof -
  define n where "n = min 1048576 limit"
  have n: "unat n \<le> unat limit" "unat n \<le> 1048576" by (simp_all add: n_def min_def word_le_nat_alt)
  obtain ret data w' where r: "k_read k (fdw_fd fd) n w = ((ret, data), w')" by (metis surj_pair)
  from ok r have "given w' = given w" and alt: "failed ret \<and> taken w' = taken w
      \<or> fst ret = int (length data) \<and> length data \<le> unat n \<and> taken w' = (taken w)(fdw_fd fd := taken w (fdw_fd fd) @ data)"
    unfolding read_ok_def by blast+
  from alt show thesis
  proof
    assume "failed ret \<and> taken w' = taken w"
    then have "res = Inl (System_Error ''read'' (snd ret))"
      using run r by (simp add: fd_read_def n_def SystemCall_failed)
    then show thesis by (rule that(1))
  next
    assume a: "fst ret = int (length data) \<and> length data \<le> unat n \<and> taken w' = (taken w)(fdw_fd fd := taken w (fdw_fd fd) @ data)"
    then have sc: "SystemCall ''read'' ret 0 = Inr (int (length data))"
      using n(2) SystemCall_returned [of ret "''read''" 0] by simp
    have "uint n < 2 ^ 63" using of_nat_mono [OF n(2), where 'a = int] by simp
    moreover have "- (2 ^ 63) \<le> uint n" by (rule order_trans [of _ 0]) simp_all
    ultimately have "sint n = int (unat n)" using sint_size_t [of "uint n"] by simp
    then have le: "\<not> int (length data) > sint n" using a by linarith
    have fd: "fd_register_read (if limit > 0 \<and> int (length data) = 0 then fd\<lparr>fdw_eof := True\<rparr> else fd)
        = (fd_register_read fd)\<lparr>fdw_eof := fdw_eof fd \<or> limit > 0 \<and> data = []\<rparr>"
      by (cases fd) (auto simp: fd_register_read_def)
    have "vec_resize (nat (int (length data))) 0 (data @ xs) = data" for xs :: bytes by (simp add: vec_resize_def)
    then have "res = Inr (data, (fd_register_read fd)\<lparr>fdw_eof := fdw_eof fd \<or> limit > 0 \<and> data = []\<rparr>, w')"
      using run r sc le fd unfolding n_def by (simp add: fd_read_def Let_def)
    then show thesis using that(2) a n(1) \<open>given w' = given w\<close> by simp
  qed
qed

lemma fd_read_error: "read_ok k taken given \<Longrightarrow> fd_read k limit fd w = Inl e \<Longrightarrow> \<exists>n. e = System_Error ''read'' n"
  by (rule fd_read_cases [of k taken given limit fd w]) auto

lemma writev_returned:
  assumes "writev_ok k taken given" and "k_writev k fd (bview_as_iovecs buffer) w = (ret, w')" and "\<not> failed ret"
  shows "0 \<le> fst ret" "fst ret \<le> int (length (concat buffer))" "taken w' = taken w"
    "given w' = (given w)(fd := given w fd @ take (nat (fst ret)) (concat buffer))"
    "SystemCall attempt ret 0 = Inr (fst ret)" "unat (word_of_int (fst ret) :: size_t) = nat (fst ret)"
proof -
  have iov: "concat (map fst (bview_as_iovecs buffer)) = concat buffer"
    by (simp add: bview_as_iovecs_def comp_def)
  have "taken w' = taken w \<and> 0 \<le> fst ret \<and> fst ret \<le> int (length (concat buffer)) \<and> fst ret \<le> 0x7ffff000
      \<and> given w' = (given w)(fd := given w fd @ take (nat (fst ret)) (concat buffer))"
    using assms(1) [unfolded writev_ok_def, rule_format, OF assms(2), unfolded iov] assms(3) by blast
  then show "0 \<le> fst ret" "fst ret \<le> int (length (concat buffer))" "taken w' = taken w"
    "given w' = (given w)(fd := given w fd @ take (nat (fst ret)) (concat buffer))"
    "SystemCall attempt ret 0 = Inr (fst ret)" "unat (word_of_int (fst ret) :: size_t) = nat (fst ret)"
    by (simp_all add: SystemCall_returned unat_word_of_int)
qed

text \<open>One write: the only exceptions are a failed call and a call that takes nothing.\<close>

definition write_error :: "cpp_error \<Rightarrow> bool" where
  "write_error e \<longleftrightarrow> (\<exists>n. e = System_Error ''writev'' n)
     \<or> e = Runtime_Error ''write returned 0 given non-empty input buffer''"

lemma fd_write_cases:
  assumes ok: "writev_ok k taken given" and run: "fd_write_loop k False buffer sofar fd w = res"
    and len: "length (concat buffer) < 2 ^ 63"
  obtains (failed) e where "res = Inl e" "write_error e"
  | (put) n w' where "res = Inr (sofar + n, fd_register_write fd, w')" "unat n \<le> length (concat buffer)"
      "given w' = (given w)(fdw_fd fd := given w (fdw_fd fd) @ take (unat n) (concat buffer))" "taken w' = taken w"
proof -
  obtain ret w' where r: "k_writev k (fdw_fd fd) (bview_as_iovecs buffer) w = (ret, w')" by (metis surj_pair)
  show thesis
  proof (cases "failed ret")
    case True
    then have "res = Inl (System_Error ''writev'' (snd ret))"
      using run r by (simp add: fd_write_loop.simps SystemCall_failed)
    then show thesis by (rule that(1)) (simp add: write_error_def)
  next
    case False
    note a = writev_returned [OF ok r False]
    let ?n = "word_of_int (fst ret) :: size_t"
    have inv: "bview_inv buffer"
      using len by (auto simp: bview_inv_def list_all_iff dest!: split_list)
    have "nat (fst ret) \<le> length (concat buffer)" using a(2) by (simp add: nat_le_iff)
    then obtain rest where rest: "bview_remove_prefix ?n buffer = Inr rest"
      using bview.discard_ok [OF inv, of ?n] a(6) by auto
    have "sint (bview_size buffer) = int (length (concat buffer))"
      using sint_size_t [of "int (length (concat buffer))"] len by (simp add: bview_size_eq)
    then have "\<not> fst ret > sint (bview_size buffer)" using a(2) by simp
    then have step: "res = (if fst ret = 0 \<and> bview_size buffer \<noteq> 0
        then Inl (Runtime_Error ''write returned 0 given non-empty input buffer'')
        else Inr (sofar + ?n, fd_register_write fd, w'))"
      unfolding run [symmetric] using r a(5) rest by (subst fd_write_loop.simps) simp
    show thesis
    proof (cases "fst ret = 0 \<and> bview_size buffer \<noteq> 0")
      case True
      then have "res = Inl (Runtime_Error ''write returned 0 given non-empty input buffer'')" using step by simp
      then show thesis by (rule that(1)) (simp add: write_error_def)
    next
      case False
      then have "res = Inr (sofar + ?n, fd_register_write fd, w')" unfolding step by (simp only: if_False)
      then show thesis
        by (rule that(2)) (use a \<open>nat (fst ret) \<le> length (concat buffer)\<close> in simp_all)
    qed
  qed
qed

text \<open>With \<open>write_all\<close> nothing is left over.\<close>

lemma fd_write_all_cases:
  assumes "writev_ok k taken given" and "fd_write_loop k True buffer sofar fd w = Inr (n, fd', w')"
    and "length (concat buffer) < 2 ^ 63"
  shows "n = sofar + size_of (concat buffer) \<and> taken w' = taken w
    \<and> given w' = (given w)(fdw_fd fd := given w (fdw_fd fd) @ concat buffer)"
  using assms
proof (induction k "True" buffer sofar fd w rule: fd_write_loop.induct)
  case (1 k buffer sofar fd w)
  obtain ret w1 where r: "k_writev k (fdw_fd fd) (bview_as_iovecs buffer) w = (ret, w1)" by (metis surj_pair)
  have "\<not> failed ret" using "1.prems"(2) r by (auto simp: fd_write_loop.simps SystemCall_failed)
  note a = writev_returned [OF "1.prems"(1) r this]
  let ?n = "word_of_int (fst ret) :: size_t"
  have inv: "bview_inv buffer"
    using "1.prems"(3) by (auto simp: bview_inv_def list_all_iff dest!: split_list)
  have "nat (fst ret) \<le> length (concat buffer)" using a(2) by (simp add: nat_le_iff)
  then obtain rest where rest: "bview_remove_prefix ?n buffer = Inr rest" "concat rest = drop (nat (fst ret)) (concat buffer)"
    using bview.discard_ok [OF inv, of ?n] a(6) by auto
  have len: "size_of (concat buffer) = ?n + size_of (concat rest)"
    using a(1,2,6) rest(2) by (intro unat_eqD) (simp add: unat_word_ariths unat_of_nat take_bit_eq_mod mod_simps)
  have step: "fd_write_loop k True buffer sofar fd w = (if fst ret = 0 \<and> bview_size buffer \<noteq> 0
      then Inl (Runtime_Error ''write returned 0 given non-empty input buffer'')
      else if fst ret > sint (bview_size buffer)
      then Inl (Runtime_Error ''write wrote more than length of input buffer'')
      else if bview_size rest \<noteq> 0 then fd_write_loop k True rest (sofar + ?n) (fd_register_write fd) w1
      else Inr (sofar + ?n, fd_register_write fd, w1))"
    using r a(5) rest(1) by (simp add: fd_write_loop.simps [of k True buffer])
  have num: "fdw_fd (fd_register_write fd) = fdw_fd fd" by (simp add: fd_register_write_def)
  show ?case
  proof (cases "bview_size rest = 0")
    case True
    then have "concat rest = []" using "1.prems"(3) rest(2)
      by (simp add: bview_size_eq unat_0_iff [symmetric] unat_of_nat_less del: unat_0_iff)
    then have "nat (fst ret) = length (concat buffer)" using rest(2) a(1,2) by simp
    then show ?thesis using "1.prems"(2) step True a len \<open>concat rest = []\<close> by (auto split: if_splits)
  next
    case False
    have "n = sofar + ?n + size_of (concat rest) \<and> taken w' = taken w1
        \<and> given w' = (given w1)(fdw_fd fd := given w1 (fdw_fd fd) @ concat rest)"
      using "1.hyps" [OF r [symmetric] a(5) _ _ refl rest(1) refl] "1.prems" step False rest(2) num
      by (auto split: if_splits)
    then show ?thesis using a(3,4) rest(2) len by (auto simp: add.assoc)
  qed
qed

text \<open>Whatever else happens, reading and writing leave the other descriptors alone.\<close>

lemma fd_read_frame:
  assumes "read_ok k taken given" and "fd_read k limit fd w = Inr (data, fd', w')"
  shows "fdw_fd fd' = fdw_fd fd \<and> given w' = given w \<and> (x \<noteq> fdw_fd fd \<longrightarrow> taken w' x = taken w x)"
  by (rule fd_read_cases [OF assms]) (auto simp: fd_register_read_def)

lemma fd_write_frame:
  assumes "writev_ok k taken given" and "fd_write_loop k all buffer sofar fd w = Inr (n, fd', w')"
  shows "fdw_fd fd' = fdw_fd fd \<and> taken w' = taken w \<and> (x \<noteq> fdw_fd fd \<longrightarrow> given w' x = given w x)
    \<and> fdw_eof fd' = fdw_eof fd"
  using assms
proof (induction k all buffer sofar fd w rule: fd_write_loop.induct)
  case (1 k all buffer sofar fd w)
  obtain ret w1 where r: "k_writev k (fdw_fd fd) (bview_as_iovecs buffer) w = (ret, w1)" by (metis surj_pair)
  have one: "taken w1 = taken w \<and> (x \<noteq> fdw_fd fd \<longrightarrow> given w1 x = given w x)"
    using "1.prems"(1) [unfolded writev_ok_def, rule_format, OF r] by auto
  obtain m rest where m: "SystemCall ''writev'' ret 0 = Inr m" "\<not> (m = 0 \<and> bview_size buffer \<noteq> 0)"
      "\<not> m > sint (bview_size buffer)" "bview_remove_prefix (word_of_int m) buffer = Inr rest"
    using "1.prems"(2) r by (auto simp: fd_write_loop.simps [of k all buffer] bind_res_eq_Inr Let_def split: if_splits)
  show ?case
  proof (cases "all \<and> bview_size rest \<noteq> 0")
    case True
    then have "fd_write_loop k all rest (sofar + word_of_int m) (fd_register_write fd) w1 = Inr (n, fd', w')"
      using "1.prems"(2) r m by (auto simp: fd_write_loop.simps [of k True buffer])
    then show ?thesis using "1.IH" [OF r [symmetric] m(1-3) refl m(4) refl True "1.prems"(1)] one by simp
  next
    case False
    then show ?thesis using "1.prems"(2) r m one by (auto simp: fd_write_loop.simps [of k all buffer])
  qed
qed

end
