(* ===== verification/Event_Loop.thy ===== *)
theory Event_Loop
  imports File_Descriptor
begin

text \<open>
  The event loop (\<open>libsponge/util/eventloop.hh\<close>, \<open>eventloop.cc\<close>): a list of rules, each with a
  descriptor, a direction, a callback, a test of interest and a callback for its cancellation, and the
  operation that polls the descriptors once and serves those that are ready. The state \<open>'s\<close> is whatever
  the callbacks share, the descriptors included; \<open>poll\<close> is the system call on that state.
\<close>

section \<open>State and operations\<close>

definition POLLIN :: "16 word" where "POLLIN = 1"
definition POLLOUT :: "16 word" where "POLLOUT = 4"
definition POLLERR :: "16 word" where "POLLERR = 8"
definition POLLHUP :: "16 word" where "POLLHUP = 16"
definition POLLNVAL :: "16 word" where "POLLNVAL = 32"
definition EINTR :: int where "EINTR = 4"

datatype Direction = In | Out

fun direction_events :: "Direction \<Rightarrow> 16 word" where
  "direction_events In = POLLIN"
| "direction_events Out = POLLOUT"

datatype Result = Success | Timeout | Exit

record 's rule =
  rl_fd :: "'s \<Rightarrow> file_descriptor"
  rl_direction :: Direction
  rl_callback :: "'s \<Rightarrow> 's result"
  rl_interest :: "'s \<Rightarrow> bool"
  rl_cancel :: "'s \<Rightarrow> 's result"

type_synonym 's poll = "pollfd list \<Rightarrow> int \<Rightarrow> 's \<Rightarrow> (sys_ret \<times> 16 word list) \<times> 's"

definition el_add_rule :: "'s rule list \<Rightarrow> ('s \<Rightarrow> file_descriptor) \<Rightarrow> Direction \<Rightarrow> ('s \<Rightarrow> 's result)
    \<Rightarrow> ('s \<Rightarrow> bool) \<Rightarrow> ('s \<Rightarrow> 's result) \<Rightarrow> 's rule list" where
  "el_add_rule rules fd direction callback interest cancel = rules @ [\<lparr>rl_fd = fd, rl_direction = direction,
     rl_callback = callback, rl_interest = interest, rl_cancel = cancel\<rparr>]"

definition rl_service_count :: "'s rule \<Rightarrow> 's \<Rightarrow> uint32" where
  "rl_service_count r s = (if rl_direction r = In then fdw_read_count (rl_fd r s) else fdw_write_count (rl_fd r s))"

text \<open>The first loop of \<open>wait_next_event\<close>: rules at their end are cancelled, the others give an entry each.
  The result has the rules that stay, their entries, and whether one of them is interested.\<close>

fun el_setup :: "'s rule list \<Rightarrow> 's \<Rightarrow> ('s rule list \<times> pollfd list \<times> bool \<times> 's) result" where
  "el_setup [] s = Inr ([], [], False, s)"
| "el_setup (r # rules) s =
     (if rl_direction r = In \<and> fdw_eof (rl_fd r s) then bind_res (rl_cancel r s) (el_setup rules)
      else if fdw_closed (rl_fd r s) then bind_res (rl_cancel r s) (el_setup rules)
      else let interested = rl_interest r s;
               p = \<lparr>pf_fd = fdw_fd (rl_fd r s),
                    pf_events = (if interested then direction_events (rl_direction r) else 0), pf_revents = 0\<rparr>
           in bind_res (el_setup rules s) (\<lambda>(rules, pollfds, something_to_poll, s).
              Inr (r # rules, p # pollfds, interested \<or> something_to_poll, s)))"

text \<open>Serving a ready rule, with the check for a busy wait.\<close>

definition el_serve :: "'s rule \<Rightarrow> 's \<Rightarrow> 's result" where
  "el_serve r s =
     (let count_before = rl_service_count r s
      in bind_res (rl_callback r s) (\<lambda>s.
         if count_before = rl_service_count r s \<and> rl_interest r s
         then Inl (Runtime_Error ''EventLoop: busy wait detected: callback did not read/write fd and is still interested'')
         else Inr s))"

text \<open>The second loop, over the rules and the entries whose events \<open>poll\<close> has filled in. There are as
  many entries as rules.\<close>

fun el_results :: "'s rule list \<Rightarrow> pollfd list \<Rightarrow> 's \<Rightarrow> ('s rule list \<times> 's) result" where
  "el_results [] pollfds s = Inr ([], s)"
| "el_results (r # rules) [] s = Inl (Undefined_Behaviour ''EventLoop::wait_next_event'')"
| "el_results (r # rules) (p # pollfds) s =
     (if pf_revents p AND (POLLERR OR POLLNVAL) \<noteq> 0
      then Inl (Runtime_Error ''EventLoop: error on polled file descriptor'')
      else let poll_ready = pf_revents p AND pf_events p \<noteq> 0; poll_hup = pf_revents p AND POLLHUP \<noteq> 0
           in if poll_hup \<and> pf_events p \<noteq> 0 \<and> \<not> poll_ready
              then bind_res (rl_cancel r s) (el_results rules pollfds)
              else bind_res (if poll_ready then el_serve r s else Inr s) (\<lambda>s.
                   bind_res (el_results rules pollfds s) (\<lambda>(rules, s). Inr (r # rules, s))))"

definition wait_next_event :: "'s poll \<Rightarrow> int \<Rightarrow> 's rule list \<Rightarrow> 's \<Rightarrow> ('s rule list \<times> 's \<times> Result) result" where
  "wait_next_event poll timeout_ms rules s =
     bind_res (el_setup rules s) (\<lambda>(rules, pollfds, something_to_poll, s).
     if \<not> something_to_poll then Inr (rules, s, Exit)
     else case poll pollfds timeout_ms s of ((ret, revents), s) \<Rightarrow>
       let pollfds = map (\<lambda>(p, r). p\<lparr>pf_revents := r\<rparr>) (zip pollfds revents)
       in case SystemCall ''poll'' ret 0 of
         Inr n \<Rightarrow> if n = 0 then Inr (rules, s, Timeout)
                  else bind_res (el_results rules pollfds s) (\<lambda>(rules, s). Inr (rules, s, Success))
       | Inl e \<Rightarrow> if e = System_Error ''poll'' EINTR then Inr (rules, s, Exit)
                  else bind_res (el_results rules pollfds s) (\<lambda>(rules, s). Inr (rules, s, Success)))"

section \<open>Rules and state\<close>

lemma el_setup_rules:
  "el_setup rules s = Inr (rules', pollfds, b, s') \<Longrightarrow> set rules' \<subseteq> set rules \<and> length pollfds = length rules'"
proof (induction rules arbitrary: s rules' pollfds b)
  case (Cons r rules)
  then show ?case by (fastforce simp: Let_def bind_res_eq_Inr split: if_splits)
qed simp

definition POLL_ERROR :: cpp_error where
  "POLL_ERROR = Runtime_Error ''EventLoop: error on polled file descriptor''"

lemma el_results_Cons_cases:
  fixes r :: "'s rule"
  defines "tail \<equiv> \<lambda>(rules, s). Inr (r # rules, s)"
  obtains (error) "el_results (r # rs) (p # ps) s = Inl POLL_ERROR"
  | (cancel) "el_results (r # rs) (p # ps) s = bind_res (rl_cancel r s) (el_results rs ps)"
  | (serve) "el_results (r # rs) (p # ps) s = bind_res (el_serve r s) (\<lambda>s. bind_res (el_results rs ps s) tail)"
      "pf_events p \<noteq> 0"
  | (skip) "el_results (r # rs) (p # ps) s = bind_res (el_results rs ps s) tail"
  by (cases "pf_revents p AND (POLLERR OR POLLNVAL) \<noteq> 0"; cases "pf_revents p AND POLLHUP \<noteq> 0 \<and> pf_events p \<noteq> 0";
      cases "pf_revents p AND pf_events p = 0"; simp only: el_results.simps tail_def Let_def POLL_ERROR_def)
    (cases "pf_events p = 0"; simp)+

declare el_results.simps(3) [simp del]

lemma el_results_rules: "el_results rules pollfds s = Inr (rules', s') \<Longrightarrow> set rules' \<subseteq> set rules"
proof (induction rules arbitrary: pollfds s rules')
  case (Cons r rs)
  obtain p ps where ps: "pollfds = p # ps" using Cons.prems by (cases pollfds) simp_all
  show ?case
    by (rule el_results_Cons_cases [of r rs p ps s])
      (use Cons in \<open>fastforce simp: ps elim!: bind_resE\<close>)+
qed simp

lemma el_setup_distinct: "el_setup rules s = Inr (rules', pollfds, b, s') \<Longrightarrow> distinct rules \<Longrightarrow> distinct rules'"
proof (induction rules arbitrary: s rules' pollfds b)
  case (Cons r rules)
  then show ?case by (fastforce simp: Let_def bind_res_eq_Inr split: if_splits dest: el_setup_rules)
qed simp

lemma el_results_distinct: "el_results rules pollfds s = Inr (rules', s') \<Longrightarrow> distinct rules \<Longrightarrow> distinct rules'"
proof (induction rules arbitrary: pollfds s rules')
  case (Cons r rs)
  obtain p ps where ps: "pollfds = p # ps" using Cons.prems by (cases pollfds) simp_all
  show ?case
    by (rule el_results_Cons_cases [of r rs p ps s])
      (use Cons in \<open>fastforce simp: ps elim!: bind_resE dest: el_results_rules\<close>)+
qed simp

lemma wait_distinct:
  "wait_next_event poll n rules s = Inr (rules', s', res) \<Longrightarrow> distinct rules \<Longrightarrow> distinct rules'"
  by (fastforce simp: wait_next_event_def bind_res_eq_Inr Let_def split: if_splits sum.splits prod.splits
      dest: el_setup_distinct el_results_distinct)

section \<open>The contract of a set of rules\<close>

text \<open>
  What makes a set of rules safe to run: the callbacks keep an invariant, and every callback that
  returns has read or written its descriptor or has lost its interest.
\<close>

locale event_rules =
  fixes rules :: "'s rule list" and poll :: "'s poll" and inv :: "'s \<Rightarrow> bool"
  assumes callback_inv: "r \<in> set rules \<Longrightarrow> inv s \<Longrightarrow> rl_callback r s = Inr t \<Longrightarrow> inv t"
    and cancel_inv: "r \<in> set rules \<Longrightarrow> inv s \<Longrightarrow> rl_cancel r s = Inr t \<Longrightarrow> inv t"
    and poll_inv: "inv s \<Longrightarrow> inv (snd (poll fds n s)) \<and> length (snd (fst (poll fds n s))) = length fds"
    and served: "r \<in> set rules \<Longrightarrow> inv s \<Longrightarrow> rl_callback r s = Inr t \<Longrightarrow>
      rl_service_count r t \<noteq> rl_service_count r s \<or> \<not> rl_interest r t"
begin

text \<open>An exception of the program's own callbacks.\<close>

definition thrown :: "cpp_error \<Rightarrow> bool" where
  "thrown e \<longleftrightarrow> (\<exists>r \<in> set rules. \<exists>s. inv s \<and> (rl_callback r s = Inl e \<or> rl_cancel r s = Inl e))"

lemma setup_inv:
  "el_setup rs s = Inr (rs', pollfds, b, s') \<Longrightarrow> set rs \<subseteq> set rules \<Longrightarrow> inv s \<Longrightarrow> inv s'"
proof (induction rs arbitrary: s rs' pollfds b)
  case (Cons r rs)
  then show ?case by (fastforce simp: Let_def bind_res_eq_Inr split: if_splits dest: cancel_inv)
qed simp

lemma setup_cancel_throws:
  "el_setup rs s = Inl e \<Longrightarrow> set rs \<subseteq> set rules \<Longrightarrow> inv s \<Longrightarrow> \<exists>r \<in> set rules. \<exists>s. inv s \<and> rl_cancel r s = Inl e"
proof (induction rs arbitrary: s)
  case (Cons r rs)
  then have r: "r \<in> set rules" and rs: "set rs \<subseteq> set rules" by simp_all
  show ?case
    using Cons.prems(1,3) r rs Cons.IH [OF _ rs]
    by (auto simp: Let_def bind_res_eq_Inl split: if_splits dest: cancel_inv)
qed simp

lemma setup_throws: "el_setup rs s = Inl e \<Longrightarrow> set rs \<subseteq> set rules \<Longrightarrow> inv s \<Longrightarrow> thrown e"
  using setup_cancel_throws [of rs s e] by (auto simp: thrown_def)

lemma serve_inv: "r \<in> set rules \<Longrightarrow> inv s \<Longrightarrow> el_serve r s = Inr t \<Longrightarrow> inv t"
  by (auto simp: el_serve_def bind_res_eq_Inr split: if_splits intro: callback_inv)

lemma serve_throws: "r \<in> set rules \<Longrightarrow> inv s \<Longrightarrow> el_serve r s = Inl e \<Longrightarrow> thrown e"
  using served [of r s] by (fastforce simp: el_serve_def bind_res_eq_Inl thrown_def split: if_splits)

lemma results_inv:
  "el_results rs pollfds s = Inr (rs', s') \<Longrightarrow> set rs \<subseteq> set rules \<Longrightarrow> inv s \<Longrightarrow> inv s'"
proof (induction rs arbitrary: pollfds s rs')
  case (Cons r rs)
  obtain p ps where ps: "pollfds = p # ps" using Cons.prems by (cases pollfds) simp_all
  have r: "r \<in> set rules" and rs: "set rs \<subseteq> set rules" using Cons.prems(2) by simp_all
  have "\<exists>t rs''. inv t \<and> el_results rs ps t = Inr (rs'', s')"
  proof (rule el_results_Cons_cases [of r rs p ps s])
    assume "el_results (r # rs) (p # ps) s = Inl POLL_ERROR"
    then show ?thesis using Cons.prems(1) ps by simp
  next
    assume "el_results (r # rs) (p # ps) s = bind_res (rl_cancel r s) (el_results rs ps)"
    then show ?thesis using Cons.prems(1,3) ps cancel_inv [OF r] by (auto simp: bind_res_eq_Inr)
  next
    assume "el_results (r # rs) (p # ps) s =
      bind_res (el_serve r s) (\<lambda>s. bind_res (el_results rs ps s) (\<lambda>(rules, s). Inr (r # rules, s)))"
    then show ?thesis using Cons.prems(1,3) ps serve_inv [OF r] by (auto simp: bind_res_eq_Inr)
  next
    assume "el_results (r # rs) (p # ps) s = bind_res (el_results rs ps s) (\<lambda>(rules, s). Inr (r # rules, s))"
    then show ?thesis using Cons.prems(1,3) ps by (auto simp: bind_res_eq_Inr)
  qed
  then show ?case using Cons.IH rs by blast
qed simp

lemma results_throws:
  "el_results rs pollfds s = Inl e \<Longrightarrow> set rs \<subseteq> set rules \<Longrightarrow> inv s \<Longrightarrow> length pollfds = length rs \<Longrightarrow>
    thrown e \<or> e = POLL_ERROR"
proof (induction rs arbitrary: pollfds s)
  case (Cons r rs)
  obtain p ps where ps: "pollfds = p # ps" using Cons.prems by (cases pollfds) simp_all
  have r: "r \<in> set rules" and rs: "set rs \<subseteq> set rules" using Cons.prems(2) by simp_all
  have "thrown e \<or> e = POLL_ERROR \<or> (\<exists>t. inv t \<and> el_results rs ps t = Inl e)"
  proof (rule el_results_Cons_cases [of r rs p ps s])
    assume "el_results (r # rs) (p # ps) s = Inl POLL_ERROR"
    then show ?thesis using Cons.prems(1) ps by simp
  next
    assume "el_results (r # rs) (p # ps) s = bind_res (rl_cancel r s) (el_results rs ps)"
    then show ?thesis using Cons.prems(1,3) ps cancel_inv [OF r] r by (auto simp: bind_res_eq_Inl thrown_def)
  next
    assume "el_results (r # rs) (p # ps) s =
      bind_res (el_serve r s) (\<lambda>s. bind_res (el_results rs ps s) (\<lambda>(rules, s). Inr (r # rules, s)))"
    then show ?thesis using Cons.prems(1,3) ps serve_inv [OF r] serve_throws [OF r] by (auto simp: bind_res_eq_Inl)
  next
    assume "el_results (r # rs) (p # ps) s = bind_res (el_results rs ps s) (\<lambda>(rules, s). Inr (r # rules, s))"
    then show ?thesis using Cons.prems(1,3) ps by (auto simp: bind_res_eq_Inl)
  qed
  then show ?case using Cons.IH [of ps] Cons.prems(4) rs by (auto simp: ps)
qed simp

text \<open>One call of \<open>wait_next_event\<close>: it keeps the invariant and the rules; the only exceptions are those of
  the callbacks and of an error on a descriptor.\<close>

lemma wait_inv:
  assumes "wait_next_event poll n rs s = Inr (rs', s', res)" and "set rs \<subseteq> set rules" and "inv s"
  shows "set rs' \<subseteq> set rules \<and> inv s'"
proof -
  obtain rs1 fds b s1 where s1: "el_setup rs s = Inr (rs1, fds, b, s1)"
    using assms(1) by (auto simp: wait_next_event_def bind_res_eq_Inr)
  have i: "inv s1" "set rs1 \<subseteq> set rules"
    using setup_inv [OF s1 assms(2,3)] el_setup_rules [OF s1] assms(2) by auto
  obtain ret revents s2 where p: "poll fds n s1 = ((ret, revents), s2)" by (metis surj_pair)
  have "inv s2" using poll_inv [OF i(1), of fds n] p by simp
  then show ?thesis
    using assms(1) s1 p i results_inv [of rs1 _ s2] el_results_rules [of rs1 _ s2]
    by (fastforce simp: wait_next_event_def bind_res_eq_Inr Let_def split: if_splits sum.splits)
qed

lemma wait_throws:
  assumes "wait_next_event poll n rs s = Inl e" and "set rs \<subseteq> set rules" and "inv s"
  shows "thrown e \<or> e = POLL_ERROR"
proof (cases "el_setup rs s")
  case (Inl e')
  then show ?thesis using assms setup_throws by (simp add: wait_next_event_def)
next
  case (Inr x)
  then obtain rs1 fds b s1 where s1: "el_setup rs s = Inr (rs1, fds, b, s1)" by (cases x) auto
  have i: "inv s1" "set rs1 \<subseteq> set rules" "length fds = length rs1"
    using setup_inv [OF s1 assms(2,3)] el_setup_rules [OF s1] assms(2) by auto
  obtain ret revents s2 where p: "poll fds n s1 = ((ret, revents), s2)" by (metis surj_pair)
  have "inv s2" "length revents = length fds" using poll_inv [OF i(1), of fds n] p by simp_all
  moreover have "el_results rs1 (map (\<lambda>(p, r). p\<lparr>pf_revents := r\<rparr>) (zip fds revents)) s2 = Inl e"
    using assms(1) s1 p by (auto simp: wait_next_event_def bind_res_eq_Inl Let_def split: if_splits sum.splits)
  ultimately show ?thesis using i results_throws by simp
qed

end

text \<open>
  The callback of a rule only runs when the rule was interested before \<open>poll\<close>; other rules may have run
  in between. A set of rules that do not get in each other's way has, for every rule, a condition that
  its interest implies and that the other rules keep.
\<close>

locale guarded_rules = event_rules +
  fixes ready :: "'a rule \<Rightarrow> 'a \<Rightarrow> bool"
  assumes interest_ready: "r \<in> set rules \<Longrightarrow> inv s \<Longrightarrow> rl_interest r s \<Longrightarrow> ready r s"
    and ready_callback: "r \<in> set rules \<Longrightarrow> r' \<in> set rules \<Longrightarrow> r \<noteq> r' \<Longrightarrow> inv s \<Longrightarrow> ready r s \<Longrightarrow>
      rl_callback r' s = Inr t \<Longrightarrow> ready r t"
    and ready_cancel: "r \<in> set rules \<Longrightarrow> r' \<in> set rules \<Longrightarrow> r \<noteq> r' \<Longrightarrow> inv s \<Longrightarrow> ready r s \<Longrightarrow>
      rl_cancel r' s = Inr t \<Longrightarrow> ready r t"
    and ready_poll: "r \<in> set rules \<Longrightarrow> inv s \<Longrightarrow> ready r s \<Longrightarrow> ready r (snd (poll fds n s))"
begin

definition guarded :: "cpp_error \<Rightarrow> bool" where
  "guarded e \<longleftrightarrow> (\<exists>r \<in> set rules. \<exists>s. inv s \<and> (ready r s \<and> rl_callback r s = Inl e \<or> rl_cancel r s = Inl e))"

definition all_ready :: "'a rule list \<Rightarrow> pollfd list \<Rightarrow> 'a \<Rightarrow> bool" where
  "all_ready rs fds s \<longleftrightarrow> list_all2 (\<lambda>r p. pf_events p \<noteq> 0 \<longrightarrow> ready r s) rs fds"

lemma setup_keeps:
  "el_setup rs s = Inr (rs', fds, b, s') \<Longrightarrow> set rs \<subseteq> set rules \<Longrightarrow> inv s \<Longrightarrow> r \<in> set rules - set rs \<Longrightarrow>
    ready r s \<Longrightarrow> ready r s'"
proof (induction rs arbitrary: s rs' fds b)
  case (Cons q rs)
  have q: "q \<in> set rules" "set rs \<subseteq> set rules" "r \<in> set rules" "r \<noteq> q" "r \<notin> set rs" using Cons.prems by auto
  show ?case
  proof (cases "rl_cancel q s")
    case (Inr t)
    then have "inv t" "ready r t"
      using cancel_inv [OF q(1) Cons.prems(3)] ready_cancel [OF q(3,1,4) Cons.prems(3,5)] by simp_all
    then show ?thesis
      using Cons.prems Cons.IH [of t] Cons.IH [of s] Inr q by (auto simp: Let_def bind_res_eq_Inr split: if_splits)
  qed (use Cons q in \<open>auto simp: Let_def bind_res_eq_Inr split: if_splits\<close>)
qed simp

lemma setup_ready:
  "el_setup rs s = Inr (rs', fds, b, s') \<Longrightarrow> set rs \<subseteq> set rules \<Longrightarrow> distinct rs \<Longrightarrow> inv s \<Longrightarrow> all_ready rs' fds s'"
proof (induction rs arbitrary: s rs' fds b)
  case (Cons r rs)
  have r: "r \<in> set rules" "set rs \<subseteq> set rules" "r \<in> set rules - set rs" "distinct rs" using Cons.prems by auto
  show ?case
  proof (cases "rl_direction r = In \<and> fdw_eof (rl_fd r s) \<or> fdw_closed (rl_fd r s)")
    case True
    then obtain t where "rl_cancel r s = Inr t" "el_setup rs t = Inr (rs', fds, b, s')"
      using Cons.prems(1) by (auto simp: bind_res_eq_Inr split: if_splits)
    then show ?thesis using Cons.IH r cancel_inv [OF r(1) Cons.prems(4)] by blast
  next
    case False
    then obtain rs1 fds1 b1 p where tail: "el_setup rs s = Inr (rs1, fds1, b1, s')" "rs' = r # rs1" "fds = p # fds1"
        "pf_events p \<noteq> 0 \<longrightarrow> rl_interest r s"
      using Cons.prems(1) by (auto simp: bind_res_eq_Inr Let_def split: if_splits)
    have "ready r s'" if "pf_events p \<noteq> 0"
      using setup_keeps [OF tail(1) r(2) Cons.prems(4) r(3)] interest_ready [OF r(1) Cons.prems(4)] tail(4) that by simp
    then show ?thesis using Cons.IH [OF tail(1) r(2,4) Cons.prems(4)] tail by (simp add: all_ready_def)
  qed
qed (simp add: all_ready_def)

lemma all_ready_mono:
  "all_ready rs fds s \<Longrightarrow> (\<And>r. r \<in> set rs \<Longrightarrow> ready r s \<Longrightarrow> ready r t) \<Longrightarrow> all_ready rs fds t"
  unfolding all_ready_def by (erule list.rel_mono_strong) auto

lemma all_ready_other:
  assumes "all_ready rs fds s" and "set (r # rs) \<subseteq> set rules" and "distinct (r # rs)" and "inv s"
    and "rl_callback r s = Inr t \<or> rl_cancel r s = Inr t"
  shows "all_ready rs fds t \<and> inv t"
  using all_ready_mono [OF assms(1), of t] assms(2-5) callback_inv [of r s t] cancel_inv [of r s t]
    ready_callback [of _ r s t] ready_cancel [of _ r s t]
  by (metis distinct.simps(2) insert_subset list.simps(15) subset_iff)

lemma serve_ok: "el_serve r s = Inr t \<Longrightarrow> rl_callback r s = Inr t"
  by (auto simp: el_serve_def bind_res_eq_Inr split: if_splits)

lemma serve_guarded:
  "r \<in> set rules \<Longrightarrow> inv s \<Longrightarrow> ready r s \<Longrightarrow> el_serve r s = Inl e \<Longrightarrow> guarded e"
  using served [of r s] by (fastforce simp: el_serve_def bind_res_eq_Inl guarded_def split: if_splits)

lemma results_guarded:
  "el_results rs fds s = Inl e \<Longrightarrow> set rs \<subseteq> set rules \<Longrightarrow> distinct rs \<Longrightarrow> inv s \<Longrightarrow> all_ready rs fds s \<Longrightarrow>
    guarded e \<or> e = POLL_ERROR"
proof (induction rs arbitrary: fds s)
  case (Cons r rs)
  obtain p ps where ps: "fds = p # ps" using Cons.prems(5) by (cases fds) (simp_all add: all_ready_def)
  have r: "r \<in> set rules" "set rs \<subseteq> set rules" "distinct rs" using Cons.prems by simp_all
  have ready: "pf_events p \<noteq> 0 \<Longrightarrow> ready r s" "all_ready rs ps s" using Cons.prems(5) by (simp_all add: ps all_ready_def)
  note other = all_ready_other [OF ready(2) Cons.prems(2-4)]
  have "guarded e \<or> e = POLL_ERROR \<or> (\<exists>t. inv t \<and> all_ready rs ps t \<and> el_results rs ps t = Inl e)"
  proof (rule el_results_Cons_cases [of r rs p ps s])
    assume "el_results (r # rs) (p # ps) s = Inl POLL_ERROR"
    then show ?thesis using Cons.prems(1) ps by simp
  next
    assume "el_results (r # rs) (p # ps) s = bind_res (rl_cancel r s) (el_results rs ps)"
    then show ?thesis using Cons.prems(1,4) ps other r(1) by (auto simp: bind_res_eq_Inl guarded_def)
  next
    assume "el_results (r # rs) (p # ps) s =
      bind_res (el_serve r s) (\<lambda>s. bind_res (el_results rs ps s) (\<lambda>(rules, s). Inr (r # rules, s)))" "pf_events p \<noteq> 0"
    then have "el_serve r s = Inl e \<or> (\<exists>t. el_serve r s = Inr t \<and> el_results rs ps t = Inl e)" "ready r s"
      using Cons.prems(1) ps ready(1) by (auto simp: bind_res_eq_Inl)
    then show ?thesis using other serve_ok [of r s] serve_guarded [OF r(1) Cons.prems(4)] by blast
  next
    assume "el_results (r # rs) (p # ps) s = bind_res (el_results rs ps s) (\<lambda>(rules, s). Inr (r # rules, s))"
    then show ?thesis using Cons.prems(1,4) ps ready by (auto simp: bind_res_eq_Inl)
  qed
  then show ?case using Cons.IH r by blast
qed simp

text \<open>One call throws only what the callback of a ready rule throws, or a cancellation, or the error on a
  descriptor.\<close>

lemma wait_guarded:
  assumes "wait_next_event poll n rs s = Inl e" and "set rs \<subseteq> set rules" and "distinct rs" and "inv s"
  shows "guarded e \<or> e = POLL_ERROR"
proof (cases "el_setup rs s")
  case (Inl e')
  then have "\<exists>r \<in> set rules. \<exists>s. inv s \<and> rl_cancel r s = Inl e"
    using setup_cancel_throws assms by (simp add: wait_next_event_def)
  then show ?thesis by (auto simp: guarded_def)
next
  case (Inr x)
  then obtain rs1 fds b s1 where s1: "el_setup rs s = Inr (rs1, fds, b, s1)" by (cases x) auto
  have i: "inv s1" "set rs1 \<subseteq> set rules" "distinct rs1" "all_ready rs1 fds s1"
    using setup_inv [OF s1 assms(2,4)] el_setup_rules [OF s1] el_setup_distinct [OF s1 assms(3)]
      setup_ready [OF s1 assms(2-4)] assms(2) by auto
  obtain ret revents s2 where p: "poll fds n s1 = ((ret, revents), s2)" by (metis surj_pair)
  let ?fds = "map (\<lambda>(p, r). p\<lparr>pf_revents := r\<rparr>) (zip fds revents)"
  have p2: "inv s2" "length revents = length fds" using poll_inv [OF i(1), of fds n] p by simp_all
  have "all_ready rs1 fds s2"
    using all_ready_mono [OF i(4)] ready_poll [OF _ i(1), of _ fds n] p i(2) by (metis snd_conv subset_iff)
  then have "all_ready rs1 ?fds s2" using p2(2) by (simp add: all_ready_def list_all2_conv_all_nth)
  moreover have "el_results rs1 ?fds s2 = Inl e"
    using assms(1) s1 p by (auto simp: wait_next_event_def bind_res_eq_Inl Let_def split: if_splits sum.splits)
  ultimately show ?thesis using i p2 results_guarded by blast
qed

end

section \<open>Properties\<close>

lemma el_results_quiet:
  "list_all (\<lambda>p. pf_revents p = 0) fds \<Longrightarrow> length fds = length rules \<Longrightarrow> el_results rules fds s = Inr (rules, s)"
proof (induction rules arbitrary: fds)
  case (Cons r rules)
  then show ?case by (cases fds) (simp_all add: el_results.simps(3))
qed simp

text \<open>
  An error of \<open>poll\<close> goes unnoticed: when the call fails for another reason than a signal and reports
  no events, \<open>wait_next_event\<close> answers \<open>Success\<close> although no rule has been served; no exception is thrown.
\<close>

theorem event_loop_poll_error:
  assumes "el_setup rules s = Inr (rules', fds, True, s')"
    and "poll fds n s' = ((ret, replicate (length fds) 0), t)" and "failed ret" and "snd ret \<noteq> EINTR"
  shows "wait_next_event poll n rules s = Inr (rules', t, Success)"
proof -
  let ?fds = "map (\<lambda>(p, r). p\<lparr>pf_revents := r\<rparr>) (zip fds (replicate (length fds) 0))"
  have "length ?fds = length rules'" using el_setup_rules [OF assms(1)] by simp
  moreover have "list_all (\<lambda>p. pf_revents p = 0) ?fds" by (auto simp: list_all_iff set_zip)
  ultimately have "el_results rules' ?fds t = Inr (rules', t)" by (intro el_results_quiet)
  then show ?thesis using assms by (simp add: wait_next_event_def SystemCall_failed)
qed

theorem event_loop_poll_error_witness:
  "\<exists>rules (s :: unit) t. wait_next_event (\<lambda>fds n s. (((-1, 14), replicate (length fds) 0), s)) 10 rules s = Inr (rules, t, Success)
    \<and> rules \<noteq> []"
proof -
  let ?fd = "\<lparr>fdw_fd = 3, fdw_eof = False, fdw_closed = False, fdw_read_count = 0, fdw_write_count = 0\<rparr>"
  let ?rules = "el_add_rule [] (\<lambda>s. ?fd) In Inr (\<lambda>s. True) Inr" and ?s = "()"
  have "wait_next_event (\<lambda>fds n s. (((-1, 14), replicate (length fds) 0), s)) 10 ?rules ?s = Inr (?rules, ?s, Success)"
    by (rule event_loop_poll_error [where ret = "(- 1, 14)" and s' = "()"
          and fds = "[\<lparr>pf_fd = 3, pf_events = POLLIN, pf_revents = 0\<rparr>]"])
      (simp_all add: el_add_rule_def failed_def EINTR_def)
  moreover have "?rules \<noteq> []" by (simp add: el_add_rule_def)
  ultimately show ?thesis by blast
qed

end
