(* ===== verification/Socket.thy ===== *)
theory Socket
  imports File_Descriptor Adapters
begin

text \<open>
  Sockets (\<open>libsponge/util/socket.hh\<close>, \<open>socket.cc\<close>) and TUN devices (\<open>libsponge/util/tun.cc\<close>).
\<close>

section \<open>Sockets\<close>

definition SO_TYPE :: int where "SO_TYPE = 3"
definition SO_DOMAIN :: int where "SO_DOMAIN = 39"
definition SHUT_RD :: int where "SHUT_RD = 0"
definition SHUT_WR :: int where "SHUT_WR = 1"
definition SHUT_RDWR :: int where "SHUT_RDWR = 2"

definition SO_REUSEADDR :: int where "SO_REUSEADDR = 2"
definition AF_INET_domain :: int where "AF_INET_domain = 2"
definition AF_UNIX_domain :: int where "AF_UNIX_domain = 1"
definition SOCK_STREAM :: int where "SOCK_STREAM = 1"
definition SOCK_DGRAM :: int where "SOCK_DGRAM = 2"

definition sock_new :: "'k kernel \<Rightarrow> int \<Rightarrow> int \<Rightarrow> 'k \<Rightarrow> (file_descriptor \<times> 'k) result" where
  "sock_new k domain type w =
     (case k_socket k domain type w of (ret, w) \<Rightarrow>
        bind_res (SystemCall ''socket'' ret 0) (\<lambda>n. bind_res (fd_new n) (\<lambda>fd. Inr (fd, w))))"

definition sock_verify :: "'k kernel \<Rightarrow> int \<Rightarrow> int \<Rightarrow> string \<Rightarrow> file_descriptor \<Rightarrow> 'k \<Rightarrow> 'k result" where
  "sock_verify k option expected mismatch fd w =
     (case k_getsockopt k (fdw_fd fd) option w of ((ret, actual_value, len), w) \<Rightarrow>
        bind_res (SystemCall ''getsockopt'' ret 0) (\<lambda>_.
          if len \<noteq> 4 \<or> actual_value \<noteq> expected then Inl (Runtime_Error mismatch) else Inr w))"

definition sock_of_fd :: "'k kernel \<Rightarrow> int \<Rightarrow> int \<Rightarrow> file_descriptor \<Rightarrow> 'k \<Rightarrow> (file_descriptor \<times> 'k) result" where
  "sock_of_fd k domain type fd w =
     bind_res (sock_verify k SO_DOMAIN domain ''socket domain mismatch'' fd w) (\<lambda>w.
     bind_res (sock_verify k SO_TYPE type ''socket type mismatch'' fd w) (\<lambda>w. Inr (fd, w)))"

definition sock_get_address :: "'k kernel \<Rightarrow> string \<Rightarrow> bool \<Rightarrow> file_descriptor \<Rightarrow> 'k \<Rightarrow> (address \<times> 'k) result" where
  "sock_get_address k name_of_function peer fd w =
     (case k_sockname k peer (fdw_fd fd) w of ((ret, addr), w) \<Rightarrow>
        bind_res (SystemCall name_of_function ret 0) (\<lambda>_.
        bind_res (addr_of_sockaddr addr) (\<lambda>a. Inr (a, w))))"

definition sock_local_address :: "'k kernel \<Rightarrow> file_descriptor \<Rightarrow> 'k \<Rightarrow> (address \<times> 'k) result" where
  "sock_local_address k = sock_get_address k ''getsockname'' False"

definition sock_peer_address :: "'k kernel \<Rightarrow> file_descriptor \<Rightarrow> 'k \<Rightarrow> (address \<times> 'k) result" where
  "sock_peer_address k = sock_get_address k ''getpeername'' True"

definition sock_shutdown :: "'k kernel \<Rightarrow> int \<Rightarrow> file_descriptor \<Rightarrow> 'k \<Rightarrow> (file_descriptor \<times> 'k) result" where
  "sock_shutdown k how fd w =
     (case k_shutdown k (fdw_fd fd) how w of (ret, w) \<Rightarrow>
        bind_res (SystemCall ''shutdown'' ret 0) (\<lambda>_.
          if how = SHUT_RD then Inr (fd_register_read fd, w)
          else if how = SHUT_WR then Inr (fd_register_write fd, w)
          else if how = SHUT_RDWR then Inr (fd_register_write (fd_register_read fd), w)
          else Inl (Runtime_Error ''Socket::shutdown() called with invalid `how`'')))"

definition sock_bind :: "'k kernel \<Rightarrow> address \<Rightarrow> file_descriptor \<Rightarrow> 'k \<Rightarrow> 'k result" where
  "sock_bind k address fd w =
     (case k_bind k (fdw_fd fd) (addr_raw address) w of (ret, w) \<Rightarrow>
        bind_res (SystemCall ''bind'' ret 0) (\<lambda>_. Inr w))"

definition sock_connect :: "'k kernel \<Rightarrow> address \<Rightarrow> file_descriptor \<Rightarrow> 'k \<Rightarrow> 'k result" where
  "sock_connect k address fd w =
     (case k_connect k (fdw_fd fd) (addr_raw address) w of (ret, w) \<Rightarrow>
        bind_res (SystemCall ''connect'' ret 0) (\<lambda>_. Inr w))"

definition sock_setsockopt :: "'k kernel \<Rightarrow> int \<Rightarrow> int \<Rightarrow> file_descriptor \<Rightarrow> 'k \<Rightarrow> 'k result" where
  "sock_setsockopt k option option_value fd w =
     (case k_setsockopt k (fdw_fd fd) option option_value w of (ret, w) \<Rightarrow>
        bind_res (SystemCall ''setsockopt'' ret 0) (\<lambda>_. Inr w))"

definition sock_set_reuseaddr :: "'k kernel \<Rightarrow> file_descriptor \<Rightarrow> 'k \<Rightarrow> 'k result" where
  "sock_set_reuseaddr k = sock_setsockopt k SO_REUSEADDR 1"

section \<open>TCPSocket and LocalStreamSocket\<close>

definition tcp_socket_new :: "'k kernel \<Rightarrow> 'k \<Rightarrow> (file_descriptor \<times> 'k) result" where
  "tcp_socket_new k = sock_new k AF_INET_domain SOCK_STREAM"

definition tcp_socket_of_fd :: "'k kernel \<Rightarrow> file_descriptor \<Rightarrow> 'k \<Rightarrow> (file_descriptor \<times> 'k) result" where
  "tcp_socket_of_fd k = sock_of_fd k AF_INET_domain SOCK_STREAM"

definition tcp_listen :: "'k kernel \<Rightarrow> int \<Rightarrow> file_descriptor \<Rightarrow> 'k \<Rightarrow> 'k result" where
  "tcp_listen k backlog fd w =
     (case k_listen k (fdw_fd fd) backlog w of (ret, w) \<Rightarrow>
        bind_res (SystemCall ''listen'' ret 0) (\<lambda>_. Inr w))"

text \<open>The result has the new socket first.\<close>

definition tcp_accept :: "'k kernel \<Rightarrow> file_descriptor \<Rightarrow> 'k \<Rightarrow> (file_descriptor \<times> file_descriptor \<times> 'k) result" where
  "tcp_accept k fd w =
     (let fd = fd_register_read fd
      in case k_accept k (fdw_fd fd) w of (ret, w) \<Rightarrow>
         bind_res (SystemCall ''accept'' ret 0) (\<lambda>n.
         bind_res (fd_new n) (\<lambda>new. bind_res (tcp_socket_of_fd k new w) (\<lambda>(new, w). Inr (new, fd, w)))))"

definition local_socket_of_fd :: "'k kernel \<Rightarrow> file_descriptor \<Rightarrow> 'k \<Rightarrow> (file_descriptor \<times> 'k) result" where
  "local_socket_of_fd k = sock_of_fd k AF_UNIX_domain SOCK_STREAM"

section \<open>UDPSocket\<close>

definition udp_socket_new :: "'k kernel \<Rightarrow> 'k \<Rightarrow> (file_descriptor \<times> 'k) result" where
  "udp_socket_new k = sock_new k AF_INET_domain SOCK_DGRAM"

definition udp_socket_of_fd :: "'k kernel \<Rightarrow> file_descriptor \<Rightarrow> 'k \<Rightarrow> (file_descriptor \<times> 'k) result" where
  "udp_socket_of_fd k = sock_of_fd k AF_INET_domain SOCK_DGRAM"

definition udp_recv :: "'k kernel \<Rightarrow> size_t \<Rightarrow> file_descriptor \<Rightarrow> 'k
    \<Rightarrow> (received_datagram \<times> file_descriptor \<times> 'k) result" where
  "udp_recv k mtu fd w =
     (case k_recvfrom k (fdw_fd fd) mtu w of ((ret, data, addr), w) \<Rightarrow>
        bind_res (SystemCall ''recvfrom'' ret 0) (\<lambda>recv_len.
        if recv_len > sint mtu then Inl (Runtime_Error ''recvfrom (oversized datagram)'')
        else bind_res (addr_of_sockaddr addr) (\<lambda>source.
             if recv_len < 0 then Inl (Length_Error ''basic_string::resize'')
             else Inr (\<lparr>rd_source_address = source,
                        rd_payload = vec_resize (nat recv_len) 0 (data @ replicate (unat mtu - length data) 0)\<rparr>,
                       fd_register_read fd, w))))"

definition sendmsg_helper :: "'k kernel \<Rightarrow> int \<Rightarrow> bytes option \<Rightarrow> buffer_view_list \<Rightarrow> 'k \<Rightarrow> 'k result" where
  "sendmsg_helper k fd_num destination_address payload w =
     (case k_sendmsg k fd_num destination_address (bview_as_iovecs payload) w of (ret, w) \<Rightarrow>
        bind_res (SystemCall ''sendmsg'' ret 0) (\<lambda>bytes_sent.
          if word_of_int bytes_sent \<noteq> bview_size payload
          then Inl (Runtime_Error ''datagram payload too big for sendmsg()'') else Inr w))"

definition udp_sendto :: "'k kernel \<Rightarrow> address \<Rightarrow> buffer_view_list \<Rightarrow> file_descriptor \<Rightarrow> 'k
    \<Rightarrow> (file_descriptor \<times> 'k) result" where
  "udp_sendto k destination payload fd w =
     bind_res (sendmsg_helper k (fdw_fd fd) (Some (addr_raw destination)) payload w) (\<lambda>w.
       Inr (fd_register_write fd, w))"

definition udp_send :: "'k kernel \<Rightarrow> buffer_view_list \<Rightarrow> file_descriptor \<Rightarrow> 'k \<Rightarrow> (file_descriptor \<times> 'k) result" where
  "udp_send k payload fd w =
     bind_res (sendmsg_helper k (fdw_fd fd) None payload w) (\<lambda>w. Inr (fd_register_write fd, w))"

section \<open>Effects\<close>

lemma count_plus_neq: "x + 1 \<noteq> (x :: uint32)" "x + 1 + 1 \<noteq> (x :: uint32)" "x + 2 \<noteq> (x :: uint32)"
proof -
  have "(2 :: uint32) \<noteq> 0" by simp
  then show "x + 2 \<noteq> x" by (metis add_cancel_right_right)
  then show "x + 1 + 1 \<noteq> x" by (simp add: add.assoc)
qed simp

lemma fd_close_ok:
  assumes "kernel_ok k taken given" and "fd_close k fd w = Inr (fd', w')"
  shows "fd' = fd\<lparr>fdw_eof := True, fdw_closed := True\<rparr> \<and> taken w' = taken w \<and> given w' = given w"
proof -
  obtain ret w1 where "k_close k (fdw_fd fd) w = (ret, w1)" by (metis surj_pair)
  then show ?thesis using assms kernel_okD(3) [OF assms(1)] by (auto simp: fd_close_def bind_res_eq_Inr)
qed

lemma sock_shutdown_ok:
  assumes "kernel_ok k taken given" and "sock_shutdown k SHUT_WR fd w = Inr (fd', w')"
  shows "fd' = fd_register_write fd \<and> taken w' = taken w \<and> given w' = given w"
proof -
  obtain ret w1 where "k_shutdown k (fdw_fd fd) SHUT_WR w = (ret, w1)" by (metis surj_pair)
  then show ?thesis using assms kernel_okD(4) [OF assms(1)]
    by (auto simp: sock_shutdown_def bind_res_eq_Inr SHUT_WR_def SHUT_RD_def)
qed

section \<open>TUN devices\<close>

text \<open>\<open>strncpy\<close> stops at a zero byte; the rest of the array was cleared, so that the name ends there.\<close>

definition IFNAMSIZ :: nat where "IFNAMSIZ = 16"
definition IFF_TUN :: "16 word" where "IFF_TUN = 1"
definition IFF_TAP :: "16 word" where "IFF_TAP = 2"
definition IFF_NO_PI :: "16 word" where "IFF_NO_PI = 0x1000"

definition ifr_name :: "bytes \<Rightarrow> bytes" where
  "ifr_name devname = vec_resize IFNAMSIZ 0 (take (IFNAMSIZ - 1) (takeWhile (\<lambda>c. c \<noteq> 0) devname))"

definition tuntap_new :: "'k kernel \<Rightarrow> bytes \<Rightarrow> bool \<Rightarrow> 'k \<Rightarrow> (file_descriptor \<times> 'k) result" where
  "tuntap_new k devname is_tun w =
     (case k_open k ''/dev/net/tun'' 2 w of (ret, w) \<Rightarrow>
        bind_res (SystemCall ''open'' ret 0) (\<lambda>n. bind_res (fd_new n) (\<lambda>fd.
        case k_tunsetiff k (fdw_fd fd) ((if is_tun then IFF_TUN else IFF_TAP) OR IFF_NO_PI) (ifr_name devname) w of
          (ret, w) \<Rightarrow> bind_res (SystemCall ''ioctl'' ret 0) (\<lambda>_. Inr (fd, w)))))"

definition tun_fd_new :: "'k kernel \<Rightarrow> bytes \<Rightarrow> 'k \<Rightarrow> (file_descriptor \<times> 'k) result" where
  "tun_fd_new k devname = tuntap_new k devname True"

definition tap_fd_new :: "'k kernel \<Rightarrow> bytes \<Rightarrow> 'k \<Rightarrow> (file_descriptor \<times> 'k) result" where
  "tap_fd_new k devname = tuntap_new k devname False"

end
