(* ===== verification/Datagram_Adapter.thy ===== *)
theory Datagram_Adapter
  imports Socket
begin

text \<open>
  The adapters of \<open>Adapters\<close> together with their descriptors: what \<open>TCPSpongeSocket\<close> takes as its template
  parameter \<open>AdaptT\<close> (\<open>libsponge/tcp_helpers/fd_adapter.hh\<close>, \<open>tuntap_adapter.hh\<close>, \<open>lossy_fd_adapter.hh\<close>). An
  adapter is the state of \<open>FdAdapterBase\<close> and a descriptor; the four adapters of the program are values
  of the record of operations.
\<close>

section \<open>The operations of an adapter\<close>

record ('a, 'k) adapter_ops =
  ad_fd :: "'a \<Rightarrow> file_descriptor"
  ad_read :: "'a \<Rightarrow> 'k \<Rightarrow> ('a \<times> tcp_segment option \<times> 'k) result"
  ad_write :: "tcp_segment \<Rightarrow> 'a \<Rightarrow> 'k \<Rightarrow> ('a \<times> 'k) result"
  ad_set_config :: "fd_adapter_config \<Rightarrow> 'a \<Rightarrow> 'a"
  ad_set_listening :: "bool \<Rightarrow> 'a \<Rightarrow> 'a"
  ad_tick :: "size_t \<Rightarrow> 'a \<Rightarrow> 'a"

text \<open>Reading takes a packet from the descriptor and gives it to the adapter.\<close>

definition fetch :: "(file_descriptor \<Rightarrow> 'k \<Rightarrow> ('i \<times> file_descriptor \<times> 'k) result)
    \<Rightarrow> ('i \<Rightarrow> 'b \<Rightarrow> ('b \<times> tcp_segment option) result)
    \<Rightarrow> file_descriptor \<times> 'b \<Rightarrow> 'k \<Rightarrow> ((file_descriptor \<times> 'b) \<times> tcp_segment option \<times> 'k) result" where
  "fetch recv rd fa w =
     bind_res (recv (fst fa) w) (\<lambda>(packet, fd, w).
     bind_res (rd packet (snd fa)) (\<lambda>(a, seg). Inr ((fd, a), seg, w)))"

text \<open>\<open>_sock.recv()\<close> and \<open>_sock.sendto\<close>; \<open>_tun.read()\<close> and \<open>_tun.write\<close>.\<close>

definition udp_recv_any :: "'k kernel \<Rightarrow> file_descriptor \<Rightarrow> 'k \<Rightarrow> (received_datagram \<times> file_descriptor \<times> 'k) result" where
  "udp_recv_any k = udp_recv k 65536"

definition udp_emit :: "'k kernel \<Rightarrow> address \<times> buffer_list \<Rightarrow> file_descriptor \<Rightarrow> 'k \<Rightarrow> (file_descriptor \<times> 'k) result" where
  "udp_emit k out = udp_sendto k (fst out) (bview_of_list (snd out))"

definition tun_recv_any :: "'k kernel \<Rightarrow> file_descriptor \<Rightarrow> 'k \<Rightarrow> (bytes \<times> file_descriptor \<times> 'k) result" where
  "tun_recv_any k = fd_read k (- 1)"

definition tun_emit :: "'k kernel \<Rightarrow> buffer_list \<Rightarrow> file_descriptor \<Rightarrow> 'k \<Rightarrow> (file_descriptor \<times> 'k) result" where
  "tun_emit k out fd w =
     bind_res (fd_write k (bview_of_list out) True fd w) (\<lambda>(n, fd, w). Inr (fd, w))"

section \<open>The four adapters\<close>

definition plain_ops :: "(file_descriptor \<Rightarrow> 'k \<Rightarrow> ('i \<times> file_descriptor \<times> 'k) result)
    \<Rightarrow> ('o \<Rightarrow> file_descriptor \<Rightarrow> 'k \<Rightarrow> (file_descriptor \<times> 'k) result)
    \<Rightarrow> ('i \<Rightarrow> fd_adapter \<Rightarrow> (fd_adapter \<times> tcp_segment option) result)
    \<Rightarrow> (tcp_segment \<Rightarrow> fd_adapter \<Rightarrow> (tcp_segment \<times> 'o) result)
    \<Rightarrow> (file_descriptor \<times> fd_adapter, 'k) adapter_ops" where
  "plain_ops recv emit rd wr = \<lparr>
     ad_fd = fst,
     ad_read = fetch recv rd,
     ad_write = (\<lambda>seg (fd, a) w. bind_res (wr seg a) (\<lambda>(seg, out).
        bind_res (emit out fd w) (\<lambda>(fd, w). Inr ((fd, a), w)))),
     ad_set_config = (\<lambda>cfg (fd, a). (fd, a\<lparr>fa_config := cfg\<rparr>)),
     ad_set_listening = (\<lambda>b (fd, a). (fd, fa_set_listening b a)),
     ad_tick = (\<lambda>ms (fd, a). (fd, fa_tick ms a))\<rparr>"

definition lossy_ops :: "('g \<Rightarrow> uint32 \<times> 'g) \<Rightarrow> (file_descriptor \<Rightarrow> 'k \<Rightarrow> ('i \<times> file_descriptor \<times> 'k) result)
    \<Rightarrow> ('o \<Rightarrow> file_descriptor \<Rightarrow> 'k \<Rightarrow> (file_descriptor \<times> 'k) result)
    \<Rightarrow> ('i \<Rightarrow> fd_adapter \<Rightarrow> (fd_adapter \<times> tcp_segment option) result)
    \<Rightarrow> (tcp_segment \<Rightarrow> fd_adapter \<Rightarrow> (tcp_segment \<times> 'o) result)
    \<Rightarrow> (file_descriptor \<times> 'g lossy, 'k) adapter_ops" where
  "lossy_ops rand recv emit rd wr = \<lparr>
     ad_fd = fst,
     ad_read = fetch recv (ls_read rand rd),
     ad_write = (\<lambda>seg (fd, l) w. bind_res (ls_write rand wr seg l) (\<lambda>(l, seg, sent).
        case sent of None \<Rightarrow> Inr ((fd, l), w)
        | Some out \<Rightarrow> bind_res (emit out fd w) (\<lambda>(fd, w). Inr ((fd, l), w)))),
     ad_set_config = (\<lambda>cfg (fd, l). (fd, l\<lparr>ls_adapter := (ls_adapter l)\<lparr>fa_config := cfg\<rparr>\<rparr>)),
     ad_set_listening = (\<lambda>b (fd, l). (fd, ls_set_listening b l)),
     ad_tick = (\<lambda>ms (fd, l). (fd, ls_tick ms l))\<rparr>"

definition udp_ops :: "getnameinfo \<Rightarrow> 'k kernel \<Rightarrow> (file_descriptor \<times> fd_adapter, 'k) adapter_ops" where
  "udp_ops gni k = plain_ops (udp_recv_any k) (udp_emit k) udp_read (udp_write gni)"

definition tun_ops :: "getaddrinfo \<Rightarrow> getnameinfo \<Rightarrow> inet_ntoa \<Rightarrow> 'k kernel
    \<Rightarrow> (file_descriptor \<times> fd_adapter, 'k) adapter_ops" where
  "tun_ops gai gni ntoa k = plain_ops (tun_recv_any k) (tun_emit k) (tun_read gai gni ntoa) (tun_write gni)"

definition lossy_udp_ops :: "('g \<Rightarrow> uint32 \<times> 'g) \<Rightarrow> getnameinfo \<Rightarrow> 'k kernel
    \<Rightarrow> (file_descriptor \<times> 'g lossy, 'k) adapter_ops" where
  "lossy_udp_ops rand gni k = lossy_ops rand (udp_recv_any k) (udp_emit k) udp_read (udp_write gni)"

definition lossy_tun_ops :: "('g \<Rightarrow> uint32 \<times> 'g) \<Rightarrow> getaddrinfo \<Rightarrow> getnameinfo \<Rightarrow> inet_ntoa \<Rightarrow> 'k kernel
    \<Rightarrow> (file_descriptor \<times> 'g lossy, 'k) adapter_ops" where
  "lossy_tun_ops rand gai gni ntoa k =
     lossy_ops rand (tun_recv_any k) (tun_emit k) (tun_read gai gni ntoa) (tun_write gni)"

section \<open>What the event loop relies on\<close>

text \<open>
  A read that returns has read the descriptor: its counter moves. Beside its own descriptor an adapter
  reads and writes no stream, and it keeps that descriptor.
\<close>

locale datagram_adapter =
  fixes ops :: "('a, 'k) adapter_ops" and k :: "'k kernel"
  assumes read_counts: "ad_read ops a w = Inr (b, seg, w') \<Longrightarrow>
      fdw_read_count (ad_fd ops b) = fdw_read_count (ad_fd ops a) + 1"
    and read_frame: "kernel_ok k taken given \<Longrightarrow> ad_read ops a w = Inr (b, seg, w') \<Longrightarrow>
      fdw_fd (ad_fd ops b) = fdw_fd (ad_fd ops a)
      \<and> (fd \<noteq> fdw_fd (ad_fd ops a) \<longrightarrow> taken w' fd = taken w fd \<and> given w' fd = given w fd)"
    and write_frame: "kernel_ok k taken given \<Longrightarrow> ad_write ops s a w = Inr (b, w') \<Longrightarrow>
      fdw_fd (ad_fd ops b) = fdw_fd (ad_fd ops a)
      \<and> (fd \<noteq> fdw_fd (ad_fd ops a) \<longrightarrow> taken w' fd = taken w fd \<and> given w' fd = given w fd)"
    and control_frame: "ad_fd ops (ad_set_config ops cfg a) = ad_fd ops a"
      "ad_fd ops (ad_set_listening ops l a) = ad_fd ops a" "ad_fd ops (ad_tick ops ms a) = ad_fd ops a"
begin

lemma read_moves: "ad_read ops a w = Inr (b, seg, w') \<Longrightarrow> fdw_read_count (ad_fd ops b) \<noteq> fdw_read_count (ad_fd ops a)"
  using read_counts by fastforce

end

text \<open>The two ways to reach the network.\<close>

definition recv_ok :: "'k kernel \<Rightarrow> (file_descriptor \<Rightarrow> 'k \<Rightarrow> ('i \<times> file_descriptor \<times> 'k) result) \<Rightarrow> bool" where
  "recv_ok k recv \<longleftrightarrow> (\<forall>fd w d fd' w'. recv fd w = Inr (d, fd', w') \<longrightarrow> fdw_read_count fd' = fdw_read_count fd + 1
     \<and> (\<forall>taken given. kernel_ok k taken given \<longrightarrow> fdw_fd fd' = fdw_fd fd
        \<and> (\<forall>x. x \<noteq> fdw_fd fd \<longrightarrow> taken w' x = taken w x \<and> given w' x = given w x)))"

definition emit_ok :: "'k kernel \<Rightarrow> ('o \<Rightarrow> file_descriptor \<Rightarrow> 'k \<Rightarrow> (file_descriptor \<times> 'k) result) \<Rightarrow> bool" where
  "emit_ok k emit \<longleftrightarrow> (\<forall>out fd w fd' w' taken given. emit out fd w = Inr (fd', w') \<longrightarrow> kernel_ok k taken given \<longrightarrow>
     fdw_fd fd' = fdw_fd fd \<and> (\<forall>x. x \<noteq> fdw_fd fd \<longrightarrow> taken w' x = taken w x \<and> given w' x = given w x))"

lemma udp_recv_ok: "recv_ok k (udp_recv_any k)"
proof -
  have "fdw_read_count fd' = fdw_read_count fd + 1 \<and> (kernel_ok k taken given \<longrightarrow> fdw_fd fd' = fdw_fd fd
      \<and> taken w' = taken w \<and> given w' = given w)"
    if "udp_recv_any k fd w = Inr (d, fd', w')" for fd w d fd' w' taken given
    using that kernel_okD(8) [of k taken given]
    by (fastforce simp: udp_recv_any_def udp_recv_def bind_res_eq_Inr split: if_splits prod.splits)
  then show ?thesis by (fastforce simp: recv_ok_def)
qed

lemma tun_recv_ok: "recv_ok k (tun_recv_any k)"
proof -
  have "fdw_read_count fd' = fdw_read_count fd + 1" if "tun_recv_any k fd w = Inr (d, fd', w')" for fd w d fd' w'
    using that by (auto simp: tun_recv_any_def fd_read_def Let_def bind_res_eq_Inr split: if_splits prod.splits)
  then show ?thesis using fd_read_frame [OF kernel_okD(1)] by (fastforce simp: recv_ok_def tun_recv_any_def)
qed

lemma udp_emit_ok: "emit_ok k (udp_emit k)"
proof -
  have "kernel_ok k taken given \<longrightarrow> fdw_fd fd' = fdw_fd fd \<and> taken w' = taken w \<and> given w' = given w"
    if "udp_emit k out fd w = Inr (fd', w')" for out fd w fd' w' taken given
    using that kernel_okD(9) [of k taken given]
    by (fastforce simp: udp_emit_def udp_sendto_def sendmsg_helper_def bind_res_eq_Inr split: if_splits prod.splits)
  then show ?thesis by (fastforce simp: emit_ok_def)
qed

lemma tun_emit_ok: "emit_ok k (tun_emit k)"
proof -
  have "fdw_fd fd' = fdw_fd fd \<and> (x \<noteq> fdw_fd fd \<longrightarrow> taken w' x = taken w x \<and> given w' x = given w x)"
    if "tun_emit k out fd w = Inr (fd', w')" "kernel_ok k taken given" for out fd w fd' w' taken given x
    using that fd_write_frame [OF kernel_okD(2) [OF that(2)]]
    by (fastforce simp: tun_emit_def fd_write_def bind_res_eq_Inr)
  then show ?thesis by (simp add: emit_ok_def)
qed

lemma fetch_ok:
  assumes "recv_ok k recv" and "fetch recv rd a w = Inr (b, seg, w')"
  shows "fdw_read_count (fst b) = fdw_read_count (fst a) + 1"
    "kernel_ok k taken given \<Longrightarrow> fdw_fd (fst b) = fdw_fd (fst a)
      \<and> (fd \<noteq> fdw_fd (fst a) \<longrightarrow> taken w' fd = taken w fd \<and> given w' fd = given w fd)"
  using assms by (auto simp: fetch_def bind_res_eq_Inr recv_ok_def)

lemma plain_adapter:
  assumes "recv_ok k recv" and "emit_ok k emit"
  shows "datagram_adapter (plain_ops recv emit rd wr) k"
  using fetch_ok [OF assms(1)] assms(2)
  by unfold_locales (fastforce simp: plain_ops_def emit_ok_def bind_res_eq_Inr split: prod.splits)+

lemma lossy_adapter:
  assumes "recv_ok k recv" and "emit_ok k emit"
  shows "datagram_adapter (lossy_ops rand recv emit rd wr) k"
  using fetch_ok [OF assms(1)] assms(2)
  by unfold_locales
    (fastforce simp: lossy_ops_def emit_ok_def bind_res_eq_Inr split: prod.splits option.splits)+

interpretation udp_datagrams: datagram_adapter "udp_ops gni k" k for gni k
  unfolding udp_ops_def by (rule plain_adapter [OF udp_recv_ok udp_emit_ok])

interpretation tun_datagrams: datagram_adapter "tun_ops gai gni ntoa k" k for gai gni ntoa k
  unfolding tun_ops_def by (rule plain_adapter [OF tun_recv_ok tun_emit_ok])

interpretation lossy_udp_datagrams: datagram_adapter "lossy_udp_ops rand gni k" k for rand gni k
  unfolding lossy_udp_ops_def by (rule lossy_adapter [OF udp_recv_ok udp_emit_ok])

interpretation lossy_tun_datagrams: datagram_adapter "lossy_tun_ops rand gai gni ntoa k" k for rand gai gni ntoa k
  unfolding lossy_tun_ops_def by (rule lossy_adapter [OF tun_recv_ok tun_emit_ok])

end
