(* ===== verification/Stream_Copy.thy ===== *)
theory Stream_Copy
  imports Event_Loop Socket Byte_Stream "HOL-Library.Sublist"
begin

text \<open>
  The loop with which the command-line programs connect their standard streams to a socket
  (\<open>apps/bidirectional_stream_copy.cc\<close>): two byte streams, four rules of the event loop, and the loop
  until the event loop has nothing left to do. The descriptors and the operating system are part of
  the state that the rules share.
\<close>

section \<open>State and rules\<close>

record 'k copy =
  sc_input :: file_descriptor
  sc_output :: file_descriptor
  sc_socket :: file_descriptor
  sc_outbound :: byte_stream
  sc_inbound :: byte_stream
  sc_outbound_shutdown :: bool
  sc_inbound_shutdown :: bool
  sc_world :: 'k

definition max_copy_length :: size_t where
  "max_copy_length = 65536"

definition copy_buffer_size :: size_t where
  "copy_buffer_size = 1048576"

text \<open>Rule 1: from the standard input into the outbound stream.\<close>

definition copy_from_input :: "'k kernel \<Rightarrow> 'k copy \<Rightarrow> 'k copy result" where
  "copy_from_input k s =
     bind_res (fd_read k (bs_remaining_capacity (sc_outbound s)) (sc_input s) (sc_world s)) (\<lambda>(data, fd, w).
     let s = s\<lparr>sc_input := fd, sc_world := w\<rparr>;
         s = s\<lparr>sc_outbound := fst (bs_write (sc_outbound s) data)\<rparr>
     in Inr (if fdw_eof (sc_input s) then s\<lparr>sc_outbound := bs_end_input (sc_outbound s)\<rparr> else s))"

definition copy_from_input_interest :: "'k copy \<Rightarrow> bool" where
  "copy_from_input_interest s \<longleftrightarrow> \<not> bs_error (sc_outbound s) \<and> bs_remaining_capacity (sc_outbound s) > 0
     \<and> \<not> bs_error (sc_inbound s)"

definition copy_end_outbound :: "'k copy \<Rightarrow> 'k copy result" where
  "copy_end_outbound s = Inr (s\<lparr>sc_outbound := bs_end_input (sc_outbound s)\<rparr>)"

text \<open>Rule 2: from the outbound stream into the socket.\<close>

definition copy_to_socket :: "'k kernel \<Rightarrow> 'k copy \<Rightarrow> 'k copy result" where
  "copy_to_socket k s =
     (let bytes_to_write = min max_copy_length (bs_buffer_size (sc_outbound s))
      in bind_res (fd_write k (bview_of_string (bs_peek_output (sc_outbound s) bytes_to_write)) False
           (sc_socket s) (sc_world s)) (\<lambda>(bytes_written, fd, w).
         let s = s\<lparr>sc_socket := fd, sc_world := w\<rparr>;
             s = s\<lparr>sc_outbound := bs_pop_output (sc_outbound s) bytes_written\<rparr>
         in if bs_eof (sc_outbound s)
            then bind_res (sock_shutdown k SHUT_WR (sc_socket s) (sc_world s)) (\<lambda>(fd, w).
                 Inr (s\<lparr>sc_socket := fd, sc_world := w, sc_outbound_shutdown := True\<rparr>))
            else Inr s))"

definition copy_to_socket_interest :: "'k copy \<Rightarrow> bool" where
  "copy_to_socket_interest s \<longleftrightarrow> \<not> bs_buffer_empty (sc_outbound s)
     \<or> bs_eof (sc_outbound s) \<and> \<not> sc_outbound_shutdown s"

text \<open>Rule 3: from the socket into the inbound stream.\<close>

definition copy_from_socket :: "'k kernel \<Rightarrow> 'k copy \<Rightarrow> 'k copy result" where
  "copy_from_socket k s =
     bind_res (fd_read k (bs_remaining_capacity (sc_inbound s)) (sc_socket s) (sc_world s)) (\<lambda>(data, fd, w).
     let s = s\<lparr>sc_socket := fd, sc_world := w\<rparr>;
         s = s\<lparr>sc_inbound := fst (bs_write (sc_inbound s) data)\<rparr>
     in Inr (if fdw_eof (sc_socket s) then s\<lparr>sc_inbound := bs_end_input (sc_inbound s)\<rparr> else s))"

definition copy_from_socket_interest :: "'k copy \<Rightarrow> bool" where
  "copy_from_socket_interest s \<longleftrightarrow> \<not> bs_error (sc_inbound s) \<and> bs_remaining_capacity (sc_inbound s) > 0
     \<and> \<not> bs_error (sc_outbound s)"

definition copy_end_inbound :: "'k copy \<Rightarrow> 'k copy result" where
  "copy_end_inbound s = Inr (s\<lparr>sc_inbound := bs_end_input (sc_inbound s)\<rparr>)"

text \<open>Rule 4: from the inbound stream to the standard output.\<close>

definition copy_to_output :: "'k kernel \<Rightarrow> 'k copy \<Rightarrow> 'k copy result" where
  "copy_to_output k s =
     (let bytes_to_write = min max_copy_length (bs_buffer_size (sc_inbound s))
      in bind_res (fd_write k (bview_of_string (bs_peek_output (sc_inbound s) bytes_to_write)) False
           (sc_output s) (sc_world s)) (\<lambda>(bytes_written, fd, w).
         let s = s\<lparr>sc_output := fd, sc_world := w\<rparr>;
             s = s\<lparr>sc_inbound := bs_pop_output (sc_inbound s) bytes_written\<rparr>
         in if bs_eof (sc_inbound s)
            then bind_res (fd_close k (sc_output s) (sc_world s)) (\<lambda>(fd, w).
                 Inr (s\<lparr>sc_output := fd, sc_world := w, sc_inbound_shutdown := True\<rparr>))
            else Inr s))"

definition copy_to_output_interest :: "'k copy \<Rightarrow> bool" where
  "copy_to_output_interest s \<longleftrightarrow> \<not> bs_buffer_empty (sc_inbound s)
     \<or> bs_eof (sc_inbound s) \<and> \<not> sc_inbound_shutdown s"

definition copy_rules :: "'k kernel \<Rightarrow> 'k copy rule list" where
  "copy_rules k =
     (let rules = [];
          rules = el_add_rule rules sc_input In (copy_from_input k) copy_from_input_interest copy_end_outbound;
          rules = el_add_rule rules sc_socket Out (copy_to_socket k) copy_to_socket_interest copy_end_outbound;
          rules = el_add_rule rules sc_socket In (copy_from_socket k) copy_from_socket_interest copy_end_inbound;
          rules = el_add_rule rules sc_output Out (copy_to_output k) copy_to_output_interest copy_end_inbound
      in rules)"

definition copy_poll :: "'k kernel \<Rightarrow> 'k copy poll" where
  "copy_poll k fds timeout_ms s = (case k_poll k fds timeout_ms (sc_world s) of (ret, w) \<Rightarrow> (ret, s\<lparr>sc_world := w\<rparr>))"

text \<open>The descriptors 0 and 1 and the two empty streams. The value of the loop is \<open>None\<close> if it never ends.\<close>

definition copy_start :: "'k kernel \<Rightarrow> file_descriptor \<Rightarrow> 'k \<Rightarrow> 'k copy result" where
  "copy_start k socket w =
     bind_res (fd_new 0) (\<lambda>input. bind_res (fd_new 1) (\<lambda>output.
     bind_res (fd_set_blocking k False socket w) (\<lambda>w.
     bind_res (fd_set_blocking k False input w) (\<lambda>w.
     bind_res (fd_set_blocking k False output w) (\<lambda>w.
     Inr \<lparr>sc_input = input, sc_output = output, sc_socket = socket, sc_outbound = bs_new copy_buffer_size,
          sc_inbound = bs_new copy_buffer_size, sc_outbound_shutdown = False, sc_inbound_shutdown = False,
          sc_world = w\<rparr>)))))"

partial_function (option) copy_loop :: "'k kernel \<Rightarrow> 'k copy rule list \<Rightarrow> 'k copy
    \<Rightarrow> ('k copy rule list \<times> 'k copy) result option" where
  "copy_loop k rules s =
     (case wait_next_event (copy_poll k) (-1) rules s of
        Inl e \<Rightarrow> Some (Inl e)
      | Inr (rules, s, res) \<Rightarrow> if res = Exit then Some (Inr (rules, s)) else copy_loop k rules s)"

text \<open>On return the local descriptors are destroyed, \<open>_output\<close> before \<open>_input\<close>, and the event loop after
  them, which shares the descriptors of the rules that it still has: a descriptor is closed when its
  last owner goes. The socket belongs to the caller.\<close>

definition copy_shared :: "'k copy rule list \<Rightarrow> 'k copy \<Rightarrow> int \<Rightarrow> bool" where
  "copy_shared rules s fd \<longleftrightarrow> list_ex (\<lambda>r. fdw_fd (rl_fd r s) = fd) rules"

definition copy_finish :: "'k kernel \<Rightarrow> 'k copy rule list \<Rightarrow> 'k copy \<Rightarrow> 'k" where
  "copy_finish k rules s =
     (let w = sc_world s;
          w = (if copy_shared rules s 1 then w else fd_destroy k (sc_output s) w);
          w = (if copy_shared rules s 0 then w else fd_destroy k (sc_input s) w)
      in fold (\<lambda>r. if fdw_fd (rl_fd r s) \<in> {0, 1} then fd_destroy k (rl_fd r s) else id) rules w)"

definition bidirectional_stream_copy :: "'k kernel \<Rightarrow> file_descriptor \<Rightarrow> 'k
    \<Rightarrow> (file_descriptor \<times> 'k) result option" where
  "bidirectional_stream_copy k socket w =
     (case copy_start k socket w of
        Inl e \<Rightarrow> Some (Inl e)
      | Inr s \<Rightarrow> (case copy_loop k (copy_rules k) s of
          None \<Rightarrow> None
        | Some (Inl e) \<Rightarrow> Some (Inl e)
        | Some (Inr (rules, s)) \<Rightarrow> Some (Inr (sc_socket s, copy_finish k rules s))))"

section \<open>One direction\<close>

text \<open>
  A stream between the bytes taken from one descriptor and the bytes given to another: what was taken is
  what was given, followed by what is buffered, followed by what a stream that was already ended has
  refused. What was accepted before, \<open>base\<close>, is still there.
\<close>

definition flow :: "bytes \<Rightarrow> bytes \<Rightarrow> bytes \<Rightarrow> byte_stream \<Rightarrow> bool" where
  "flow base from to st \<longleftrightarrow> bs_inv st \<and> prefix base (to @ bs_contents st)
     \<and> (\<exists>refused. from = to @ bs_contents st @ refused \<and> (\<not> bs_end_flag st \<longrightarrow> refused = []))"

lemma flow_end [simp]: "flow base from to st \<Longrightarrow> flow base from to (bs_end_input st)"
  by (auto simp: flow_def)

lemma flow_base: "flow base from to st \<Longrightarrow> flow (to @ bs_contents st) from to st"
  by (simp add: flow_def)

lemma flow_fill:
  assumes "flow base from to st" and "length data \<le> unat (bs_remaining_capacity st)"
  shows "flow base (from @ data) to (fst (bs_write st data))"
proof -
  have st: "bs_inv st" using assms(1) by (simp add: flow_def)
  show ?thesis
  proof (cases "bs_end_flag st")
    case True
    then show ?thesis using assms(1) by (auto simp: flow_def ring.write_finished)
  next
    case False
    have "bs_shape st" using st by simp
    then have "length (bs_contents st) + length data \<le> unat (bs_capacity st)"
      using assms(2) length_contents_le [of st] by (simp add: unat_remaining_capacity)
    then have "bs_contents (fst (bs_write st data)) = bs_contents st @ data"
      by (rule ring.write_whole [OF st False])
    moreover have "prefix base (to @ bs_contents st @ data)"
      using assms(1) prefix_prefix [of base "to @ bs_contents st" data] by (simp add: flow_def)
    ultimately show ?thesis using assms(1) False by (auto simp: flow_def ring.invar_write)
  qed
qed

lemma flow_drain:
  assumes "flow base from to st" and "unat n \<le> length (bs_peek_output st m)"
  shows "flow base from (to @ take (unat n) (bs_peek_output st m)) (bs_pop_output st n)"
proof -
  have st: "bs_inv st" using assms(1) by (simp add: flow_def)
  have "unat n \<le> unat m" using assms(2) by (simp add: ring.peek_contents [OF st])
  then have "take (unat n) (bs_peek_output st m) @ bs_contents (bs_pop_output st n) = bs_contents st"
    by (simp add: ring.peek_contents [OF st] ring.pop_contents [OF st] min_def)
  then have "to @ bs_contents st @ refused =
      (to @ take (unat n) (bs_peek_output st m)) @ bs_contents (bs_pop_output st n) @ refused" for refused
    by (metis append.assoc)
  then show ?thesis using assms(1) by (force simp: flow_def ring.invar_pop ring.frame_pop)
qed

section \<open>The invariant\<close>

definition copy_inv :: "'k kernel \<Rightarrow> ('k \<Rightarrow> int \<Rightarrow> bytes) \<Rightarrow> ('k \<Rightarrow> int \<Rightarrow> bytes) \<Rightarrow> bytes \<Rightarrow> bytes \<Rightarrow> 'k copy
    \<Rightarrow> bool" where
  "copy_inv k taken given ob ib s \<longleftrightarrow> kernel_ok k taken given
     \<and> fdw_fd (sc_input s) = 0 \<and> fdw_fd (sc_output s) = 1 \<and> fdw_fd (sc_socket s) \<notin> {0, 1}
     \<and> flow ob (taken (sc_world s) 0) (given (sc_world s) (fdw_fd (sc_socket s))) (sc_outbound s)
     \<and> flow ib (taken (sc_world s) (fdw_fd (sc_socket s))) (given (sc_world s) 1) (sc_inbound s)"

text \<open>Each callback keeps the invariant, and touches its descriptor.\<close>

lemma copy_from_input_ok:
  assumes inv: "copy_inv k taken given ob ib s" and run: "copy_from_input k s = Inr t"
  shows "copy_inv k taken given ob ib t \<and> fdw_read_count (sc_input t) \<noteq> fdw_read_count (sc_input s)"
proof -
  let ?fd = "sc_input s" and ?n = "bs_remaining_capacity (sc_outbound s)"
  have ok: "read_ok k taken given" using inv kernel_okD(1) by (auto simp: copy_inv_def)
  show ?thesis
  proof (cases rule: fd_read_cases [OF ok refl, of ?n ?fd "sc_world s"])
    case (1 e)
    then show ?thesis using run by (simp add: copy_from_input_def)
  next
    case (2 data w')
    have f: "flow ob (taken (sc_world s) 0 @ data) (given (sc_world s) (fdw_fd (sc_socket s)))
        (fst (bs_write (sc_outbound s) data))"
      using inv 2(2) by (intro flow_fill) (simp_all add: copy_inv_def)
    let ?s = "s\<lparr>sc_input := (fd_register_read ?fd)\<lparr>fdw_eof := fdw_eof ?fd \<or> ?n > 0 \<and> data = []\<rparr>, sc_world := w',
        sc_outbound := fst (bs_write (sc_outbound s) data)\<rparr>"
    have "copy_inv k taken given ob ib ?s" using inv 2(3,4) f by (simp add: copy_inv_def)
    moreover have "t = ?s \<or> t = ?s\<lparr>sc_outbound := bs_end_input (sc_outbound ?s)\<rparr>"
      using run 2(1) by (auto simp: copy_from_input_def Let_def split: if_splits)
    ultimately show ?thesis by (auto simp: copy_inv_def)
  qed
qed

lemma flow_write:
  assumes k: "kernel_ok k taken given" and f: "flow base from to st"
    and run: "fd_write k (bview_of_string (bs_peek_output st m)) False fd w = Inr (n, fd', w')"
  shows "fd' = fd_register_write fd" "taken w' = taken w"
    "flow base from (to @ take (unat n) (bs_peek_output st m)) (bs_pop_output st n)"
    "given w' = (given w)(fdw_fd fd := given w (fdw_fd fd) @ take (unat n) (bs_peek_output st m))"
proof -
  let ?d = "bs_peek_output st m"
  have st: "bs_inv st" "bs_shape st" using f by (simp_all add: flow_def)
  have "length ?d \<le> unat (bs_capacity st)"
    using length_contents_le [OF st(2)] by (simp add: ring.peek_contents [OF st(1)])
  then have len: "length (concat (bview_of_string ?d)) < 2 ^ 63"
    using bs_shapeD(1) [OF st(2)] by (simp add: bview_of_string_def)
  have "fd' = fd_register_write fd \<and> taken w' = taken w \<and> unat n \<le> length ?d
      \<and> given w' = (given w)(fdw_fd fd := given w (fdw_fd fd) @ take (unat n) ?d)"
    using run
    by (cases rule: fd_write_cases [OF kernel_okD(2) [OF k] refl len, of 0 fd w])
      (auto simp: fd_write_def bview_of_string_def)
  then show "fd' = fd_register_write fd" "taken w' = taken w"
    "flow base from (to @ take (unat n) ?d) (bs_pop_output st n)"
    "given w' = (given w)(fdw_fd fd := given w (fdw_fd fd) @ take (unat n) ?d)"
    using flow_drain [OF f, of n m] by simp_all
qed

lemma copy_to_socket_ok:
  assumes inv: "copy_inv k taken given ob ib s" and run: "copy_to_socket k s = Inr t"
  shows "copy_inv k taken given ob ib t \<and> fdw_write_count (sc_socket t) \<noteq> fdw_write_count (sc_socket s)"
proof -
  let ?m = "min max_copy_length (bs_buffer_size (sc_outbound s))"
  note i = inv [unfolded copy_inv_def]
  obtain n fd w where w: "fd_write k (bview_of_string (bs_peek_output (sc_outbound s) ?m)) False (sc_socket s) (sc_world s)
      = Inr (n, fd, w)" using run by (auto simp: copy_to_socket_def Let_def elim!: bind_resE)
  have fl: "kernel_ok k taken given"
      "flow ob (taken (sc_world s) 0) (given (sc_world s) (fdw_fd (sc_socket s))) (sc_outbound s)"
    using i by blast+
  note f = flow_write [OF fl w]
  let ?s = "s\<lparr>sc_socket := fd, sc_world := w, sc_outbound := bs_pop_output (sc_outbound s) n\<rparr>"
  have s: "copy_inv k taken given ob ib ?s" using i f by (simp add: copy_inv_def)
  have fd: "fdw_write_count fd = fdw_write_count (sc_socket s) + 1" using f(1) by simp
  show ?thesis
  proof (cases "bs_eof (bs_pop_output (sc_outbound s) n)")
    case False
    then have "t = ?s" using run w by (simp add: copy_to_socket_def Let_def)
    then show ?thesis using s fd by simp
  next
    case True
    then obtain fd' w' where sd: "sock_shutdown k SHUT_WR fd w = Inr (fd', w')"
        and t: "t = ?s\<lparr>sc_socket := fd', sc_world := w', sc_outbound_shutdown := True\<rparr>"
      using run w by (auto simp: copy_to_socket_def Let_def elim!: bind_resE)
    show ?thesis using s fd sock_shutdown_ok [OF fl(1) sd] unfolding t by (simp add: copy_inv_def count_plus_neq)
  qed
qed

lemma copy_from_socket_ok:
  assumes inv: "copy_inv k taken given ob ib s" and run: "copy_from_socket k s = Inr t"
  shows "copy_inv k taken given ob ib t \<and> fdw_read_count (sc_socket t) \<noteq> fdw_read_count (sc_socket s)"
proof -
  let ?fd = "sc_socket s" and ?n = "bs_remaining_capacity (sc_inbound s)"
  have ok: "read_ok k taken given" using inv kernel_okD(1) by (auto simp: copy_inv_def)
  show ?thesis
  proof (cases rule: fd_read_cases [OF ok refl, of ?n ?fd "sc_world s"])
    case (1 e)
    then show ?thesis using run by (simp add: copy_from_socket_def)
  next
    case (2 data w')
    have f: "flow ib (taken (sc_world s) (fdw_fd ?fd) @ data) (given (sc_world s) 1)
        (fst (bs_write (sc_inbound s) data))"
      using inv 2(2) by (intro flow_fill) (simp_all add: copy_inv_def)
    let ?s = "s\<lparr>sc_socket := (fd_register_read ?fd)\<lparr>fdw_eof := fdw_eof ?fd \<or> ?n > 0 \<and> data = []\<rparr>, sc_world := w',
        sc_inbound := fst (bs_write (sc_inbound s) data)\<rparr>"
    have "copy_inv k taken given ob ib ?s" using inv 2(3,4) f by (simp add: copy_inv_def)
    moreover have "t = ?s \<or> t = ?s\<lparr>sc_inbound := bs_end_input (sc_inbound ?s)\<rparr>"
      using run 2(1) by (auto simp: copy_from_socket_def Let_def split: if_splits)
    ultimately show ?thesis by (auto simp: copy_inv_def)
  qed
qed

lemma copy_to_output_ok:
  assumes inv: "copy_inv k taken given ob ib s" and run: "copy_to_output k s = Inr t"
  shows "copy_inv k taken given ob ib t \<and> fdw_write_count (sc_output t) \<noteq> fdw_write_count (sc_output s)"
proof -
  let ?m = "min max_copy_length (bs_buffer_size (sc_inbound s))"
  note i = inv [unfolded copy_inv_def]
  obtain n fd w where w: "fd_write k (bview_of_string (bs_peek_output (sc_inbound s) ?m)) False (sc_output s) (sc_world s)
      = Inr (n, fd, w)" using run by (auto simp: copy_to_output_def Let_def elim!: bind_resE)
  have fl: "kernel_ok k taken given"
      "flow ib (taken (sc_world s) (fdw_fd (sc_socket s))) (given (sc_world s) 1) (sc_inbound s)"
    using i by blast+
  note f = flow_write [OF fl w]
  let ?s = "s\<lparr>sc_output := fd, sc_world := w, sc_inbound := bs_pop_output (sc_inbound s) n\<rparr>"
  have s: "copy_inv k taken given ob ib ?s" using i f by (simp add: copy_inv_def)
  have fd: "fdw_write_count fd = fdw_write_count (sc_output s) + 1" using f(1) by simp
  show ?thesis
  proof (cases "bs_eof (bs_pop_output (sc_inbound s) n)")
    case False
    then have "t = ?s" using run w by (simp add: copy_to_output_def Let_def)
    then show ?thesis using s fd by simp
  next
    case True
    then obtain fd' w' where sd: "fd_close k fd w = Inr (fd', w')"
        and t: "t = ?s\<lparr>sc_output := fd', sc_world := w', sc_inbound_shutdown := True\<rparr>"
      using run w by (auto simp: copy_to_output_def Let_def elim!: bind_resE)
    show ?thesis using s fd fd_close_ok [OF fl(1) sd] unfolding t by (simp add: copy_inv_def)
  qed
qed

lemma copy_rules_eq: "copy_rules k =
  [\<lparr>rl_fd = sc_input, rl_direction = In, rl_callback = copy_from_input k,
     rl_interest = copy_from_input_interest, rl_cancel = copy_end_outbound\<rparr>,
   \<lparr>rl_fd = sc_socket, rl_direction = Out, rl_callback = copy_to_socket k,
     rl_interest = copy_to_socket_interest, rl_cancel = copy_end_outbound\<rparr>,
   \<lparr>rl_fd = sc_socket, rl_direction = In, rl_callback = copy_from_socket k,
     rl_interest = copy_from_socket_interest, rl_cancel = copy_end_inbound\<rparr>,
   \<lparr>rl_fd = sc_output, rl_direction = Out, rl_callback = copy_to_output k,
     rl_interest = copy_to_output_interest, rl_cancel = copy_end_inbound\<rparr>]"
  by (simp add: copy_rules_def el_add_rule_def)

interpretation copy: event_rules "copy_rules k" "copy_poll k" "copy_inv k taken given ob ib" for k taken given ob ib
proof
  fix r s t
  assume r: "r \<in> set (copy_rules k)" and inv: "copy_inv k taken given ob ib s"
  show "copy_inv k taken given ob ib t" if "rl_callback r s = Inr t"
    using r that copy_from_input_ok [OF inv] copy_to_socket_ok [OF inv] copy_from_socket_ok [OF inv]
      copy_to_output_ok [OF inv]
    by (auto simp: copy_rules_eq)
  show "copy_inv k taken given ob ib t" if "rl_cancel r s = Inr t"
    using r that inv by (auto simp: copy_rules_eq copy_end_outbound_def copy_end_inbound_def copy_inv_def)
  show "rl_service_count r t \<noteq> rl_service_count r s \<or> \<not> rl_interest r t" if "rl_callback r s = Inr t"
    using r that copy_from_input_ok [OF inv] copy_to_socket_ok [OF inv] copy_from_socket_ok [OF inv]
      copy_to_output_ok [OF inv]
    by (auto simp: copy_rules_eq rl_service_count_def)
next
  fix s fds n
  assume inv: "copy_inv k taken given ob ib s"
  obtain p w where p: "k_poll k fds n (sc_world s) = (p, w)" by (metis surj_pair)
  then show "copy_inv k taken given ob ib (snd (copy_poll k fds n s))
      \<and> length (snd (fst (copy_poll k fds n s))) = length fds"
    using inv kernel_okD(5) [OF _ p, of taken given] by (auto simp: copy_inv_def copy_poll_def)
qed

text \<open>The exceptions of the callbacks.\<close>

lemma flow_write_error:
  assumes "kernel_ok k taken given" and "bs_inv st"
    and "fd_write k (bview_of_string (bs_peek_output st m)) False fd w = Inl e"
  shows "write_error e"
proof -
  have "length (bs_peek_output st m) \<le> unat (bs_capacity st)"
    using length_contents_le [of st] assms(2) by (simp add: ring.peek_contents)
  then have "length (concat (bview_of_string (bs_peek_output st m))) < 2 ^ 63"
    using bs_shapeD(1) [of st] assms(2) by (simp add: bview_of_string_def)
  then show ?thesis using assms(3) unfolding fd_write_def
    by (cases rule: fd_write_cases [OF kernel_okD(2) [OF assms(1)], of
          "bview_of_string (bs_peek_output st m)" 0 fd w "Inl e"]) simp_all
qed

lemma copy_thrown:
  assumes "event_rules.thrown (copy_rules k) (copy_inv k taken given ob ib) e"
  shows "(\<exists>call n. e = System_Error call n) \<or> write_error e"
proof -
  obtain r s where r: "r \<in> set (copy_rules k)" and inv: "copy_inv k taken given ob ib s"
      and e: "rl_callback r s = Inl e \<or> rl_cancel r s = Inl e"
    using assms by (auto simp: copy.thrown_def)
  have k: "kernel_ok k taken given" "bs_inv (sc_outbound s)" "bs_inv (sc_inbound s)"
    using inv by (simp_all add: copy_inv_def flow_def)
  from r e consider "copy_from_input k s = Inl e" | "copy_from_socket k s = Inl e"
    | "copy_to_socket k s = Inl e" | "copy_to_output k s = Inl e"
    by (auto simp: copy_rules_eq copy_end_outbound_def copy_end_inbound_def)
  then show ?thesis
  proof cases
    case 1
    then show ?thesis using fd_read_error [OF kernel_okD(1) [OF k(1)]]
      by (fastforce simp: copy_from_input_def bind_res_eq_Inl Let_def)
  next
    case 2
    then show ?thesis using fd_read_error [OF kernel_okD(1) [OF k(1)]]
      by (fastforce simp: copy_from_socket_def bind_res_eq_Inl Let_def)
  next
    case 3
    then show ?thesis using flow_write_error [OF k(1,2)] SystemCall_error
      by (fastforce simp: copy_to_socket_def bind_res_eq_Inl Let_def sock_shutdown_def SHUT_WR_def SHUT_RD_def
          split: if_splits prod.splits)
  next
    case 4
    then show ?thesis using flow_write_error [OF k(1,3)] SystemCall_error
      by (fastforce simp: copy_to_output_def bind_res_eq_Inl Let_def fd_close_def split: if_splits prod.splits)
  qed
qed

section \<open>Runs\<close>

text \<open>The states that the loop passes through.\<close>

inductive copy_reach :: "'k kernel \<Rightarrow> 'k copy rule list \<Rightarrow> 'k copy \<Rightarrow> 'k copy rule list \<Rightarrow> 'k copy \<Rightarrow> bool"
  for k rules s where
  start: "copy_reach k rules s rules s"
| more: "copy_reach k rules s rules' s' \<Longrightarrow> wait_next_event (copy_poll k) (-1) rules' s' = Inr (rules'', s'', res) \<Longrightarrow>
    copy_reach k rules s rules'' s''"

lemma copy_reach_inv:
  assumes "copy_reach k rules s rules' s'" and "set rules \<subseteq> set (copy_rules k)" and "copy_inv k taken given ob ib s"
  shows "set rules' \<subseteq> set (copy_rules k) \<and> copy_inv k taken given ob ib s'"
  using assms(1)
proof induction
  case (more rules' s' rules'' s'' res)
  then show ?case using copy.wait_inv [OF more.hyps(2)] by blast
qed (use assms(2,3) in simp)

lemma fd_set_blocking_ok:
  assumes "kernel_ok k taken given" and "fd_set_blocking k b fd w = Inr w'"
  shows "taken w' = taken w \<and> given w' = given w"
proof -
  obtain ret w1 where g: "k_getfl k (fdw_fd fd) w = (ret, w1)" by (metis surj_pair)
  obtain fl ret2 w2 where st: "k_setfl k (fdw_fd fd) fl w1 = (ret2, w2)" "w' = w2"
    using assms(2) g by (auto simp: fd_set_blocking_def Let_def elim!: bind_resE split: prod.splits)
  show ?thesis using kernel_okD(6) [OF assms(1) g] kernel_okD(7) [OF assms(1) st(1)] st(2) by simp
qed

lemma copy_start_inv:
  assumes "kernel_ok k taken given" and "copy_start k socket w = Inr s"
    and "fdw_fd socket \<notin> {0, 1}"
    and "\<forall>fd \<in> {0, 1, fdw_fd socket}. taken w fd = [] \<and> given w fd = []"
  shows "copy_inv k taken given [] [] s"
proof -
  obtain inp out w1 w2 w3 where f: "fd_new 0 = Inr inp" "fd_new 1 = Inr out"
      "fd_set_blocking k False socket w = Inr w1" "fd_set_blocking k False inp w1 = Inr w2"
      "fd_set_blocking k False out w2 = Inr w3"
      and s: "s = \<lparr>sc_input = inp, sc_output = out, sc_socket = socket, sc_outbound = bs_new copy_buffer_size,
          sc_inbound = bs_new copy_buffer_size, sc_outbound_shutdown = False, sc_inbound_shutdown = False,
          sc_world = w3\<rparr>"
    using assms(2) by (auto simp: copy_start_def elim!: bind_resE)
  have "taken w3 = taken w" "given w3 = given w"
    using f(3-5) fd_set_blocking_ok [OF assms(1)] by metis+
  moreover have "fdw_fd inp = 0" "fdw_fd out = 1" using f(1,2) by (auto simp: fd_new_def)
  moreover have "flow [] [] [] (bs_new copy_buffer_size)"
    using bs_new_correct [of copy_buffer_size] by (simp add: flow_def copy_buffer_size_def)
  ultimately show ?thesis using assms(1,3,4) by (simp add: s copy_inv_def)
qed

text \<open>An operating system for concrete inputs: the standard input is always ready and has two bytes for
  every read, and its state is the bytes moved so far.\<close>

definition sample_kernel :: "((int \<Rightarrow> bytes) \<times> (int \<Rightarrow> bytes)) kernel" where
  "sample_kernel = \<lparr>
     k_read = (\<lambda>fd n (t, g). let d = take (unat n) [1, 2] in (((int (length d), 0), d), (t(fd := t fd @ d), g))),
     k_writev = (\<lambda>fd iov (t, g). let d = take 10 (concat (map fst iov)) in ((int (length d), 0), (t, g(fd := g fd @ d)))),
     k_close = (\<lambda>fd w. ((0, 0), w)), k_getfl = (\<lambda>fd w. ((0, 0), w)), k_setfl = (\<lambda>fd fl w. ((0, 0), w)),
     k_shutdown = (\<lambda>fd how w. ((0, 0), w)),
     k_recvfrom = (\<lambda>fd n w. (((-1, 11), [], []), w)), k_sendmsg = (\<lambda>fd a iov w. ((-1, 11), w)),
     k_getsockopt = (\<lambda>fd opt w. (((0, 0), 1, 4), w)), k_sockname = (\<lambda>p fd w. (((-1, 88), []), w)),
     k_poll = (\<lambda>fds n w. (((1, 0), map (\<lambda>p. if pf_fd p = 0 then pf_events p else 0) fds), w)),
     k_now = (\<lambda>w. (0, w)), k_socket = (\<lambda>domain type w. ((5, 0), w)),
     k_socketpair = (\<lambda>domain type w. (((0, 0), 6, 7), w)), k_bind = (\<lambda>fd a w. ((0, 0), w)),
     k_connect = (\<lambda>fd a w. ((0, 0), w)), k_listen = (\<lambda>fd n w. ((0, 0), w)), k_accept = (\<lambda>fd w. ((8, 0), w)),
     k_setsockopt = (\<lambda>fd opt x w. ((0, 0), w)), k_open = (\<lambda>path flags w. ((9, 0), w)),
     k_tunsetiff = (\<lambda>fd flags name w. ((0, 0), w))\<rparr>"

lemma sample_kernel_ok: "kernel_ok sample_kernel fst snd"
proof -
  have "read_ok sample_kernel fst snd" by (auto simp: read_ok_def sample_kernel_def Let_def)
  moreover have "take (min (length xs) 10) xs = take 10 xs" for xs :: bytes by (simp add: min_def)
  then have "writev_ok sample_kernel fst snd" by (auto simp: writev_ok_def sample_kernel_def Let_def)
  ultimately show ?thesis by (simp add: kernel_ok_def) (simp add: sample_kernel_def)
qed

lemma sample_poll: "copy_poll sample_kernel fds n s
    = (((1, 0), map (\<lambda>p. if pf_fd p = 0 then pf_events p else 0) fds), s)"
  by (simp add: copy_poll_def sample_kernel_def)

lemma sample_start:
  defines "socket \<equiv> \<lparr>fdw_fd = 3, fdw_eof = False, fdw_closed = False, fdw_read_count = 0, fdw_write_count = 0\<rparr>"
  shows "\<exists>s. copy_start sample_kernel socket (\<lambda>_. [], \<lambda>_. []) = Inr s \<and> sc_world s = (\<lambda>_. [], \<lambda>_. [])
    \<and> sc_input s = socket\<lparr>fdw_fd := 0\<rparr> \<and> sc_output s = socket\<lparr>fdw_fd := 1\<rparr> \<and> sc_socket s = socket
    \<and> sc_outbound s = bs_new copy_buffer_size \<and> sc_inbound s = bs_new copy_buffer_size"
  by (simp add: copy_start_def fd_new_def fd_set_blocking_def sample_kernel_def SystemCall_def to_int_def Let_def
      socket_def)

lemma sample_setup:
  fixes s :: "'k copy"
  defines "fd n \<equiv> \<lparr>fdw_fd = n, fdw_eof = False, fdw_closed = False, fdw_read_count = 0, fdw_write_count = 0\<rparr>"
  assumes "sc_input s = fd 0" "sc_output s = fd 1" "sc_socket s = fd 3"
    "sc_outbound s = bs_new copy_buffer_size" "sc_inbound s = bs_new copy_buffer_size"
  shows "el_setup (copy_rules k) s = Inr (copy_rules k,
    [\<lparr>pf_fd = 0, pf_events = POLLIN, pf_revents = 0\<rparr>, \<lparr>pf_fd = 3, pf_events = 0, pf_revents = 0\<rparr>,
     \<lparr>pf_fd = 3, pf_events = POLLIN, pf_revents = 0\<rparr>, \<lparr>pf_fd = 1, pf_events = 0, pf_revents = 0\<rparr>], True, s)"
proof -
  have "bs_remaining_capacity (bs_new copy_buffer_size) = copy_buffer_size" "bs_buffer_empty (bs_new copy_buffer_size)"
      "\<not> bs_eof (bs_new copy_buffer_size)"
    by (simp_all add: bs_remaining_capacity_def bs_buffer_size_def bs_buffer_empty_def bs_eof_def bs_new_def
        copy_buffer_size_def)
  then show ?thesis
    by (simp add: copy_rules_eq assms copy_from_input_interest_def copy_to_socket_interest_def
        copy_from_socket_interest_def copy_to_output_interest_def) (simp add: copy_buffer_size_def)
qed

text \<open>What has gone into each direction: written already, or waiting.\<close>

definition sent_out :: "('k \<Rightarrow> int \<Rightarrow> bytes) \<Rightarrow> 'k copy \<Rightarrow> bytes" where
  "sent_out given s = given (sc_world s) (fdw_fd (sc_socket s)) @ bs_contents (sc_outbound s)"

definition sent_in :: "('k \<Rightarrow> int \<Rightarrow> bytes) \<Rightarrow> 'k copy \<Rightarrow> bytes" where
  "sent_in given s = given (sc_world s) 1 @ bs_contents (sc_inbound s)"

lemma copy_inv_base: "copy_inv k taken given ob ib s \<Longrightarrow> copy_inv k taken given (sent_out given s) (sent_in given s) s"
  by (auto simp: copy_inv_def sent_out_def sent_in_def intro: flow_base)

lemma copy_inv_prefix:
  "copy_inv k taken given ob ib s \<Longrightarrow> prefix ob (sent_out given s) \<and> prefix ib (sent_in given s)"
  by (simp add: copy_inv_def flow_def sent_out_def sent_in_def)

lemma copy_inv_flow:
  assumes "copy_inv k taken given ob ib s"
  shows "\<exists>refused. taken (sc_world s) 0 = sent_out given s @ refused \<and> (\<not> bs_end_flag (sc_outbound s) \<longrightarrow> refused = [])"
    and "\<exists>refused. taken (sc_world s) (fdw_fd (sc_socket s)) = sent_in given s @ refused
      \<and> (\<not> bs_end_flag (sc_inbound s) \<longrightarrow> refused = [])"
  using assms by (simp_all add: copy_inv_def flow_def sent_out_def sent_in_def)

text \<open>A read that finds its stream open loses nothing, whatever it does to the stream after writing.\<close>

lemma copy_reads_whole:
  assumes inv: "copy_inv k taken given ob ib s"
  shows "\<not> bs_end_flag (sc_outbound s) \<Longrightarrow> copy_from_input k s = Inr t \<Longrightarrow> taken (sc_world t) 0 = sent_out given t"
    and "\<not> bs_end_flag (sc_inbound s) \<Longrightarrow> copy_from_socket k s = Inr t \<Longrightarrow>
      taken (sc_world t) (fdw_fd (sc_socket t)) = sent_in given t"
proof -
  have ok: "read_ok k taken given" using inv kernel_okD(1) by (auto simp: copy_inv_def)
  show "taken (sc_world t) 0 = sent_out given t" if "\<not> bs_end_flag (sc_outbound s)" "copy_from_input k s = Inr t"
  proof (cases rule: fd_read_cases [OF ok refl, of "bs_remaining_capacity (sc_outbound s)" "sc_input s" "sc_world s"])
    case (2 data w')
    have "flow ob (taken (sc_world s) 0 @ data) (given (sc_world s) (fdw_fd (sc_socket s)))
        (fst (bs_write (sc_outbound s) data))"
      using inv 2(2) by (intro flow_fill) (simp_all add: copy_inv_def)
    then have "taken (sc_world s) 0 @ data = given (sc_world s) (fdw_fd (sc_socket s))
        @ bs_contents (fst (bs_write (sc_outbound s) data))"
      using that(1) by (simp add: flow_def)
    then show ?thesis using that(2) 2(1,3,4) inv
      by (auto simp: copy_from_input_def Let_def sent_out_def copy_inv_def split: if_splits)
  qed (use that in \<open>simp add: copy_from_input_def\<close>)
  show "taken (sc_world t) (fdw_fd (sc_socket t)) = sent_in given t"
    if "\<not> bs_end_flag (sc_inbound s)" "copy_from_socket k s = Inr t"
  proof (cases rule: fd_read_cases [OF ok refl, of "bs_remaining_capacity (sc_inbound s)" "sc_socket s" "sc_world s"])
    case (2 data w')
    have "flow ib (taken (sc_world s) (fdw_fd (sc_socket s)) @ data) (given (sc_world s) 1)
        (fst (bs_write (sc_inbound s) data))"
      using inv 2(2) by (intro flow_fill) (simp_all add: copy_inv_def)
    then have "taken (sc_world s) (fdw_fd (sc_socket s)) @ data = given (sc_world s) 1
        @ bs_contents (fst (bs_write (sc_inbound s) data))"
      using that(1) by (simp add: flow_def)
    then show ?thesis using that(2) 2(1,3,4) inv
      by (auto simp: copy_from_socket_def Let_def sent_in_def copy_inv_def split: if_splits)
  qed (use that in \<open>simp add: copy_from_socket_def\<close>)
qed

section \<open>Properties\<close>

text \<open>
  (C11) The copy is faithful in both directions, however the reads and writes are cut. At every moment
  what has been written to the socket followed by what is buffered for it is what has been read from
  the standard input, unless the outbound stream has been ended, when bytes that are read afterwards
  are refused. A read that finds the stream open is taken over whole, also if it ends the stream. And
  whatever happens later, the end of the stream included, nothing that was buffered is lost: what
  was written followed by what was buffered stays a prefix of what is written followed by what is
  buffered. Likewise from the socket to the standard output.
\<close>

theorem stream_copy_faithful:
  assumes "kernel_ok k taken given" and "copy_start k socket w = Inr s" and "fdw_fd socket \<notin> {0, 1}"
    and "\<forall>fd \<in> {0, 1, fdw_fd socket}. taken w fd = [] \<and> given w fd = []"
    and "copy_reach k (copy_rules k) s rules' t" and "copy_reach k rules' t rules'' u"
  shows "(\<exists>refused. taken (sc_world t) 0 = sent_out given t @ refused \<and> (\<not> bs_end_flag (sc_outbound t) \<longrightarrow> refused = []))
    \<and> (\<exists>refused. taken (sc_world t) (fdw_fd (sc_socket t)) = sent_in given t @ refused
        \<and> (\<not> bs_end_flag (sc_inbound t) \<longrightarrow> refused = []))
    \<and> (\<forall>v. \<not> bs_end_flag (sc_outbound t) \<and> copy_from_input k t = Inr v \<longrightarrow> taken (sc_world v) 0 = sent_out given v)
    \<and> (\<forall>v. \<not> bs_end_flag (sc_inbound t) \<and> copy_from_socket k t = Inr v \<longrightarrow>
         taken (sc_world v) (fdw_fd (sc_socket v)) = sent_in given v)
    \<and> prefix (sent_out given t) (sent_out given u) \<and> prefix (sent_in given t) (sent_in given u)"
proof -
  have t: "set rules' \<subseteq> set (copy_rules k)" "copy_inv k taken given [] [] t"
    using copy_reach_inv [OF assms(5) _ copy_start_inv [OF assms(1-4)]] by simp_all
  have "copy_inv k taken given (sent_out given t) (sent_in given t) u"
    using copy_reach_inv [OF assms(6) t(1) copy_inv_base [OF t(2)]] by simp
  then show ?thesis
    using copy_reads_whole [OF t(2)] copy_inv_flow [OF t(2)] copy_inv_prefix by blast
qed

theorem stream_copy_faithful_witness:
  "\<exists>s rules t. copy_reach sample_kernel (copy_rules sample_kernel) s rules t \<and> fst (sc_world t) 0 = [1, 2]
    \<and> sent_out snd t = [1, 2] \<and> prefix (sent_out snd s) (sent_out snd t)"
proof -
  let ?fd = "\<lparr>fdw_fd = 3, fdw_eof = False, fdw_closed = False, fdw_read_count = 0, fdw_write_count = 0\<rparr>"
  obtain s where st: "copy_start sample_kernel ?fd (\<lambda>_. [], \<lambda>_. []) = Inr s" and s: "sc_world s = (\<lambda>_. [], \<lambda>_. [])"
    "sc_input s = ?fd\<lparr>fdw_fd := 0\<rparr>" "sc_output s = ?fd\<lparr>fdw_fd := 1\<rparr>" "sc_socket s = ?fd"
    "sc_outbound s = bs_new copy_buffer_size" "sc_inbound s = bs_new copy_buffer_size"
    using sample_start by blast
  have bs: "bs_remaining_capacity (bs_new copy_buffer_size) = copy_buffer_size"
    by (simp add: bs_remaining_capacity_def bs_buffer_size_def bs_new_def)
  let ?t = "s\<lparr>sc_input := (sc_input s)\<lparr>fdw_read_count := 1\<rparr>, sc_world := ((\<lambda>_. [])(0 := [1, 2]), \<lambda>_. []),
      sc_outbound := fst (bs_write (bs_new copy_buffer_size) [1, 2])\<rparr>"
  have prep: "el_setup (copy_rules sample_kernel) s = Inr (copy_rules sample_kernel,
      [\<lparr>pf_fd = 0, pf_events = POLLIN, pf_revents = 0\<rparr>, \<lparr>pf_fd = 3, pf_events = 0, pf_revents = 0\<rparr>,
       \<lparr>pf_fd = 3, pf_events = POLLIN, pf_revents = 0\<rparr>, \<lparr>pf_fd = 1, pf_events = 0, pf_revents = 0\<rparr>], True, s)"
    by (rule sample_setup) (simp_all add: s)
  have vec: "vec_resize 2 0 (1 # 2 # xs) = [1, 2]" for xs :: bytes by (simp add: vec_resize_def numeral_2_eq_2)
  have rd: "fd_read sample_kernel copy_buffer_size (sc_input s) (sc_world s)
      = Inr ([1, 2], (sc_input s)\<lparr>fdw_read_count := 1\<rparr>, ((\<lambda>_. [])(0 := [1, 2]), \<lambda>_. []))"
    by (simp add: fd_read_def sample_kernel_def SystemCall_def to_int_def s fd_register_read_def vec
        copy_buffer_size_def Let_def)
  have read: "copy_from_input sample_kernel s = Inr ?t"
    using rd by (simp add: copy_from_input_def s bs)
  have w: "wait_next_event (copy_poll sample_kernel) (-1) (copy_rules sample_kernel) s
      = Inr (copy_rules sample_kernel, ?t, Success)"
    using read unfolding wait_next_event_def prep unfolding copy_rules_eq
    by (simp add: sample_poll SystemCall_def to_int_def el_results.simps el_serve_def
        rl_service_count_def s POLLIN_def POLLERR_def POLLNVAL_def POLLHUP_def)
  have reach: "copy_reach sample_kernel (copy_rules sample_kernel) s (copy_rules sample_kernel) ?t"
    using copy_reach.start w by (rule copy_reach.more)
  have t: "fst (sc_world ?t) 0 = [1, 2]" "\<not> bs_end_flag (sc_outbound ?t)" by (simp_all add: bs_new_def)
  note faithful = stream_copy_faithful [OF sample_kernel_ok st _ _ copy_reach.start reach]
    stream_copy_faithful [OF sample_kernel_ok st _ _ reach copy_reach.start]
  have "sent_out snd ?t = [1, 2]" using faithful(2) t by auto
  moreover have "prefix (sent_out snd s) (sent_out snd ?t)" using faithful(1) by simp
  ultimately show ?thesis using reach t(1) by blast
qed

text \<open>
  (C28) The loop only ends with an exception of the operating system: no step of it is mistaken for a busy
  wait or reads past its arrays; what it throws is a failed system call, a write that took nothing, or
  an error that \<open>poll\<close> has reported for a descriptor.
\<close>

theorem stream_copy_exceptions:
  assumes "kernel_ok k taken given" and "copy_start k socket w = Inr s" and "fdw_fd socket \<notin> {0, 1}"
    and "\<forall>fd \<in> {0, 1, fdw_fd socket}. taken w fd = [] \<and> given w fd = []"
    and "copy_reach k (copy_rules k) s rules' t" and "wait_next_event (copy_poll k) (-1) rules' t = Inl e"
  shows "(\<exists>call n. e = System_Error call n) \<or> e = Runtime_Error ''write returned 0 given non-empty input buffer''
    \<or> e = Runtime_Error ''EventLoop: error on polled file descriptor''"
proof -
  have "set rules' \<subseteq> set (copy_rules k)" "copy_inv k taken given [] [] t"
    using copy_reach_inv [OF assms(5) _ copy_start_inv [OF assms(1-4)]] by simp_all
  then have "event_rules.thrown (copy_rules k) (copy_inv k taken given [] []) e \<or> e = POLL_ERROR"
    by (rule copy.wait_throws [OF assms(6)])
  then show ?thesis
    using copy_thrown [of k taken given "[]" "[]" e] unfolding POLL_ERROR_def write_error_def by blast
qed

theorem stream_copy_exceptions_witness:
  "\<exists>k :: ((int \<Rightarrow> bytes) \<times> (int \<Rightarrow> bytes)) kernel. \<exists>s e. wait_next_event (copy_poll k) (-1) (copy_rules k) s = Inl e
    \<and> ((\<exists>call n. e = System_Error call n) \<or> e = Runtime_Error ''write returned 0 given non-empty input buffer''
       \<or> e = Runtime_Error ''EventLoop: error on polled file descriptor'')"
proof -
  let ?k = "sample_kernel\<lparr>k_poll := \<lambda>fds n w. (((1, 0), map (\<lambda>p. 8) fds), w)\<rparr>"
  let ?fd = "\<lparr>fdw_fd = 3, fdw_eof = False, fdw_closed = False, fdw_read_count = 0, fdw_write_count = 0\<rparr>"
  have k: "kernel_ok ?k fst snd"
    using sample_kernel_ok by (simp add: kernel_ok_def read_ok_def writev_ok_def)
  obtain s where "copy_start sample_kernel ?fd (\<lambda>_. [], \<lambda>_. []) = Inr s" and s: "sc_world s = (\<lambda>_. [], \<lambda>_. [])"
    "sc_input s = ?fd\<lparr>fdw_fd := 0\<rparr>" "sc_output s = ?fd\<lparr>fdw_fd := 1\<rparr>" "sc_socket s = ?fd"
    "sc_outbound s = bs_new copy_buffer_size" "sc_inbound s = bs_new copy_buffer_size"
    using sample_start by blast
  then have st: "copy_start ?k ?fd (\<lambda>_. [], \<lambda>_. []) = Inr s" by (simp add: copy_start_def fd_set_blocking_def)
  have p: "copy_poll ?k fds n s = (((1, 0), map (\<lambda>p. 8) fds), s)" for fds n s by (simp add: copy_poll_def)
  have prep: "el_setup (copy_rules ?k) s = Inr (copy_rules ?k,
      [\<lparr>pf_fd = 0, pf_events = POLLIN, pf_revents = 0\<rparr>, \<lparr>pf_fd = 3, pf_events = 0, pf_revents = 0\<rparr>,
       \<lparr>pf_fd = 3, pf_events = POLLIN, pf_revents = 0\<rparr>, \<lparr>pf_fd = 1, pf_events = 0, pf_revents = 0\<rparr>], True, s)"
    by (rule sample_setup) (simp_all add: s)
  have w: "wait_next_event (copy_poll ?k) (-1) (copy_rules ?k) s
      = Inl (Runtime_Error ''EventLoop: error on polled file descriptor'')"
    unfolding wait_next_event_def prep unfolding copy_rules_eq
    by (simp add: p SystemCall_def to_int_def el_results.simps POLLERR_def POLLNVAL_def Let_def)
  show ?thesis using stream_copy_exceptions [OF k st _ _ copy_reach.start w] w by blast
qed

end
