(* ===== verification/Sponge_Socket.thy ===== *)
theory Sponge_Socket
  imports Event_Loop Datagram_Adapter Stream_Copy TCP_Network
begin

text \<open>
  The socket that hides a connection behind a pair of connected local sockets
  (\<open>libsponge/tcp_helpers/tcp_sponge_socket.hh\<close>, \<open>tcp_sponge_socket.cc\<close>): the four rules of its event
  loop, the loop, opening and listening, and the body of its thread. The adapter is a parameter, as it
  is in the source; so is the flag with which the owner's thread asks for an abort. What is printed is
  left out.
\<close>

section \<open>State\<close>

record ('a, 'k) sponge =
  sp_socket :: file_descriptor
  sp_thread_data :: file_descriptor
  sp_datagram_adapter :: 'a
  sp_tcp :: "tcp_connection option"
  sp_inbound_shutdown :: bool
  sp_outbound_shutdown :: bool
  sp_fully_acked :: bool
  sp_world :: 'k

definition TCP_TICK_MS :: int where
  "TCP_TICK_MS = 10"

text \<open>\<open>_tcp->\<close> and \<open>_tcp.value()\<close>.\<close>

definition sp_deref :: "('a, 'k) sponge \<Rightarrow> tcp_connection result" where
  "sp_deref s = (case sp_tcp s of None \<Rightarrow> Inl (Undefined_Behaviour ''optional::operator->'') | Some c \<Rightarrow> Inr c)"

definition sp_value :: "('a, 'k) sponge \<Rightarrow> tcp_connection result" where
  "sp_value s = (case sp_tcp s of None \<Rightarrow> Inl Bad_Optional_Access | Some c \<Rightarrow> Inr c)"

text \<open>The tests of interest run only while there is a connection.\<close>

definition sp_test :: "(tcp_connection \<Rightarrow> bool) \<Rightarrow> ('a, 'k) sponge \<Rightarrow> bool" where
  "sp_test P s = (case sp_tcp s of None \<Rightarrow> False | Some c \<Rightarrow> P c)"

section \<open>The rules\<close>

text \<open>Rule 1: a datagram.\<close>

definition sp_receive :: "('a, 'k) adapter_ops \<Rightarrow> ('a, 'k) sponge \<Rightarrow> ('a, 'k) sponge result" where
  "sp_receive ops s =
     bind_res (ad_read ops (sp_datagram_adapter s) (sp_world s)) (\<lambda>(a, seg, w).
     let s = s\<lparr>sp_datagram_adapter := a, sp_world := w\<rparr> in
     bind_res (case seg of None \<Rightarrow> Inr s
        | Some seg \<Rightarrow> bind_res (sp_deref s) (\<lambda>c.
            bind_res (conn_segment_received seg c) (\<lambda>c. Inr (s\<lparr>sp_tcp := Some c\<rparr>)))) (\<lambda>s.
     if fdw_eof (sp_thread_data s)
     then bind_res (sp_value s) (\<lambda>c. Inr (if conn_bytes_in_flight c = 0 \<and> \<not> sp_fully_acked s
            then s\<lparr>sp_fully_acked := True\<rparr> else s))
     else Inr s))"

definition sp_receive_interest :: "('a, 'k) sponge \<Rightarrow> bool" where
  "sp_receive_interest = sp_test conn_active"

text \<open>Rule 2: bytes from the owner.\<close>

definition sp_outbound :: "'k kernel \<Rightarrow> ('a, 'k) sponge \<Rightarrow> ('a, 'k) sponge result" where
  "sp_outbound k s =
     bind_res (sp_deref s) (\<lambda>c.
     bind_res (fd_read k (conn_remaining_outbound_capacity c) (sp_thread_data s) (sp_world s)) (\<lambda>(data, fd, w).
     let s = s\<lparr>sp_thread_data := fd, sp_world := w\<rparr>; len = size_of data in
     bind_res (conn_write data c) (\<lambda>(c, amount_written).
     if amount_written \<noteq> len
     then Inl (Runtime_Error ''TCPConnection::write() accepted less than advertised length'')
     else if fdw_eof (sp_thread_data s)
     then bind_res (conn_end_input_stream c) (\<lambda>c. Inr (s\<lparr>sp_tcp := Some c, sp_outbound_shutdown := True\<rparr>))
     else Inr (s\<lparr>sp_tcp := Some c\<rparr>))))"

definition sp_outbound_interest :: "('a, 'k) sponge \<Rightarrow> bool" where
  "sp_outbound_interest s \<longleftrightarrow> sp_test conn_active s \<and> \<not> sp_outbound_shutdown s
     \<and> sp_test (\<lambda>c. conn_remaining_outbound_capacity c > 0) s"

definition sp_outbound_cancel :: "('a, 'k) sponge \<Rightarrow> ('a, 'k) sponge result" where
  "sp_outbound_cancel s =
     bind_res (sp_deref s) (\<lambda>c. bind_res (conn_end_input_stream c) (\<lambda>c.
       Inr (s\<lparr>sp_tcp := Some c, sp_outbound_shutdown := True\<rparr>)))"

text \<open>Rule 3: bytes for the owner. \<open>inbound_stream()\<close> is a reference into the connection.\<close>

definition conn_inbound_stream :: "tcp_connection \<Rightarrow> byte_stream" where
  "conn_inbound_stream c = rcv_stream_out (conn_receiver c)"

definition conn_pop_inbound :: "size_t \<Rightarrow> tcp_connection \<Rightarrow> tcp_connection" where
  "conn_pop_inbound n c = c\<lparr>conn_receiver := (conn_receiver c)\<lparr>rcv_reassembler :=
     (rcv_reassembler (conn_receiver c))\<lparr>sr_output :=
       bs_pop_output (sr_output (rcv_reassembler (conn_receiver c))) n\<rparr>\<rparr>\<rparr>"

definition sp_inbound :: "'k kernel \<Rightarrow> ('a, 'k) sponge \<Rightarrow> ('a, 'k) sponge result" where
  "sp_inbound k s =
     bind_res (sp_deref s) (\<lambda>c.
     let amount_to_write = min 65536 (bs_buffer_size (conn_inbound_stream c));
         buffer = bs_peek_output (conn_inbound_stream c) amount_to_write
     in bind_res (fd_write k (bview_of_string buffer) False (sp_thread_data s) (sp_world s)) (\<lambda>(bytes_written, fd, w).
        let c = conn_pop_inbound bytes_written c;
            s = s\<lparr>sp_thread_data := fd, sp_world := w, sp_tcp := Some c\<rparr>
        in if bs_eof (conn_inbound_stream c) \<or> bs_error (conn_inbound_stream c)
           then bind_res (sock_shutdown k SHUT_WR (sp_thread_data s) (sp_world s)) (\<lambda>(fd, w).
                Inr (s\<lparr>sp_thread_data := fd, sp_world := w, sp_inbound_shutdown := True\<rparr>))
           else Inr s))"

definition sp_inbound_interest :: "('a, 'k) sponge \<Rightarrow> bool" where
  "sp_inbound_interest s \<longleftrightarrow> sp_test (\<lambda>c. \<not> bs_buffer_empty (conn_inbound_stream c)) s
     \<or> sp_test (\<lambda>c. bs_eof (conn_inbound_stream c) \<or> bs_error (conn_inbound_stream c)) s \<and> \<not> sp_inbound_shutdown s"

text \<open>Rule 4: the queue of segments; the loop ends with the queue.\<close>

fun sp_send_loop :: "('a, 'k) adapter_ops \<Rightarrow> tcp_segment list \<Rightarrow> tcp_connection \<Rightarrow> ('a, 'k) sponge
    \<Rightarrow> ('a, 'k) sponge result" where
  "sp_send_loop ops [] c s = Inr (s\<lparr>sp_tcp := Some c\<rparr>)"
| "sp_send_loop ops (seg # queue) c s =
     bind_res (ad_write ops seg (sp_datagram_adapter s) (sp_world s)) (\<lambda>(a, w).
       sp_send_loop ops queue (conn_pop c) (s\<lparr>sp_datagram_adapter := a, sp_world := w\<rparr>))"

definition sp_send :: "('a, 'k) adapter_ops \<Rightarrow> ('a, 'k) sponge \<Rightarrow> ('a, 'k) sponge result" where
  "sp_send ops s = bind_res (sp_deref s) (\<lambda>c. sp_send_loop ops (conn_segments_out c) c s)"

definition sp_send_interest :: "('a, 'k) sponge \<Rightarrow> bool" where
  "sp_send_interest = sp_test (\<lambda>c. conn_segments_out c \<noteq> [])"

definition sp_rules :: "('a, 'k) adapter_ops \<Rightarrow> 'k kernel \<Rightarrow> ('a, 'k) sponge rule list" where
  "sp_rules ops k =
     (let adapter_fd = (\<lambda>s. ad_fd ops (sp_datagram_adapter s));
          rules = [];
          rules = el_add_rule rules adapter_fd In (sp_receive ops) sp_receive_interest Inr;
          rules = el_add_rule rules sp_thread_data In (sp_outbound k) sp_outbound_interest sp_outbound_cancel;
          rules = el_add_rule rules sp_thread_data Out (sp_inbound k) sp_inbound_interest Inr;
          rules = el_add_rule rules adapter_fd Out (sp_send ops) sp_send_interest Inr
      in rules)"

section \<open>The loop\<close>

definition sp_poll :: "'k kernel \<Rightarrow> ('a, 'k) sponge poll" where
  "sp_poll k fds timeout_ms s = (case k_poll k fds timeout_ms (sp_world s) of (ret, w) \<Rightarrow> (ret, s\<lparr>sp_world := w\<rparr>))"

text \<open>The last part of a round: the clock.\<close>

definition sp_tick :: "('a, 'k) adapter_ops \<Rightarrow> 'k kernel \<Rightarrow> uint64 \<Rightarrow> ('a, 'k) sponge
    \<Rightarrow> (uint64 \<times> ('a, 'k) sponge) result" where
  "sp_tick ops k base_time s =
     bind_res (sp_value s) (\<lambda>c.
       if conn_active c
       then case k_now k (sp_world s) of (next_time, w) \<Rightarrow>
            bind_res (conn_tick (next_time - base_time) c) (\<lambda>c.
            Inr (next_time, s\<lparr>sp_tcp := Some c, sp_world := w,
              sp_datagram_adapter := ad_tick ops (next_time - base_time) (sp_datagram_adapter s)\<rparr>))
       else Inr (base_time, s))"

text \<open>One round; the flag says whether the loop goes on. \<open>aborted\<close> reads the flag of the owner.\<close>

definition sp_round :: "('a, 'k) adapter_ops \<Rightarrow> 'k kernel \<Rightarrow> ('k \<Rightarrow> bool) \<Rightarrow> uint64 \<Rightarrow> ('a, 'k) sponge rule list
    \<Rightarrow> ('a, 'k) sponge \<Rightarrow> (bool \<times> uint64 \<times> ('a, 'k) sponge rule list \<times> ('a, 'k) sponge) result" where
  "sp_round ops k aborted base_time rules s =
     bind_res (wait_next_event (sp_poll k) TCP_TICK_MS rules s) (\<lambda>(rules, s, ret).
       if ret = Exit \<or> aborted (sp_world s) then Inr (False, base_time, rules, s)
       else bind_res (sp_tick ops k base_time s) (\<lambda>(base_time, s). Inr (True, base_time, rules, s)))"

partial_function (option) sp_while :: "('a, 'k) adapter_ops \<Rightarrow> 'k kernel \<Rightarrow> ('k \<Rightarrow> bool)
    \<Rightarrow> (('a, 'k) sponge \<Rightarrow> bool) \<Rightarrow> uint64 \<Rightarrow> ('a, 'k) sponge rule list \<Rightarrow> ('a, 'k) sponge
    \<Rightarrow> (('a, 'k) sponge rule list \<times> ('a, 'k) sponge) result option" where
  "sp_while ops k aborted condition base_time rules s =
     (if \<not> condition s then Some (Inr (rules, s))
      else case sp_round ops k aborted base_time rules s of
        Inl e \<Rightarrow> Some (Inl e)
      | Inr (go_on, base_time, rules, s) \<Rightarrow>
          if go_on then sp_while ops k aborted condition base_time rules s else Some (Inr (rules, s)))"

definition sp_tcp_loop :: "('a, 'k) adapter_ops \<Rightarrow> 'k kernel \<Rightarrow> ('k \<Rightarrow> bool) \<Rightarrow> (('a, 'k) sponge \<Rightarrow> bool)
    \<Rightarrow> ('a, 'k) sponge rule list \<Rightarrow> ('a, 'k) sponge \<Rightarrow> (('a, 'k) sponge rule list \<times> ('a, 'k) sponge) result option" where
  "sp_tcp_loop ops k aborted condition rules s =
     (case k_now k (sp_world s) of (base_time, w) \<Rightarrow>
        sp_while ops k aborted condition base_time rules (s\<lparr>sp_world := w\<rparr>))"

section \<open>Opening and closing\<close>

definition sp_new :: "'k kernel \<Rightarrow> file_descriptor \<times> file_descriptor \<Rightarrow> 'a \<Rightarrow> 'k \<Rightarrow> ('a, 'k) sponge result" where
  "sp_new k data_socket_pair datagram_interface w =
     bind_res (local_socket_of_fd k (fst data_socket_pair) w) (\<lambda>(fd1, w).
     bind_res (local_socket_of_fd k (snd data_socket_pair) w) (\<lambda>(fd2, w).
     bind_res (fd_set_blocking k False fd2 w) (\<lambda>w.
     Inr \<lparr>sp_socket = fd1, sp_thread_data = fd2, sp_datagram_adapter = datagram_interface, sp_tcp = None,
          sp_inbound_shutdown = False, sp_outbound_shutdown = False, sp_fully_acked = False, sp_world = w\<rparr>)))"

definition socket_pair_helper :: "'k kernel \<Rightarrow> int \<Rightarrow> 'k \<Rightarrow> ((file_descriptor \<times> file_descriptor) \<times> 'k) result" where
  "socket_pair_helper k type w =
     (case k_socketpair k AF_UNIX_domain type w of ((ret, fd0, fd1), w) \<Rightarrow>
        bind_res (SystemCall ''socketpair'' ret 0) (\<lambda>_.
        bind_res (fd_new fd0) (\<lambda>a. bind_res (fd_new fd1) (\<lambda>b. Inr ((a, b), w)))))"

definition sp_create :: "'k kernel \<Rightarrow> 'a \<Rightarrow> 'k \<Rightarrow> ('a, 'k) sponge result" where
  "sp_create k datagram_interface w =
     bind_res (socket_pair_helper k SOCK_STREAM w) (\<lambda>(data_socket_pair, w).
       sp_new k data_socket_pair datagram_interface w)"

definition sp_initialize_TCP :: "('a, 'k) adapter_ops \<Rightarrow> 'k kernel \<Rightarrow> uint32 \<Rightarrow> tcp_config \<Rightarrow> ('a, 'k) sponge
    \<Rightarrow> ('a, 'k) sponge rule list \<times> ('a, 'k) sponge" where
  "sp_initialize_TCP ops k random config s = (sp_rules ops k, s\<lparr>sp_tcp := Some (conn_new random config)\<rparr>)"

text \<open>\<open>connect\<close> up to its loop.\<close>

definition sp_open :: "('a, 'k) adapter_ops \<Rightarrow> 'k kernel \<Rightarrow> uint32 \<Rightarrow> tcp_config \<Rightarrow> fd_adapter_config
    \<Rightarrow> ('a, 'k) sponge \<Rightarrow> (('a, 'k) sponge rule list \<times> ('a, 'k) sponge) result" where
  "sp_open ops k random c_tcp c_ad s =
     (if sp_tcp s \<noteq> None then Inl (Runtime_Error ''connect() with TCPConnection already initialized'')
      else case sp_initialize_TCP ops k random c_tcp s of (rules, s) \<Rightarrow>
        let s = s\<lparr>sp_datagram_adapter := ad_set_config ops c_ad (sp_datagram_adapter s)\<rparr> in
        bind_res (sp_deref s) (\<lambda>c. bind_res (conn_connect c) (\<lambda>c.
        if \<not> conn_in c ST_SYN_SENT
        then Inl (Runtime_Error (''After TCPConnection::connect(), state was '' @ ts_name (conn_state c)
               @ '' but expected '' @ ts_name (ts_of_state ST_SYN_SENT)))
        else Inr (rules, s\<lparr>sp_tcp := Some c\<rparr>))))"

definition sp_connect :: "('a, 'k) adapter_ops \<Rightarrow> 'k kernel \<Rightarrow> ('k \<Rightarrow> bool) \<Rightarrow> uint32 \<Rightarrow> tcp_config
    \<Rightarrow> fd_adapter_config \<Rightarrow> ('a, 'k) sponge \<Rightarrow> (('a, 'k) sponge rule list \<times> ('a, 'k) sponge) result option" where
  "sp_connect ops k aborted random c_tcp c_ad s =
     (case sp_open ops k random c_tcp c_ad s of
        Inl e \<Rightarrow> Some (Inl e)
      | Inr (rules, s) \<Rightarrow> sp_tcp_loop ops k aborted (sp_test (\<lambda>c. conn_in c ST_SYN_SENT)) rules s)"

text \<open>\<open>listen_and_accept\<close> up to its loop, and with it.\<close>

definition sp_listen :: "('a, 'k) adapter_ops \<Rightarrow> 'k kernel \<Rightarrow> uint32 \<Rightarrow> tcp_config \<Rightarrow> fd_adapter_config
    \<Rightarrow> ('a, 'k) sponge \<Rightarrow> (('a, 'k) sponge rule list \<times> ('a, 'k) sponge) result" where
  "sp_listen ops k random c_tcp c_ad s =
     (if sp_tcp s \<noteq> None then Inl (Runtime_Error ''listen_and_accept() with TCPConnection already initialized'')
      else case sp_initialize_TCP ops k random c_tcp s of (rules, s) \<Rightarrow>
        Inr (rules, s\<lparr>sp_datagram_adapter :=
          ad_set_listening ops True (ad_set_config ops c_ad (sp_datagram_adapter s))\<rparr>))"

definition sp_listen_and_accept :: "('a, 'k) adapter_ops \<Rightarrow> 'k kernel \<Rightarrow> ('k \<Rightarrow> bool) \<Rightarrow> uint32 \<Rightarrow> tcp_config
    \<Rightarrow> fd_adapter_config \<Rightarrow> ('a, 'k) sponge \<Rightarrow> (('a, 'k) sponge rule list \<times> ('a, 'k) sponge) result option" where
  "sp_listen_and_accept ops k aborted random c_tcp c_ad s =
     (case sp_listen ops k random c_tcp c_ad s of
        Inl e \<Rightarrow> Some (Inl e)
      | Inr (rules, s) \<Rightarrow> sp_tcp_loop ops k aborted
          (sp_test (\<lambda>c. conn_in c ST_LISTEN \<or> conn_in c ST_SYN_RCVD \<or> conn_in c ST_SYN_SENT)) rules s)"

text \<open>The thread: it runs the loop to its end, shuts the owner's end down and destroys the connection.\<close>

definition sp_tcp_main :: "('a, 'k) adapter_ops \<Rightarrow> 'k kernel \<Rightarrow> ('k \<Rightarrow> bool) \<Rightarrow> ('a, 'k) sponge rule list
    \<Rightarrow> ('a, 'k) sponge \<Rightarrow> ('a, 'k) sponge result option" where
  "sp_tcp_main ops k aborted rules s =
     (if sp_tcp s = None then Some (Inl (Runtime_Error ''no TCP''))
      else case sp_tcp_loop ops k aborted (\<lambda>_. True) rules s of
        None \<Rightarrow> None
      | Some (Inl e) \<Rightarrow> Some (Inl e)
      | Some (Inr (rules, s)) \<Rightarrow>
          Some (bind_res (sock_shutdown k SHUT_RDWR (sp_socket s) (sp_world s)) (\<lambda>(fd, w).
            Inr (s\<lparr>sp_socket := fd, sp_world := w, sp_tcp := None\<rparr>))))"

text \<open>\<open>wait_until_closed\<close> before it joins the thread.\<close>

definition sp_wait_until_closed :: "'k kernel \<Rightarrow> ('a, 'k) sponge \<Rightarrow> ('a, 'k) sponge result" where
  "sp_wait_until_closed k s =
     bind_res (sock_shutdown k SHUT_RDWR (sp_socket s) (sp_world s)) (\<lambda>(fd, w).
       Inr (s\<lparr>sp_socket := fd, sp_world := w\<rparr>))"

text \<open>\<open>CS144TCPSocket\<close>: the constructor opens the device \<open>tun144\<close>.\<close>

definition cs144_new :: "getaddrinfo \<Rightarrow> 'k kernel \<Rightarrow> 'k \<Rightarrow> (file_descriptor \<times> fd_adapter, 'k) sponge result" where
  "cs144_new gai k w =
     bind_res (tun_fd_new k [0x74, 0x75, 0x6e, 0x31, 0x34, 0x34] w) (\<lambda>(tun, w).
     bind_res (fa_new gai) (\<lambda>a. sp_create k (tun, a) w))"

text \<open>\<open>CS144TCPSocket::connect\<close>: the configurations that it passes on; \<open>random\<close> is its random port.\<close>

definition cs144_config :: "getaddrinfo \<Rightarrow> uint32 \<Rightarrow> address \<Rightarrow> (tcp_config \<times> fd_adapter_config) result" where
  "cs144_config gai random destination =
     bind_res (fc_default gai) (\<lambda>multiplexer_config.
     bind_res (addr_of_host gai ''169.254.144.9'' (dec_string (unat (ucast random :: uint16)))) (\<lambda>source.
     Inr (cfg_default\<lparr>cfg_rt_timeout := 100\<rparr>,
          multiplexer_config\<lparr>fc_source := source, fc_destination := destination\<rparr>)))"

end
