(* ===== verification/Sponge_Refinement.thy ===== *)
theory Sponge_Refinement
  imports Sponge_Socket
begin

text \<open>
  What the rules and the loop of \<open>TCPSpongeSocket\<close> do to the connection and to the bytes of the owner: the
  socket refines an endpoint of \<open>TCP_Network\<close>. The rules are a set of guarded rules of the event loop.
\<close>

section \<open>The invariant\<close>

text \<open>The socket stands for an endpoint: it holds its connection, and what the endpoint has written and
  read are the bytes that were taken from and given to the owner.\<close>

definition sp_at :: "('k \<Rightarrow> int \<Rightarrow> bytes) \<Rightarrow> ('k \<Rightarrow> int \<Rightarrow> bytes) \<Rightarrow> endpoint \<Rightarrow> ('a, 'k) sponge \<Rightarrow> bool" where
  "sp_at taken given e s \<longleftrightarrow> sp_tcp s = Some (ep_conn e)
     \<and> ep_written e = taken (sp_world s) (fdw_fd (sp_thread_data s))
     \<and> ep_got e = given (sp_world s) (fdw_fd (sp_thread_data s))
     \<and> (bs_end_flag (ep_stream e) \<longrightarrow> sp_outbound_shutdown s)"

definition sp_apart :: "('a, 'k) adapter_ops \<Rightarrow> ('a, 'k) sponge \<Rightarrow> bool" where
  "sp_apart ops s \<longleftrightarrow> fdw_fd (sp_thread_data s) \<noteq> fdw_fd (ad_fd ops (sp_datagram_adapter s))"

definition sp_inv :: "('a, 'k) adapter_ops \<Rightarrow> 'k kernel \<Rightarrow> ('k \<Rightarrow> int \<Rightarrow> bytes) \<Rightarrow> ('k \<Rightarrow> int \<Rightarrow> bytes) \<Rightarrow> endpoint
    \<Rightarrow> ('a, 'k) sponge \<Rightarrow> bool" where
  "sp_inv ops k taken given e0 s \<longleftrightarrow> kernel_ok k taken given \<and> datagram_adapter ops k \<and> bs_inv (ep_stream e0)
     \<and> sp_apart ops s \<and> (\<exists>e. ep_reach e0 e \<and> sp_at taken given e s)"

lemma sp_invE:
  assumes "sp_inv ops k taken given e0 s"
  obtains e where "kernel_ok k taken given" "datagram_adapter ops k" "bs_inv (ep_stream e)" "sp_apart ops s"
    "ep_reach e0 e" "sp_at taken given e s"
  using assms ep_reach_stream unfolding sp_inv_def by blast

lemma sp_invI:
  assumes "sp_inv ops k taken given e0 s" and "sp_apart ops t" and "ep_reach e0 e" and "sp_at taken given e t"
  shows "sp_inv ops k taken given e0 t"
  using assms unfolding sp_inv_def by blast

section \<open>The rules\<close>

text \<open>An exception of the adapter, and of an operation of the connection.\<close>

definition adapter_throws :: "('a, 'k) adapter_ops \<Rightarrow> cpp_error \<Rightarrow> bool" where
  "adapter_throws ops e \<longleftrightarrow> (\<exists>a w. ad_read ops a w = Inl e) \<or> (\<exists>seg a w. ad_write ops seg a w = Inl e)"

definition ep_throws :: "endpoint \<Rightarrow> cpp_error \<Rightarrow> bool" where
  "ep_throws e0 e \<longleftrightarrow> (\<exists>ev f. ep_reach e0 f \<and> ep_step ev f = Inl e)"

text \<open>Rule 1.\<close>

lemma sp_receive_ok:
  assumes inv: "sp_inv ops k taken given e0 s" and run: "sp_receive ops s = Inr t"
  shows "sp_inv ops k taken given e0 t"
    and "fdw_read_count (ad_fd ops (sp_datagram_adapter t)) \<noteq> fdw_read_count (ad_fd ops (sp_datagram_adapter s))"
    and "sp_outbound_shutdown t = sp_outbound_shutdown s"
proof -
  obtain e where e: "kernel_ok k taken given" "datagram_adapter ops k" "sp_apart ops s" "ep_reach e0 e" "sp_at taken given e s"
    using inv by (rule sp_invE)
  obtain a seg w where rd: "ad_read ops (sp_datagram_adapter s) (sp_world s) = Inr (a, seg, w)"
    using run by (auto simp: sp_receive_def bind_res_eq_Inr)
  let ?s = "s\<lparr>sp_datagram_adapter := a, sp_world := w\<rparr>"
  note frame = datagram_adapter.read_frame [OF e(2,1) rd]
  have at: "sp_at taken given e ?s" "sp_apart ops ?s"
    using frame [of "fdw_fd (sp_thread_data s)"] e(3,5) by (auto simp: sp_at_def sp_apart_def)
  obtain c where t: "sp_tcp t = Some c" "sp_world t = w" "sp_thread_data t = sp_thread_data s"
        "sp_datagram_adapter t = a" "sp_outbound_shutdown t = sp_outbound_shutdown s"
      and c: "c = ep_conn e \<or> conn_segment_received (the seg) (ep_conn e) = Inr c"
    using run rd e(5) by (auto simp: sp_receive_def sp_deref_def sp_value_def sp_at_def bind_res_eq_Inr Let_def
        split: option.splits if_splits)
  have "\<exists>f. ep_reach e0 f \<and> sp_at taken given f t"
  proof (cases "c = ep_conn e")
    case True
    then show ?thesis using at e(4) t by (auto simp: sp_at_def)
  next
    case False
    then have st: "ep_step (Ev_Segment (the seg)) e = Inr (e\<lparr>ep_conn := c\<rparr>)" using c by simp
    show ?thesis
      using ep_reach.more [OF e(4) st] ep_step_end [OF st] at t by (auto simp: sp_at_def)
  qed
  then show "sp_inv ops k taken given e0 t" using sp_invI [OF inv] at(2) t by (auto simp: sp_apart_def)
  show "fdw_read_count (ad_fd ops (sp_datagram_adapter t)) \<noteq> fdw_read_count (ad_fd ops (sp_datagram_adapter s))"
    using datagram_adapter.read_moves [OF e(2) rd] t by simp
  show "sp_outbound_shutdown t = sp_outbound_shutdown s" using t by simp
qed

lemma sp_receive_throws:
  assumes "sp_inv ops k taken given e0 s" and "sp_receive ops s = Inl x"
  shows "adapter_throws ops x \<or> ep_throws e0 x"
proof -
  obtain e where e: "ep_reach e0 e" "sp_at taken given e s" using assms(1) by (rule sp_invE)
  then have "(\<exists>a w. ad_read ops a w = Inl x) \<or> (\<exists>sg. conn_segment_received sg (ep_conn e) = Inl x)"
    using assms(2) by (auto simp: sp_receive_def sp_deref_def sp_value_def sp_at_def bind_res_eq_Inl Let_def
        split: option.splits if_splits)
  moreover have "ep_step (Ev_Segment sg) e = Inl x" if "conn_segment_received sg (ep_conn e) = Inl x" for sg
    using that by simp
  ultimately show ?thesis using e(1) unfolding adapter_throws_def ep_throws_def by blast
qed

text \<open>Rule 2.\<close>

lemma sp_end_input_ok:
  assumes "sp_at taken given e s" and "conn_end_input_stream (ep_conn e) = Inr c"
  shows "sp_at taken given (e\<lparr>ep_conn := c\<rparr>) (s\<lparr>sp_tcp := Some c, sp_outbound_shutdown := True\<rparr>)"
  using assms by (simp add: sp_at_def)

lemma sp_outbound_ok:
  assumes inv: "sp_inv ops k taken given e0 s" and run: "sp_outbound k s = Inr t"
  shows "sp_inv ops k taken given e0 t"
    and "fdw_read_count (sp_thread_data t) \<noteq> fdw_read_count (sp_thread_data s)"
proof -
  obtain e where e: "kernel_ok k taken given" "sp_apart ops s" "ep_reach e0 e" "sp_at taken given e s"
    using inv by (rule sp_invE)
  let ?c = "ep_conn e" and ?fd = "sp_thread_data s"
  have tcp: "sp_tcp s = Some ?c" using e(4) by (simp add: sp_at_def)
  obtain data fd w where rd: "fd_read k (conn_remaining_outbound_capacity ?c) ?fd (sp_world s) = Inr (data, fd, w)"
    using run tcp by (auto simp: sp_outbound_def sp_deref_def bind_res_eq_Inr)
  have fd: "fd = (fd_register_read ?fd)\<lparr>fdw_eof := fdw_eof fd\<rparr>"
      and len: "length data \<le> unat (conn_remaining_outbound_capacity ?c)"
      and w: "taken w = (taken (sp_world s))(fdw_fd ?fd := taken (sp_world s) (fdw_fd ?fd) @ data)" "given w = given (sp_world s)"
    by (rule fd_read_cases [OF kernel_okD(1) [OF e(1)] rd]; force)+
  obtain d n where wr: "conn_write data ?c = Inr (d, n)"
    using run tcp rd by (auto simp: sp_outbound_def sp_deref_def bind_res_eq_Inr Let_def)
  then have n: "n = size_of data"
    using run tcp rd by (auto simp: sp_outbound_def sp_deref_def Let_def split: if_splits)
  let ?s = "s\<lparr>sp_thread_data := fd, sp_world := w\<rparr>"
  let ?f = "e\<lparr>ep_conn := d, ep_written := ep_written e @ data\<rparr>"
  have num: "fdw_fd fd = fdw_fd ?fd" "fdw_read_count fd = fdw_read_count ?fd + 1" by (subst fd; simp)+
  have st: "ep_step (Ev_Write data) e = Inr ?f" using wr n unat_size_of_read [OF len] by simp
  have f: "ep_reach e0 ?f" "sp_at taken given ?f (?s\<lparr>sp_tcp := Some d\<rparr>)"
    using ep_reach.more [OF e(3) st] ep_step_end [OF st] e(4) w num by (auto simp: sp_at_def)
  have "sp_apart ops t \<and> (\<exists>f. ep_reach e0 f \<and> sp_at taken given f t) \<and> sp_thread_data t = fd"
  proof (cases "fdw_eof fd")
    case True
    then obtain c where c: "conn_end_input_stream d = Inr c" "t = ?s\<lparr>sp_tcp := Some c, sp_outbound_shutdown := True\<rparr>"
      using run tcp rd wr n by (auto simp: sp_outbound_def sp_deref_def Let_def bind_res_eq_Inr)
    then have "ep_step Ev_End_Input ?f = Inr (?f\<lparr>ep_conn := c\<rparr>)" by simp
    with f(1) have "ep_reach e0 (?f\<lparr>ep_conn := c\<rparr>)" by (rule ep_reach.more)
    moreover have "sp_at taken given (?f\<lparr>ep_conn := c\<rparr>) t" using sp_end_input_ok [OF f(2), of c] c by simp
    ultimately show ?thesis using c(2) e(2) num by (auto simp: sp_apart_def)
  next
    case False
    then have "t = ?s\<lparr>sp_tcp := Some d\<rparr>"
      using run tcp rd wr n by (simp add: sp_outbound_def sp_deref_def Let_def)
    then show ?thesis using f e(2) num by (auto simp: sp_apart_def)
  qed
  then show "sp_inv ops k taken given e0 t" and "fdw_read_count (sp_thread_data t) \<noteq> fdw_read_count (sp_thread_data s)"
    using sp_invI [OF inv] num by auto
qed

lemma sp_outbound_throws:
  assumes inv: "sp_inv ops k taken given e0 s" and still: "\<not> sp_outbound_shutdown s" and run: "sp_outbound k s = Inl x"
  shows "(\<exists>n. x = System_Error ''read'' n) \<or> ep_throws e0 x"
proof -
  obtain e where e: "kernel_ok k taken given" "bs_inv (ep_stream e)" "ep_reach e0 e" "sp_at taken given e s"
    using inv by (rule sp_invE)
  let ?c = "ep_conn e" and ?fd = "sp_thread_data s"
  have tcp: "sp_tcp s = Some ?c" "\<not> bs_end_flag (ep_stream e)" using e(4) still by (auto simp: sp_at_def)
  show ?thesis
  proof (cases "fd_read k (conn_remaining_outbound_capacity ?c) ?fd (sp_world s)")
    case (Inl y)
    then show ?thesis
      using run tcp(1) fd_read_error [OF kernel_okD(1) [OF e(1)] Inl] by (simp add: sp_outbound_def sp_deref_def)
  next
    case (Inr r)
    then obtain data fd w where rd: "fd_read k (conn_remaining_outbound_capacity ?c) ?fd (sp_world s) = Inr (data, fd, w)"
      by (cases r) auto
    have len: "length data \<le> unat (conn_remaining_outbound_capacity ?c)"
      by (rule fd_read_cases [OF kernel_okD(1) [OF e(1)] rd]) auto
    have eq: "sp_outbound k s = bind_res (conn_write data ?c) (\<lambda>(c, n).
        if n \<noteq> size_of data then Inl (Runtime_Error ''TCPConnection::write() accepted less than advertised length'')
        else if fdw_eof fd then bind_res (conn_end_input_stream c) (\<lambda>c. Inr (s\<lparr>sp_thread_data := fd, sp_world := w,
          sp_tcp := Some c, sp_outbound_shutdown := True\<rparr>))
        else Inr (s\<lparr>sp_thread_data := fd, sp_world := w, sp_tcp := Some c\<rparr>))"
      using tcp(1) rd by (simp add: sp_outbound_def sp_deref_def Let_def cong del: if_weak_cong)
    consider "conn_write data ?c = Inl x" | d where "conn_write data ?c = Inr (d, size_of data)" "conn_end_input_stream d = Inl x"
    proof (cases "conn_write data ?c")
      case (Inr r)
      then obtain d n where d: "conn_write data ?c = Inr (d, n)" by (cases r) auto
      moreover have "n = size_of data" using conn_write_whole [OF e(2) tcp(2) len d] .
      ultimately show thesis using that(2) [of d] run unfolding eq by (auto simp: bind_res_eq_Inl split: if_splits)
    qed (use run that(1) in \<open>simp add: eq\<close>)
    then show ?thesis
    proof cases
      case 1
      then have "ep_step (Ev_Write data) e = Inl x" by simp
      then show ?thesis using e(3) unfolding ep_throws_def by blast
    next
      case 2
      then have "ep_step (Ev_Write data) e = Inr (e\<lparr>ep_conn := d, ep_written := ep_written e @ take (unat (size_of data)) data\<rparr>)"
        by simp
      then have "ep_reach e0 (e\<lparr>ep_conn := d, ep_written := ep_written e @ take (unat (size_of data)) data\<rparr>)"
        by (rule ep_reach.more [OF e(3)])
      moreover have "ep_step Ev_End_Input (e\<lparr>ep_conn := d, ep_written := p\<rparr>) = Inl x" for p using 2(2) by simp
      ultimately show ?thesis unfolding ep_throws_def by blast
    qed
  qed
qed

lemma sp_outbound_cancel_ok:
  assumes inv: "sp_inv ops k taken given e0 s"
  shows "sp_outbound_cancel s = Inr t \<Longrightarrow> sp_inv ops k taken given e0 t"
    and "sp_outbound_cancel s = Inl x \<Longrightarrow> ep_throws e0 x"
proof -
  obtain e where e: "sp_apart ops s" "ep_reach e0 e" "sp_at taken given e s" using inv by (rule sp_invE)
  then have eq: "sp_outbound_cancel s = bind_res (conn_end_input_stream (ep_conn e)) (\<lambda>c.
      Inr (s\<lparr>sp_tcp := Some c, sp_outbound_shutdown := True\<rparr>))"
    by (simp add: sp_outbound_cancel_def sp_deref_def sp_at_def)
  show "sp_inv ops k taken given e0 t" if run: "sp_outbound_cancel s = Inr t"
  proof -
    obtain c where c: "conn_end_input_stream (ep_conn e) = Inr c" "t = s\<lparr>sp_tcp := Some c, sp_outbound_shutdown := True\<rparr>"
      using run unfolding eq by (auto simp: bind_res_eq_Inr)
    then have "ep_step Ev_End_Input e = Inr (e\<lparr>ep_conn := c\<rparr>)" by simp
    with e(2) have "ep_reach e0 (e\<lparr>ep_conn := c\<rparr>)" by (rule ep_reach.more)
    then show ?thesis using sp_invI [OF inv] sp_end_input_ok [OF e(3) c(1)] c(2) e(1) by (simp add: sp_apart_def)
  qed
  show "ep_throws e0 x" if "sp_outbound_cancel s = Inl x"
  proof -
    have "ep_step Ev_End_Input e = Inl x" using that unfolding eq by (auto simp: bind_res_eq_Inl)
    then show ?thesis using e(2) unfolding ep_throws_def by blast
  qed
qed

text \<open>Rule 3: what is popped is what was written.\<close>

lemma bs_peek_loop_take: "n \<le> m \<Longrightarrow> bs_peek_loop s i n = take n (bs_peek_loop s i m)"
proof (induction m arbitrary: n i)
  case (Suc m)
  show ?case
  proof (cases "n = 0")
    case False
    then obtain l where n: "n = Suc l" by (auto simp: gr0_conv_Suc)
    have ih: "bs_peek_loop s j l = take l (bs_peek_loop s j m)" for j by (rule Suc.IH) (use Suc.prems n in simp)
    show ?thesis by (simp only: n bs_peek_loop.simps(2) ih [of "bs_next_index_of s i 1"] split: if_split) simp
  qed simp
qed simp

lemma bs_peek_output_take:
  assumes "unat n \<le> length (bs_peek_output s m)"
  shows "bs_peek_output s n = take (unat n) (bs_peek_output s m)"
proof -
  have "unat n \<le> unat m" using assms length_bs_peek_output [of s m] by linarith
  then show ?thesis unfolding bs_peek_output_def by (rule bs_peek_loop_take)
qed

lemma conn_read_eq: "conn_read n c = (conn_pop_inbound n c, bs_peek_output (conn_inbound_stream c) n)"
  by (simp add: conn_read_def rcv_read_def sr_read_def bs_read_def conn_pop_inbound_def conn_inbound_stream_def
      rcv_stream_out_def)

lemma sp_inbound_peek:
  "length (bs_peek_output st (min 65536 (bs_buffer_size st))) \<le> 65536"
proof -
  have "unat (min 65536 (bs_buffer_size st)) \<le> unat (65536 :: size_t)"
    by (simp only: word_le_nat_alt [symmetric] min.cobounded1)
  then show ?thesis using length_bs_peek_output [of st "min 65536 (bs_buffer_size st)"] by simp
qed

lemma sp_inbound_ok:
  assumes inv: "sp_inv ops k taken given e0 s" and run: "sp_inbound k s = Inr t"
  shows "sp_inv ops k taken given e0 t"
    and "fdw_write_count (sp_thread_data t) \<noteq> fdw_write_count (sp_thread_data s)"
    and "sp_outbound_shutdown t = sp_outbound_shutdown s"
proof -
  obtain e where e: "kernel_ok k taken given" "sp_apart ops s" "ep_reach e0 e" "sp_at taken given e s"
    using inv by (rule sp_invE)
  let ?c = "ep_conn e" and ?fd = "sp_thread_data s"
  let ?st = "conn_inbound_stream ?c"
  let ?buf = "bs_peek_output ?st (min 65536 (bs_buffer_size ?st))"
  have tcp: "sp_tcp s = Some ?c" using e(4) by (simp add: sp_at_def)
  obtain n fd w where wr: "fd_write_loop k False (bview_of_string ?buf) 0 ?fd (sp_world s) = Inr (n, fd, w)"
    using run tcp by (auto simp: sp_inbound_def sp_deref_def Let_def bind_res_eq_Inr fd_write_def)
  have "length (concat (bview_of_string ?buf)) < 2 ^ 63" using sp_inbound_peek [of ?st] by (simp add: bview_of_string_def)
  then have w: "fd = fd_register_write ?fd \<and> unat n \<le> length ?buf \<and> taken w = taken (sp_world s)
      \<and> given w = (given (sp_world s))(fdw_fd ?fd := given (sp_world s) (fdw_fd ?fd) @ take (unat n) ?buf)"
    by (rule fd_write_cases [OF kernel_okD(2) [OF e(1)] wr]) (auto simp: bview_of_string_def)
  let ?d = "conn_pop_inbound n ?c"
  let ?f = "e\<lparr>ep_conn := ?d, ep_got := ep_got e @ take (unat n) ?buf\<rparr>"
  let ?s = "s\<lparr>sp_thread_data := fd, sp_world := w, sp_tcp := Some ?d\<rparr>"
  have st: "ep_step (Ev_Read n) e = Inr ?f" using w by (simp add: conn_read_eq bs_peek_output_take)
  have f: "ep_reach e0 ?f" "sp_at taken given ?f ?s"
    using ep_reach.more [OF e(3) st] ep_step_end [OF st] e(4) w by (auto simp: sp_at_def)
  have num: "fdw_fd (sp_thread_data t) = fdw_fd ?fd" "sp_at taken given ?f t"
      "fdw_write_count (sp_thread_data t) \<in> {fdw_write_count ?fd + 1, fdw_write_count ?fd + 1 + 1}"
      "sp_datagram_adapter t = sp_datagram_adapter s" "sp_outbound_shutdown t = sp_outbound_shutdown s"
  proof -
    have "fdw_fd (sp_thread_data t) = fdw_fd ?fd \<and> sp_at taken given ?f t
      \<and> fdw_write_count (sp_thread_data t) \<in> {fdw_write_count ?fd + 1, fdw_write_count ?fd + 1 + 1}
      \<and> sp_datagram_adapter t = sp_datagram_adapter s \<and> sp_outbound_shutdown t = sp_outbound_shutdown s"
    proof (cases "bs_eof (conn_inbound_stream ?d) \<or> bs_error (conn_inbound_stream ?d)")
      case True
      then obtain fd' w' where sd: "sock_shutdown k SHUT_WR fd w = Inr (fd', w')"
          "t = ?s\<lparr>sp_thread_data := fd', sp_world := w', sp_inbound_shutdown := True\<rparr>"
        using run tcp wr by (auto simp: sp_inbound_def sp_deref_def Let_def bind_res_eq_Inr fd_write_def)
      then show ?thesis using sock_shutdown_ok [OF e(1) sd(1)] f(2) w by (auto simp: sp_at_def)
    next
      case False
      then have "t = ?s" using run tcp wr by (simp add: sp_inbound_def sp_deref_def Let_def fd_write_def)
      then show ?thesis using f(2) w by simp
    qed
    then show "fdw_fd (sp_thread_data t) = fdw_fd ?fd" "sp_at taken given ?f t"
      "fdw_write_count (sp_thread_data t) \<in> {fdw_write_count ?fd + 1, fdw_write_count ?fd + 1 + 1}"
      "sp_datagram_adapter t = sp_datagram_adapter s" "sp_outbound_shutdown t = sp_outbound_shutdown s" by blast+
  qed
  show "sp_inv ops k taken given e0 t" using sp_invI [OF inv _ f(1) num(2)] e(2) num by (simp add: sp_apart_def)
  show "fdw_write_count (sp_thread_data t) \<noteq> fdw_write_count ?fd" using num(3) count_plus_neq by auto
  show "sp_outbound_shutdown t = sp_outbound_shutdown s" by (rule num(5))
qed

lemma sp_inbound_throws:
  assumes inv: "sp_inv ops k taken given e0 s" and run: "sp_inbound k s = Inl x"
  shows "(\<exists>call n. x = System_Error call n) \<or> write_error x"
proof -
  obtain e where e: "kernel_ok k taken given" "sp_at taken given e s" using inv by (rule sp_invE)
  let ?c = "ep_conn e" and ?fd = "sp_thread_data s"
  let ?st = "conn_inbound_stream ?c"
  let ?buf = "bs_peek_output ?st (min 65536 (bs_buffer_size ?st))"
  have tcp: "sp_tcp s = Some ?c" using e(2) by (simp add: sp_at_def)
  have len: "length (concat (bview_of_string ?buf)) < 2 ^ 63" using sp_inbound_peek [of ?st] by (simp add: bview_of_string_def)
  have "write_error y" if "fd_write_loop k False (bview_of_string ?buf) 0 ?fd (sp_world s) = Inl y" for y
    by (rule fd_write_cases [OF kernel_okD(2) [OF e(1)] that len]) auto
  moreover have "\<exists>call n. y = System_Error call n" if "sock_shutdown k SHUT_WR fd w = Inl y" for fd w y
    using that SystemCall_error
    by (fastforce simp: sock_shutdown_def SHUT_WR_def SHUT_RD_def bind_res_eq_Inl split: prod.splits)
  ultimately show ?thesis
    using run tcp by (fastforce simp: sp_inbound_def sp_deref_def Let_def bind_res_eq_Inl fd_write_def split: if_splits)
qed

text \<open>Rule 4: the queue is empty afterwards.\<close>

lemma sp_send_loop_ok:
  assumes "sp_send_loop ops queue (ep_conn e) s = Inr t" and "queue = conn_segments_out (ep_conn e)"
    and "kernel_ok k taken given" and "datagram_adapter ops k" and "ep_reach e0 e"
    and "sp_at taken given e (s\<lparr>sp_tcp := Some (ep_conn e)\<rparr>)" and "sp_apart ops s"
  shows "\<exists>f. ep_reach e0 f \<and> sp_at taken given f t \<and> conn_segments_out (ep_conn f) = [] \<and> sp_apart ops t
    \<and> sp_outbound_shutdown t = sp_outbound_shutdown s"
  using assms
proof (induction queue arbitrary: e s)
  case Nil
  then show ?case by (auto simp: sp_apart_def)
next
  case (Cons seg queue)
  obtain a w where wr: "ad_write ops seg (sp_datagram_adapter s) (sp_world s) = Inr (a, w)"
      and rest: "sp_send_loop ops queue (conn_pop (ep_conn e)) (s\<lparr>sp_datagram_adapter := a, sp_world := w\<rparr>) = Inr t"
    using Cons.prems(1) by (auto simp: bind_res_eq_Inr)
  let ?f = "e\<lparr>ep_conn := conn_pop (ep_conn e), ep_sent := ep_sent e @ [seg]\<rparr>"
  let ?s = "s\<lparr>sp_datagram_adapter := a, sp_world := w\<rparr>"
  note frame = datagram_adapter.write_frame [OF Cons.prems(4,3) wr]
  have st: "ep_step Ev_Pop e = Inr ?f" by (simp flip: Cons.prems(2))
  have "sp_at taken given ?f (?s\<lparr>sp_tcp := Some (ep_conn ?f)\<rparr>)"
    using Cons.prems(6,7) ep_step_end [OF st] frame [of "fdw_fd (sp_thread_data s)"] by (auto simp: sp_at_def sp_apart_def)
  moreover have "sp_apart ops ?s" using Cons.prems(7) frame by (simp add: sp_apart_def)
  moreover have "queue = conn_segments_out (conn_pop (ep_conn e))" by (simp add: conn_pop_def flip: Cons.prems(2))
  ultimately show ?case using Cons.IH [of ?f ?s] rest ep_reach.more [OF Cons.prems(5) st] Cons.prems(3,4) by simp
qed

lemma sp_send_ok:
  assumes inv: "sp_inv ops k taken given e0 s" and run: "sp_send ops s = Inr t"
  shows "sp_inv ops k taken given e0 t" and "\<not> sp_send_interest t"
    and "sp_outbound_shutdown t = sp_outbound_shutdown s"
proof -
  obtain e where e: "kernel_ok k taken given" "datagram_adapter ops k" "sp_apart ops s" "ep_reach e0 e" "sp_at taken given e s"
    using inv by (rule sp_invE)
  have "s\<lparr>sp_tcp := Some (ep_conn e)\<rparr> = s" using e(5) by (simp add: sp_at_def)
  moreover have "sp_send_loop ops (conn_segments_out (ep_conn e)) (ep_conn e) s = Inr t"
    using run e(5) by (simp add: sp_send_def sp_deref_def sp_at_def)
  ultimately obtain f where "ep_reach e0 f" "sp_at taken given f t" "conn_segments_out (ep_conn f) = []" "sp_apart ops t"
      "sp_outbound_shutdown t = sp_outbound_shutdown s"
    using sp_send_loop_ok [OF _ refl e(1,2,4) _ e(3)] e(5) by (metis (no_types))
  then show "sp_inv ops k taken given e0 t" "\<not> sp_send_interest t" "sp_outbound_shutdown t = sp_outbound_shutdown s"
    using sp_invI [OF inv] by (auto simp: sp_send_interest_def sp_test_def sp_at_def)
qed

lemma sp_send_loop_throws: "sp_send_loop ops queue c s = Inl x \<Longrightarrow> adapter_throws ops x"
  by (induction ops queue c s rule: sp_send_loop.induct) (auto simp: bind_res_eq_Inl adapter_throws_def)

lemma sp_send_throws:
  assumes "sp_inv ops k taken given e0 s" and "sp_send ops s = Inl x"
  shows "adapter_throws ops x"
proof -
  obtain e where "sp_at taken given e s" using assms(1) by (rule sp_invE)
  then show ?thesis using assms(2) sp_send_loop_throws by (auto simp: sp_send_def sp_deref_def sp_at_def)
qed

section \<open>The rules in the event loop\<close>

definition sp_rule2 :: "'k kernel \<Rightarrow> ('a, 'k) sponge rule" where
  "sp_rule2 k = \<lparr>rl_fd = sp_thread_data, rl_direction = In, rl_callback = sp_outbound k,
     rl_interest = sp_outbound_interest, rl_cancel = sp_outbound_cancel\<rparr>"

lemma sp_rules_eq: "sp_rules ops k =
  [\<lparr>rl_fd = \<lambda>s. ad_fd ops (sp_datagram_adapter s), rl_direction = In, rl_callback = sp_receive ops,
     rl_interest = sp_receive_interest, rl_cancel = Inr\<rparr>,
   sp_rule2 k,
   \<lparr>rl_fd = sp_thread_data, rl_direction = Out, rl_callback = sp_inbound k,
     rl_interest = sp_inbound_interest, rl_cancel = Inr\<rparr>,
   \<lparr>rl_fd = \<lambda>s. ad_fd ops (sp_datagram_adapter s), rl_direction = Out, rl_callback = sp_send ops,
     rl_interest = sp_send_interest, rl_cancel = Inr\<rparr>]"
  by (simp add: sp_rules_def el_add_rule_def sp_rule2_def Let_def)

lemma sp_interests_differ:
  "(sp_inbound_interest :: ('a, 'k) sponge \<Rightarrow> bool) \<noteq> sp_send_interest"
proof
  assume eq: "(sp_inbound_interest :: ('a, 'k) sponge \<Rightarrow> bool) = sp_send_interest"
  let ?s = "undefined\<lparr>sp_tcp := Some ((conn_new 0 cfg_default)\<lparr>conn_segments_out := [seg_new]\<rparr>)\<rparr> :: ('a, 'k) sponge"
  have "sp_send_interest ?s" by (simp add: sp_send_interest_def sp_test_def)
  moreover have "\<not> sp_inbound_interest ?s"
    by (simp add: sp_inbound_interest_def sp_test_def conn_inbound_stream_def conn_new_def rcv_new_def rcv_stream_out_def
        sr_new_def bs_new_def bs_buffer_empty_def bs_eof_def)
  ultimately show False using eq by simp
qed

lemma sp_rules_distinct: "distinct (sp_rules (ops :: ('a, 'k) adapter_ops) k)"
proof -
  have "sp_outbound_cancel (undefined\<lparr>sp_tcp := None\<rparr>) \<noteq> Inr x" for x :: "('a, 'k) sponge"
    by (simp add: sp_outbound_cancel_def sp_deref_def)
  then have "(Inr :: ('a, 'k) sponge \<Rightarrow> ('a, 'k) sponge result) \<noteq> sp_outbound_cancel" by metis
  then show ?thesis using sp_interests_differ by (auto simp: sp_rules_eq sp_rule2_def)
qed

definition sp_ready :: "'k kernel \<Rightarrow> ('a, 'k) sponge rule \<Rightarrow> ('a, 'k) sponge \<Rightarrow> bool" where
  "sp_ready k r s \<longleftrightarrow> (r = sp_rule2 k \<longrightarrow> \<not> sp_outbound_shutdown s)"

lemma sp_rule_cases:
  assumes "r \<in> set (sp_rules ops k)" and "sp_inv ops k taken given e0 s" and "rl_callback r s = Inr t"
  shows "sp_inv ops k taken given e0 t \<and> (rl_service_count r t \<noteq> rl_service_count r s \<or> \<not> rl_interest r t)
    \<and> (r \<noteq> sp_rule2 k \<longrightarrow> sp_outbound_shutdown t = sp_outbound_shutdown s)"
proof -
  consider "rl_callback r = sp_receive ops" "rl_service_count r = (\<lambda>s. fdw_read_count (ad_fd ops (sp_datagram_adapter s)))"
    | "r = sp_rule2 k" "rl_callback r = sp_outbound k" "rl_service_count r = (\<lambda>s. fdw_read_count (sp_thread_data s))"
    | "rl_callback r = sp_inbound k" "rl_service_count r = (\<lambda>s. fdw_write_count (sp_thread_data s))"
    | "rl_callback r = sp_send ops" "rl_interest r = sp_send_interest"
    using assms(1) by (auto simp: sp_rules_eq sp_rule2_def rl_service_count_def fun_eq_iff)
  then show ?thesis
  proof cases
    case 1
    then show ?thesis using sp_receive_ok [OF assms(2)] assms(3) by simp
  next
    case 2
    then show ?thesis using sp_outbound_ok [OF assms(2)] assms(3) by simp
  next
    case 3
    then show ?thesis using sp_inbound_ok [OF assms(2)] assms(3) by simp
  next
    case 4
    then show ?thesis using sp_send_ok [OF assms(2)] assms(3) by simp
  qed
qed

lemma sp_cancel_cases:
  assumes "r \<in> set (sp_rules ops k)"
  shows "rl_cancel r = Inr \<or> r = sp_rule2 k \<and> rl_cancel r = sp_outbound_cancel"
  using assms by (auto simp: sp_rules_eq sp_rule2_def)

lemma sp_poll_inv:
  assumes "sp_inv ops k taken given e0 s"
  shows "sp_inv ops k taken given e0 (snd (sp_poll k fds n s)) \<and> length (snd (fst (sp_poll k fds n s))) = length fds
    \<and> sp_outbound_shutdown (snd (sp_poll k fds n s)) = sp_outbound_shutdown s"
proof -
  obtain e where e: "kernel_ok k taken given" "sp_apart ops s" "ep_reach e0 e" "sp_at taken given e s"
    using assms by (rule sp_invE)
  obtain p w where p: "k_poll k fds n (sp_world s) = (p, w)" by (metis surj_pair)
  then have "sp_at taken given e (s\<lparr>sp_world := w\<rparr>)" using e(4) kernel_okD(5) [OF e(1) p] by (simp add: sp_at_def)
  then show ?thesis
    using sp_invI [OF assms _ e(3)] e(2) p kernel_okD(5) [OF e(1) p] by (simp add: sp_poll_def sp_apart_def)
qed

interpretation sponge_rules: guarded_rules "sp_rules ops k" "sp_poll k" "sp_inv ops k taken given e0" "sp_ready k"
  for ops k taken given e0
proof
  fix r s t
  assume r: "r \<in> set (sp_rules ops k)" and inv: "sp_inv ops k taken given e0 s"
  show "sp_inv ops k taken given e0 t" if "rl_callback r s = Inr t" using sp_rule_cases [OF r inv that] by blast
  show "sp_inv ops k taken given e0 t" if "rl_cancel r s = Inr t"
    using sp_cancel_cases [OF r] that inv sp_outbound_cancel_ok(1) [OF inv, of t] by auto
  show "rl_service_count r t \<noteq> rl_service_count r s \<or> \<not> rl_interest r t" if "rl_callback r s = Inr t"
    using sp_rule_cases [OF r inv that] by blast
next
  fix s fds n
  assume "sp_inv ops k taken given e0 s"
  then show "sp_inv ops k taken given e0 (snd (sp_poll k fds n s)) \<and> length (snd (fst (sp_poll k fds n s))) = length fds"
    using sp_poll_inv by blast
next
  fix r s
  assume "r \<in> set (sp_rules ops k)" and "rl_interest r s"
  then show "sp_ready k r s" by (auto simp: sp_ready_def sp_rule2_def sp_outbound_interest_def)
next
  fix r r' s t
  assume r: "r \<in> set (sp_rules ops k)" "r' \<in> set (sp_rules ops k)" "r \<noteq> r'" and inv: "sp_inv ops k taken given e0 s"
    and ready: "sp_ready k r s"
  show "sp_ready k r t" if "rl_callback r' s = Inr t"
    using sp_rule_cases [OF r(2) inv that] r(3) ready by (auto simp: sp_ready_def)
  show "sp_ready k r t" if "rl_cancel r' s = Inr t"
    using sp_cancel_cases [OF r(2)] that r(3) ready by (auto simp: sp_ready_def)
next
  fix r s fds n
  assume inv: "sp_inv ops k taken given e0 s" and "sp_ready k r s"
  then show "sp_ready k r (snd (sp_poll k fds n s))" using sp_poll_inv [OF inv, of fds n] by (simp add: sp_ready_def)
qed

definition sp_throws :: "('a, 'k) adapter_ops \<Rightarrow> endpoint \<Rightarrow> cpp_error \<Rightarrow> bool" where
  "sp_throws ops e0 x \<longleftrightarrow> (\<exists>call n. x = System_Error call n) \<or> write_error x \<or> x = POLL_ERROR
     \<or> adapter_throws ops x \<or> ep_throws e0 x"

lemma sp_guarded:
  assumes "guarded_rules.guarded (sp_rules ops k) (sp_inv ops k taken given e0) (sp_ready k) x"
  shows "sp_throws ops e0 x"
proof -
  obtain r s where r: "r \<in> set (sp_rules ops k)" and inv: "sp_inv ops k taken given e0 s"
      and x: "sp_ready k r s \<and> rl_callback r s = Inl x \<or> rl_cancel r s = Inl x"
    using assms unfolding sponge_rules.guarded_def by blast
  consider "rl_cancel r s = Inl x" | "rl_callback r = sp_receive ops" "rl_callback r s = Inl x"
    | "sp_ready k r s" "r = sp_rule2 k" "rl_callback r s = Inl x"
    | "rl_callback r = sp_inbound k" "rl_callback r s = Inl x" | "rl_callback r = sp_send ops" "rl_callback r s = Inl x"
    using r x by (auto simp: sp_rules_eq)
  then show ?thesis
  proof cases
    case 1
    then have "sp_outbound_cancel s = Inl x" using sp_cancel_cases [OF r] by auto
    then show ?thesis using sp_outbound_cancel_ok(2) [OF inv] by (simp add: sp_throws_def)
  next
    case 2
    then show ?thesis using sp_receive_throws [OF inv] by (auto simp: sp_throws_def)
  next
    case 3
    then have "sp_outbound k s = Inl x" "\<not> sp_outbound_shutdown s" by (simp_all add: sp_ready_def sp_rule2_def)
    then show ?thesis using sp_outbound_throws [OF inv] by (auto simp: sp_throws_def)
  next
    case 4
    then show ?thesis using sp_inbound_throws [OF inv] by (auto simp: sp_throws_def)
  next
    case 5
    then show ?thesis using sp_send_throws [OF inv] by (auto simp: sp_throws_def)
  qed
qed

section \<open>Rounds of the loop\<close>

lemma sp_tick_ok:
  assumes inv: "sp_inv ops k taken given e0 s"
  shows "sp_tick ops k base s = Inr (base', t) \<Longrightarrow> sp_inv ops k taken given e0 t"
    and "sp_tick ops k base s = Inl x \<Longrightarrow> ep_throws e0 x"
proof -
  obtain e where e: "kernel_ok k taken given" "datagram_adapter ops k" "sp_apart ops s" "ep_reach e0 e" "sp_at taken given e s"
    using inv by (rule sp_invE)
  obtain now w where now: "k_now k (sp_world s) = (now, w)" by (metis surj_pair)
  let ?a = "ad_tick ops (now - base) (sp_datagram_adapter s)"
  have eq: "sp_tick ops k base s = (if conn_active (ep_conn e)
      then bind_res (conn_tick (now - base) (ep_conn e)) (\<lambda>c.
        Inr (now, s\<lparr>sp_tcp := Some c, sp_world := w, sp_datagram_adapter := ?a\<rparr>)) else Inr (base, s))"
    using e(5) now by (simp add: sp_tick_def sp_value_def sp_at_def)
  show "sp_inv ops k taken given e0 t" if run: "sp_tick ops k base s = Inr (base', t)"
  proof (cases "t = s")
    case False
    then obtain c where c: "conn_tick (now - base) (ep_conn e) = Inr c"
        "t = s\<lparr>sp_tcp := Some c, sp_world := w, sp_datagram_adapter := ?a\<rparr>"
      using run unfolding eq by (auto simp: bind_res_eq_Inr split: if_splits)
    then have st: "ep_step (Ev_Tick (now - base)) e = Inr (e\<lparr>ep_conn := c\<rparr>)" by simp
    have "sp_at taken given (e\<lparr>ep_conn := c\<rparr>) t"
      using e(5) c(2) ep_step_end [OF st] kernel_okD(10) [OF e(1) now] by (simp add: sp_at_def)
    moreover have "sp_apart ops t" using e(3) c(2) datagram_adapter.control_frame(3) [OF e(2)] by (simp add: sp_apart_def)
    ultimately show ?thesis using sp_invI [OF inv _ ep_reach.more [OF e(4) st]] by blast
  qed (use inv in simp)
  show "ep_throws e0 x" if "sp_tick ops k base s = Inl x"
  proof -
    have "ep_step (Ev_Tick (now - base)) e = Inl x" using that unfolding eq by (auto simp: bind_res_eq_Inl split: if_splits)
    then show ?thesis using e(4) unfolding ep_throws_def by blast
  qed
qed

definition sp_rules_ok :: "('a, 'k) adapter_ops \<Rightarrow> 'k kernel \<Rightarrow> ('a, 'k) sponge rule list \<Rightarrow> bool" where
  "sp_rules_ok ops k rules \<longleftrightarrow> set rules \<subseteq> set (sp_rules ops k) \<and> distinct rules"

lemma sp_round_ok:
  assumes inv: "sp_inv ops k taken given e0 s" and rules: "sp_rules_ok ops k rules"
  shows "sp_round ops k aborted base rules s = Inr (go_on, base', rules', t) \<Longrightarrow>
      sp_inv ops k taken given e0 t \<and> sp_rules_ok ops k rules'"
    and "sp_round ops k aborted base rules s = Inl x \<Longrightarrow> sp_throws ops e0 x"
proof -
  let ?wait = "wait_next_event (sp_poll k) TCP_TICK_MS rules s"
  have ok: "sp_inv ops k taken given e0 u \<and> sp_rules_ok ops k rs" if "?wait = Inr (rs, u, ret)" for rs u ret
    using sponge_rules.wait_inv [OF that] wait_distinct [OF that] rules inv by (auto simp: sp_rules_ok_def)
  show "sp_inv ops k taken given e0 t \<and> sp_rules_ok ops k rules'"
    if run: "sp_round ops k aborted base rules s = Inr (go_on, base', rules', t)"
  proof -
    obtain rs u ret where w: "?wait = Inr (rs, u, ret)" using run by (auto simp: sp_round_def bind_res_eq_Inr)
    then show ?thesis using ok [OF w] run sp_tick_ok(1) [of ops k taken given e0 u base]
      by (auto simp: sp_round_def bind_res_eq_Inr split: if_splits)
  qed
  show "sp_throws ops e0 x" if run: "sp_round ops k aborted base rules s = Inl x"
  proof (cases ?wait)
    case (Inl y)
    then have "guarded_rules.guarded (sp_rules ops k) (sp_inv ops k taken given e0) (sp_ready k) x \<or> x = POLL_ERROR"
      using run sponge_rules.wait_guarded [OF _ _ _ inv] rules by (auto simp: sp_round_def sp_rules_ok_def)
    then show ?thesis using sp_guarded unfolding sp_throws_def by blast
  next
    case (Inr r)
    then obtain rs u ret where w: "?wait = Inr (rs, u, ret)" by (cases r) auto
    then show ?thesis using ok [OF w] run sp_tick_ok(2) [of ops k taken given e0 u base x]
      by (auto simp: sp_round_def bind_res_eq_Inl sp_throws_def split: if_splits)
  qed
qed

text \<open>The states that the loops pass through: rounds, with any reading of the clock between two loops.\<close>

inductive sp_reach :: "('a, 'k) adapter_ops \<Rightarrow> 'k kernel \<Rightarrow> ('k \<Rightarrow> bool) \<Rightarrow> ('a, 'k) sponge rule list \<Rightarrow> ('a, 'k) sponge
    \<Rightarrow> ('a, 'k) sponge rule list \<Rightarrow> ('a, 'k) sponge \<Rightarrow> bool" for ops k aborted rules s where
  start: "sp_reach ops k aborted rules s rules s"
| clock: "sp_reach ops k aborted rules s rs t \<Longrightarrow> k_now k (sp_world t) = (now, w) \<Longrightarrow>
    sp_reach ops k aborted rules s rs (t\<lparr>sp_world := w\<rparr>)"
| round: "sp_reach ops k aborted rules s rs t \<Longrightarrow> sp_round ops k aborted base rs t = Inr (go_on, base', rs', u) \<Longrightarrow>
    sp_reach ops k aborted rules s rs' u"

lemma sp_reach_trans:
  "sp_reach ops k aborted rs t rs' u \<Longrightarrow> sp_reach ops k aborted rules s rs t \<Longrightarrow> sp_reach ops k aborted rules s rs' u"
  by (induction rule: sp_reach.induct) (auto intro: sp_reach.intros)

lemma sp_while_reach:
  "sp_while ops k aborted condition base rules s = Some res \<Longrightarrow> res = Inr (rules', s') \<Longrightarrow>
    sp_reach ops k aborted rules s rules' s'"
proof (induction arbitrary: rules' s' rule: sp_while.raw_induct [rotated, consumes 1, case_names body])
  case (body loop ops k aborted condition base rules s res)
  show ?case
  proof (cases "condition s")
    case True
    then obtain go_on base1 rs t where r: "sp_round ops k aborted base rules s = Inr (go_on, base1, rs, t)"
      using body(2,3) by (auto split: sum.splits)
    have one: "sp_reach ops k aborted rules s rs t" by (rule sp_reach.round [OF sp_reach.start r])
    show ?thesis
    proof (cases go_on)
      case True
      then have "loop ops k aborted condition base1 rs t = Some res" using body(2) r \<open>condition s\<close> by simp
      from sp_reach_trans [OF body(1) [OF this body(3)] one] show ?thesis .
    qed (use body(2,3) r True one in simp)
  qed (use body(2,3) sp_reach.start in auto)
qed

lemma sp_tcp_loop_reach:
  assumes "sp_tcp_loop ops k aborted condition rules s = Some (Inr (rules', s'))"
  shows "sp_reach ops k aborted rules s rules' s'"
proof -
  obtain now w where now: "k_now k (sp_world s) = (now, w)" by (metis surj_pair)
  then have "sp_reach ops k aborted rules (s\<lparr>sp_world := w\<rparr>) rules' s'"
    using assms sp_while_reach [OF _ refl] by (simp add: sp_tcp_loop_def)
  then show ?thesis using sp_reach_trans sp_reach.clock [OF sp_reach.start now] by metis
qed

lemma sp_reach_inv:
  assumes "sp_reach ops k aborted rules s rules' t" and "sp_inv ops k taken given e0 s" and "sp_rules_ok ops k rules"
  shows "sp_inv ops k taken given e0 t \<and> sp_rules_ok ops k rules'"
  using assms
proof (induction rule: sp_reach.induct)
  case (clock rs t now w)
  then obtain e where e: "kernel_ok k taken given" "sp_apart ops t" "ep_reach e0 e" "sp_at taken given e t"
    by (meson sp_invE)
  have "sp_at taken given e (t\<lparr>sp_world := w\<rparr>)" using e(4) kernel_okD(10) [OF e(1) clock.hyps(2)] by (simp add: sp_at_def)
  moreover have "sp_apart ops (t\<lparr>sp_world := w\<rparr>)" using e(2) by (simp add: sp_apart_def)
  moreover have "sp_inv ops k taken given e0 t" "sp_rules_ok ops k rs" using clock by simp_all
  ultimately show ?case using sp_invI e(3) by blast
next
  case (round rs t base go_on base' rs' u)
  then show ?case using sp_round_ok(1) by blast
qed simp

section \<open>Opening\<close>

definition sp_started :: "('a, 'k) adapter_ops \<Rightarrow> 'k kernel \<Rightarrow> uint32 \<Rightarrow> tcp_config \<Rightarrow> fd_adapter_config \<Rightarrow> ('a, 'k) sponge
    \<Rightarrow> ('a, 'k) sponge rule list \<Rightarrow> ('a, 'k) sponge \<Rightarrow> bool" where
  "sp_started ops k random cfg ad s0 rules s \<longleftrightarrow>
     sp_open ops k random cfg ad s0 = Inr (rules, s) \<or> sp_listen ops k random cfg ad s0 = Inr (rules, s)"

text \<open>A new socket between an owner that has not sent anything and a network.\<close>

definition sp_idle :: "('a, 'k) adapter_ops \<Rightarrow> 'k kernel \<Rightarrow> ('k \<Rightarrow> int \<Rightarrow> bytes) \<Rightarrow> ('k \<Rightarrow> int \<Rightarrow> bytes)
    \<Rightarrow> ('a, 'k) sponge \<Rightarrow> bool" where
  "sp_idle ops k taken given s \<longleftrightarrow> kernel_ok k taken given \<and> datagram_adapter ops k \<and> sp_apart ops s
     \<and> taken (sp_world s) (fdw_fd (sp_thread_data s)) = [] \<and> given (sp_world s) (fdw_fd (sp_thread_data s)) = []"

lemma sp_started_inv:
  assumes idle: "sp_idle ops k taken given s0" and cfg: "cfg_ok cfg" and st: "sp_started ops k random cfg ad s0 rules s"
  shows "sp_inv ops k taken given (ep_new random cfg) s \<and> sp_rules_ok ops k rules"
proof -
  let ?e = "ep_new random cfg"
  note frame = datagram_adapter.control_frame [of ops k]
  obtain a e where s: "s = s0\<lparr>sp_tcp := Some (ep_conn e), sp_datagram_adapter := a\<rparr>" "rules = sp_rules ops k"
      "ad_fd ops a = ad_fd ops (sp_datagram_adapter s0)"
      and e: "ep_reach ?e e" "ep_written e = []" "ep_got e = []" "\<not> bs_end_flag (ep_stream e)"
    using st unfolding sp_started_def
  proof
    assume "sp_open ops k random cfg ad s0 = Inr (rules, s)"
    then obtain c where c: "conn_connect (conn_new random cfg) = Inr c" "rules = sp_rules ops k"
        "s = s0\<lparr>sp_tcp := Some c, sp_datagram_adapter := ad_set_config ops ad (sp_datagram_adapter s0)\<rparr>"
      by (auto simp: sp_open_def sp_initialize_TCP_def sp_deref_def bind_res_eq_Inr Let_def split: if_splits)
    then have step: "ep_step Ev_Connect ?e = Inr (?e\<lparr>ep_conn := c\<rparr>)" by (simp add: ep_new_def)
    show thesis
      by (rule that [where e = "?e\<lparr>ep_conn := c\<rparr>" and a = "ad_set_config ops ad (sp_datagram_adapter s0)"])
        (use c frame idle ep_reach.more [OF ep_reach.start step] ep_step_end [OF step] in
          \<open>simp_all add: sp_idle_def ep_new_def conn_new_def snd_new_def bs_new_def\<close>)
  next
    assume "sp_listen ops k random cfg ad s0 = Inr (rules, s)"
    then show thesis
      by (intro that [where e = ?e and a = "ad_set_listening ops True (ad_set_config ops ad (sp_datagram_adapter s0))"])
        (use frame idle ep_reach.start in
          \<open>auto simp: sp_listen_def sp_initialize_TCP_def sp_idle_def ep_new_def conn_new_def snd_new_def bs_new_def split: if_splits\<close>)
  qed
  have "sp_at taken given e s" using s(1) e idle by (simp add: sp_at_def sp_idle_def)
  then show ?thesis
    using s e(1) idle cfg ep_new_stream sp_rules_distinct by (auto simp: sp_inv_def sp_idle_def sp_apart_def sp_rules_ok_def)
qed

section \<open>Properties\<close>

text \<open>A small socket over UDP, whose owner is descriptor 0, which the sample system reports as ready.\<close>

abbreviation sample_fd :: "int \<Rightarrow> file_descriptor" where
  "sample_fd n \<equiv> \<lparr>fdw_fd = n, fdw_eof = False, fdw_closed = False, fdw_read_count = 0, fdw_write_count = 0\<rparr>"

abbreviation sample_ad :: fd_adapter_config where
  "sample_ad \<equiv> \<lparr>fc_source = addr_in 1 2, fc_destination = addr_in 3 4, fc_loss_rate_dn = 0, fc_loss_rate_up = 0\<rparr>"

abbreviation sample_cfg :: tcp_config where
  "sample_cfg \<equiv> cfg_default\<lparr>cfg_recv_capacity := 4, cfg_send_capacity := 4,
     cfg_fixed_isn := Some (WrappingInt32 0xffffffff)\<rparr>"

abbreviation sample_sponge :: "(file_descriptor \<times> fd_adapter, (int \<Rightarrow> bytes) \<times> (int \<Rightarrow> bytes)) sponge" where
  "sample_sponge \<equiv> \<lparr>sp_socket = sample_fd 6, sp_thread_data = sample_fd 0,
     sp_datagram_adapter = (sample_fd 5, \<lparr>fa_config = sample_ad, fa_listening = False\<rparr>),
     sp_tcp = None, sp_inbound_shutdown = False, sp_outbound_shutdown = False, sp_fully_acked = False,
     sp_world = (\<lambda>_. [], \<lambda>_. [])\<rparr>"

lemma sample_idle: "sp_idle (udp_ops sample_gni sample_kernel) sample_kernel fst snd sample_sponge"
  using sample_kernel_ok udp_datagrams.datagram_adapter_axioms
  by (simp add: sp_idle_def sp_apart_def udp_ops_def plain_ops_def)

lemma sample_run: "case sp_open (udp_ops sample_gni sample_kernel) sample_kernel 0 sample_cfg sample_ad sample_sponge of
     Inl x \<Rightarrow> False
   | Inr (rules, s) \<Rightarrow> (case sp_round (udp_ops sample_gni sample_kernel) sample_kernel (\<lambda>_. False) 0 rules s of
       Inl x \<Rightarrow> False | Inr (go_on, base, rules', t) \<Rightarrow> fst (sp_world t) 0 = [1, 2])"
  by code_simp

text \<open>
  (C10) A socket refines an endpoint of the network: whatever the owner, the network, the clock and the
  scheduler of the event loop do after \<open>connect\<close> or \<open>listen_and_accept\<close> has set the socket up, its
  connection has only gone through operations of \<open>TCPConnection\<close>, the bytes that the connection was given
  to send are exactly the bytes that were read from the owner, and the bytes that were written to the
  owner are exactly the bytes that were taken out of the connection, in the same order.
\<close>

theorem sponge_refines_endpoint:
  assumes "sp_idle ops k taken given s0" and "cfg_ok cfg" and "sp_started ops k random cfg ad s0 rules s"
    and "sp_reach ops k aborted rules s rules' t"
  shows "\<exists>e. ep_reach (ep_new random cfg) e \<and> sp_tcp t = Some (ep_conn e)
    \<and> ep_written e = taken (sp_world t) (fdw_fd (sp_thread_data t))
    \<and> ep_got e = given (sp_world t) (fdw_fd (sp_thread_data t))"
proof -
  have "sp_inv ops k taken given (ep_new random cfg) t"
    using sp_reach_inv [OF assms(4)] sp_started_inv [OF assms(1-3)] by blast
  then show ?thesis unfolding sp_inv_def sp_at_def by blast
qed

theorem sponge_refines_endpoint_witness:
  "\<exists>rules s rules' t e.
    sp_started (udp_ops sample_gni sample_kernel) sample_kernel 0 sample_cfg sample_ad sample_sponge rules s
    \<and> sp_reach (udp_ops sample_gni sample_kernel) sample_kernel (\<lambda>_. False) rules s rules' t
    \<and> fst (sp_world t) 0 = [1, 2] \<and> ep_reach (ep_new 0 sample_cfg) e \<and> sp_tcp t = Some (ep_conn e)
    \<and> ep_written e = fst (sp_world t) (fdw_fd (sp_thread_data t))"
proof -
  let ?ops = "udp_ops sample_gni sample_kernel"
  obtain rules s where s: "sp_open ?ops sample_kernel 0 sample_cfg sample_ad sample_sponge = Inr (rules, s)"
    using sample_run by (auto split: sum.splits)
  then obtain go_on base rules' t where t: "sp_round ?ops sample_kernel (\<lambda>_. False) 0 rules s = Inr (go_on, base, rules', t)"
      "fst (sp_world t) 0 = [1, 2]"
    using sample_run by (auto split: sum.splits)
  have st: "sp_started ?ops sample_kernel 0 sample_cfg sample_ad sample_sponge rules s" using s by (simp add: sp_started_def)
  have re: "sp_reach ?ops sample_kernel (\<lambda>_. False) rules s rules' t" by (rule sp_reach.round [OF sp_reach.start t(1)])
  have "cfg_ok sample_cfg" by (simp add: cfg_ok_def)
  from sponge_refines_endpoint [OF sample_idle this st re] st re t(2) show ?thesis by blast
qed

text \<open>
  (C12) What a round of the loop can throw: a failed system call, a write that took nothing, an error that
  \<open>poll\<close> has reported, or what the adapter or an operation of the connection throws. In particular the
  event loop never detects a busy wait, the connection always accepts what was read for it, and the
  connection is always there.
\<close>

theorem sponge_exceptions:
  assumes "sp_idle ops k taken given s0" and "cfg_ok cfg" and "sp_started ops k random cfg ad s0 rules s"
    and "sp_reach ops k aborted rules s rules' t" and "sp_round ops k aborted base rules' t = Inl x"
  shows "(\<exists>call n. x = System_Error call n) \<or> x = Runtime_Error ''write returned 0 given non-empty input buffer''
    \<or> x = Runtime_Error ''EventLoop: error on polled file descriptor''
    \<or> (\<exists>a w. ad_read ops a w = Inl x) \<or> (\<exists>seg a w. ad_write ops seg a w = Inl x)
    \<or> (\<exists>ev e. ep_reach (ep_new random cfg) e \<and> ep_step ev e = Inl x)"
proof -
  have "sp_throws ops (ep_new random cfg) x"
    using sp_reach_inv [OF assms(4)] sp_started_inv [OF assms(1-3)] sp_round_ok(2) assms(5) by blast
  then show ?thesis
    unfolding sp_throws_def write_error_def POLL_ERROR_def adapter_throws_def ep_throws_def by blast
qed

text \<open>A system on which every descriptor is in error.\<close>

abbreviation broken_kernel :: "((int \<Rightarrow> bytes) \<times> (int \<Rightarrow> bytes)) kernel" where
  "broken_kernel \<equiv> sample_kernel\<lparr>k_poll := \<lambda>fds n w. (((1, 0), map (\<lambda>p. 8) fds), w)\<rparr>"

lemma broken_idle: "sp_idle (udp_ops sample_gni broken_kernel) broken_kernel fst snd sample_sponge"
proof -
  have "kernel_ok broken_kernel fst snd"
    using sample_kernel_ok by (simp add: kernel_ok_def read_ok_def writev_ok_def)
  then show ?thesis using udp_datagrams.datagram_adapter_axioms
    by (simp add: sp_idle_def sp_apart_def udp_ops_def plain_ops_def)
qed

lemma broken_run: "case sp_open (udp_ops sample_gni broken_kernel) broken_kernel 0 sample_cfg sample_ad sample_sponge of
     Inl x \<Rightarrow> False
   | Inr (rules, s) \<Rightarrow> (case sp_round (udp_ops sample_gni broken_kernel) broken_kernel (\<lambda>_. False) 0 rules s of
       Inl x \<Rightarrow> True | Inr _ \<Rightarrow> False)"
  by code_simp

theorem sponge_exceptions_witness:
  "\<exists>rules s x. sp_started (udp_ops sample_gni broken_kernel) broken_kernel 0 sample_cfg sample_ad sample_sponge rules s
    \<and> sp_round (udp_ops sample_gni broken_kernel) broken_kernel (\<lambda>_. False) 0 rules s = Inl x
    \<and> ((\<exists>call n. x = System_Error call n) \<or> x = Runtime_Error ''write returned 0 given non-empty input buffer''
      \<or> x = Runtime_Error ''EventLoop: error on polled file descriptor''
      \<or> (\<exists>a w. ad_read (udp_ops sample_gni broken_kernel) a w = Inl x)
      \<or> (\<exists>seg a w. ad_write (udp_ops sample_gni broken_kernel) seg a w = Inl x)
      \<or> (\<exists>ev e. ep_reach (ep_new 0 sample_cfg) e \<and> ep_step ev e = Inl x))"
proof -
  let ?ops = "udp_ops sample_gni broken_kernel"
  obtain rules s where s: "sp_open ?ops broken_kernel 0 sample_cfg sample_ad sample_sponge = Inr (rules, s)"
    using broken_run by (auto split: sum.splits)
  then obtain x where x: "sp_round ?ops broken_kernel (\<lambda>_. False) 0 rules s = Inl x"
    using broken_run by (auto split: sum.splits)
  have st: "sp_started ?ops broken_kernel 0 sample_cfg sample_ad sample_sponge rules s" using s by (simp add: sp_started_def)
  have "cfg_ok sample_cfg" by (simp add: cfg_ok_def)
  from sponge_exceptions [OF broken_idle this st sp_reach.start x] st x show ?thesis by blast
qed

text \<open>
  Opening a socket works: on a socket without a connection \<open>connect\<close> reaches its loop, in SYN_SENT and
  with the SYN in the queue; the exception for an unexpected state is impossible. On a socket that has a
  connection already it throws, and changes nothing.
\<close>

theorem sponge_opens:
  "sp_open ops k random cfg ad s =
     (case sp_tcp s of
        Some _ \<Rightarrow> Inl (Runtime_Error ''connect() with TCPConnection already initialized'')
      | None \<Rightarrow> let c = conn_new random cfg; a = ad_set_config ops ad (sp_datagram_adapter s);
            c = c\<lparr>conn_sender := snd_syn_out (conn_sender c), conn_segments_out := [syn_seg (snd_isn (conn_sender c))]\<rparr>
          in Inr (sp_rules ops k, s\<lparr>sp_tcp := Some c, sp_datagram_adapter := a\<rparr>))"
proof (cases "sp_tcp s")
  case None
  let ?c = "conn_new random cfg"
  let ?d = "?c\<lparr>conn_sender := snd_syn_out (conn_sender ?c), conn_segments_out := [syn_seg (snd_isn (conn_sender ?c))]\<rparr>"
  have fresh: "conn_fresh ?c" by (rule conn_fresh_new)
  have "conn_in ?d ST_SYN_SENT"
    using fresh snd_hs_state [of "conn_sender ?c"]
    by (subst conn_in_iff) (auto simp: conn_fresh_def rcv_new_state)
  then show ?thesis
    using None conn_hs_connect [OF fresh] by (simp add: sp_open_def sp_initialize_TCP_def sp_deref_def Let_def)
qed (simp add: sp_open_def)

end
