(* ===== verification/Benchmark.thy ===== *)
theory Benchmark
  imports TCP_Network Text_Format
begin

text \<open>
  The benchmark program (\<open>apps/tcp_benchmark.cc\<close>): two connections in one process that hand each other
  their segments, in order or in reverse order, while one sends a string to the other. The random string
  and the random initial sequence numbers are arguments; clock and report are not modelled. The benchmark
  is a client of the network of \<open>TCP_Network\<close>: it never loses a segment, but it orders them as it likes.
\<close>

section \<open>Moving segments\<close>

text \<open>The first loop of \<open>move_segments\<close> empties the queue of \<open>x\<close> into the vector.\<close>

function bench_take :: "tcp_connection \<Rightarrow> tcp_segment list \<Rightarrow> tcp_connection \<times> tcp_segment list" where
  "bench_take x segments =
     (case conn_segments_out x of [] \<Rightarrow> (x, segments) | seg # _ \<Rightarrow> bench_take (conn_pop x) (segments @ [seg]))"
  by pat_completeness auto
termination
  by (relation "measure (\<lambda>(x, segments). length (conn_segments_out x))") (auto simp: conn_pop_def)

declare bench_take.simps [simp del]

fun bench_give :: "tcp_segment list \<Rightarrow> tcp_connection \<Rightarrow> tcp_connection result" where
  "bench_give [] y = Inr y"
| "bench_give (seg # segments) y = bind_res (conn_segment_received seg y) (bench_give segments)"

definition move_segments :: "tcp_connection \<Rightarrow> tcp_connection \<Rightarrow> tcp_segment list \<Rightarrow> bool
    \<Rightarrow> (tcp_connection \<times> tcp_connection \<times> tcp_segment list) result" where
  "move_segments x y segments reorder =
     (case bench_take x segments of (x, segments) \<Rightarrow>
        bind_res (bench_give (if reorder then rev segments else segments) y) (\<lambda>y. Inr (x, y, [])))"

section \<open>The main loop\<close>

record bench =
  bn_x :: tcp_connection
  bn_y :: tcp_connection
  bn_bytes_to_send :: buffer
  bn_x_closed :: bool
  bn_string_received :: bytes

text \<open>Everything before the first round.\<close>

definition bench_start :: "uint32 \<Rightarrow> uint32 \<Rightarrow> tcp_config \<Rightarrow> bytes \<Rightarrow> bench result" where
  "bench_start rx ry config string_to_send =
     bind_res (conn_connect (conn_new rx config)) (\<lambda>x.
     bind_res (conn_end_input_stream (conn_new ry config)) (\<lambda>y.
       Inr \<lparr>bn_x = x, bn_y = y, bn_bytes_to_send = buf_of_string string_to_send, bn_x_closed = False,
         bn_string_received = []\<rparr>))"

text \<open>Writing the input into \<open>x\<close>, as long as there is room for it.\<close>

definition bench_want :: "bench \<Rightarrow> size_t" where
  "bench_want b = min (conn_remaining_outbound_capacity (bn_x b)) (buf_size (bn_bytes_to_send b))"

definition bench_write_once :: "bench \<Rightarrow> bench result" where
  "bench_write_once b =
     bind_res (conn_write (take (unat (bench_want b)) (buf_str (bn_bytes_to_send b))) (bn_x b)) (\<lambda>(x, written).
       if bench_want b \<noteq> written then Inl (Runtime_Error (''want = '' @ dec_string (unat (bench_want b)) @ '', written = '' @ dec_string (unat written)))
       else bind_res (buf_remove_prefix written (bn_bytes_to_send b)) (\<lambda>bytes.
              Inr (b\<lparr>bn_x := x, bn_bytes_to_send := bytes\<rparr>)))"

partial_function (option) bench_write :: "bench \<Rightarrow> bench result option" where
  "bench_write b =
     (if buf_size (bn_bytes_to_send b) \<noteq> 0 \<and> conn_remaining_outbound_capacity (bn_x b) \<noteq> 0
      then case bench_write_once b of Inl e \<Rightarrow> Some (Inl e) | Inr b \<Rightarrow> bench_write b
      else Some (Inr b))"

declare bench_write.simps [code]

definition bench_close :: "bench \<Rightarrow> bench result" where
  "bench_close b =
     (if buf_size (bn_bytes_to_send b) = 0 \<and> \<not> bn_x_closed b
      then bind_res (conn_end_input_stream (bn_x b)) (\<lambda>x. Inr (b\<lparr>bn_x := x, bn_x_closed := True\<rparr>))
      else Inr b)"

text \<open>The exchange of segments: both calls of \<open>move_segments\<close> share the vector.\<close>

definition bench_exchange :: "bool \<Rightarrow> bench \<Rightarrow> bench result" where
  "bench_exchange reorder b =
     bind_res (move_segments (bn_x b) (bn_y b) [] reorder) (\<lambda>(x, y, segments).
     bind_res (move_segments y x segments False) (\<lambda>(y, x, segments). Inr (b\<lparr>bn_x := x, bn_y := y\<rparr>)))"

definition bench_read :: "bench \<Rightarrow> bench" where
  "bench_read b =
     (let available_output = bs_buffer_size (rcv_stream_out (conn_receiver (bn_y b)))
      in if available_output > 0
         then case conn_read available_output (bn_y b) of (y, str) \<Rightarrow>
                b\<lparr>bn_y := y, bn_string_received := bn_string_received b @ str\<rparr>
         else b)"

definition bench_ticks :: "bench \<Rightarrow> bench result" where
  "bench_ticks b =
     bind_res (conn_tick 1000 (bn_x b)) (\<lambda>x.
     bind_res (conn_tick 1000 (bn_y b)) (\<lambda>y. Inr (b\<lparr>bn_x := x, bn_y := y\<rparr>)))"

text \<open>The closure \<open>loop\<close>.\<close>

definition bench_loop :: "bool \<Rightarrow> bench \<Rightarrow> bench result option" where
  "bench_loop reorder b = map_option (\<lambda>r.
     bind_res r (\<lambda>b. bind_res (bench_close b) (\<lambda>b. bind_res (bench_exchange reorder b) (\<lambda>b.
       bench_ticks (bench_read b))))) (bench_write b)"

partial_function (option) bench_while :: "(bench \<Rightarrow> bool) \<Rightarrow> bool \<Rightarrow> bench \<Rightarrow> bench result option" where
  "bench_while condition reorder b =
     (if condition b
      then case bench_loop reorder b of None \<Rightarrow> None | Some (Inl e) \<Rightarrow> Some (Inl e)
        | Some (Inr b) \<Rightarrow> bench_while condition reorder b
      else Some (Inr b))"

declare bench_while.simps [code]

definition bench_reading :: "bench \<Rightarrow> bool" where
  "bench_reading b \<longleftrightarrow> \<not> bs_eof (rcv_stream_out (conn_receiver (bn_y b)))"

definition bench_lingering :: "bench \<Rightarrow> bool" where
  "bench_lingering b \<longleftrightarrow> conn_active (bn_x b) \<or> conn_active (bn_y b)"

definition main_loop_with :: "tcp_config \<Rightarrow> uint32 \<Rightarrow> uint32 \<Rightarrow> bytes \<Rightarrow> bool \<Rightarrow> bench result option" where
  "main_loop_with config rx ry string_to_send reorder =
     (case bench_start rx ry config string_to_send of
        Inl e \<Rightarrow> Some (Inl e)
      | Inr b \<Rightarrow> (case bench_while bench_reading reorder b of
            None \<Rightarrow> None
          | Some (Inl e) \<Rightarrow> Some (Inl e)
          | Some (Inr b) \<Rightarrow>
              if bn_string_received b \<noteq> string_to_send
              then Some (Inl (Runtime_Error ''strings sent vs. received don't match''))
              else bench_while bench_lingering reorder b))"

definition main_loop :: "uint32 \<Rightarrow> uint32 \<Rightarrow> bytes \<Rightarrow> bool \<Rightarrow> bench result option" where
  "main_loop = main_loop_with cfg_default"

section \<open>The benchmark as a network\<close>

text \<open>Two endpoints that keep their promises and are unbroken. Only the clock can break one of them: no
  unbroken connection sends a RST.\<close>

definition net_ok :: "endpoint \<Rightarrow> endpoint \<Rightarrow> bool" where
  "net_ok a b \<longleftrightarrow> ep_inv a b \<and> ep_inv b a \<and> conn_unbroken (ep_conn a) \<and> conn_unbroken (ep_conn b)"

lemma net_ok_sym: "net_ok a b \<Longrightarrow> net_ok b a"
  by (simp add: net_ok_def)

lemma collect_unbroken: "conn_collect_sender_segments_out c = Inr d \<Longrightarrow> conn_unbroken d = conn_unbroken c"
  by (auto simp: conn_collect_eq bind_res_eq_Inr dest: snd_fill_window_frame)

lemma write_unbroken: "conn_write data c = Inr (d, n) \<Longrightarrow> conn_unbroken d = conn_unbroken c"
  using bs_write_frame(3) [of "snd_stream (conn_sender c)" data]
  by (cases "bs_write (snd_stream (conn_sender c)) data")
    (auto simp: conn_write_def snd_write_def bind_res_eq_Inr dest!: collect_unbroken)

lemma net_ok_step:
  assumes "net_ok a b" and "ep_allowed ev a b" and "\<And>ms. ev \<noteq> Ev_Tick ms"
  shows "\<exists>a'. ep_step ev a = Inr a' \<and> net_ok a' b"
proof -
  note ab = assms(1) [unfolded net_ok_def]
  obtain a' where a': "ep_step ev a = Inr a'" "ep_inv a' b" "ep_inv b a'"
    using ep_inv_step [of a b ev] ab assms(2) by blast
  have "conn_unbroken (ep_conn a')"
  proof (cases ev)
    case (Ev_Segment seg)
    then have "conn_live (view_of a b) (ep_conn a)" "seg_for (view_of a b) seg" "\<not> th_rst (seg_header seg)"
      using ab assms(2) sent_seg_for [of b a seg] by (auto simp: ep_inv_def conn_fine_def)
    from fine_segment_received(2) [OF this] show ?thesis
      using a'(1) Ev_Segment by (auto simp: ok_res_def conn_live_def)
  next
    case (Ev_Write data)
    then show ?thesis using a'(1) ab write_unbroken [of data "ep_conn a"] by (auto simp: bind_res_eq_Inr)
  qed (use a'(1) ab assms(3) in \<open>auto simp: bind_res_eq_Inr conn_connect_def conn_end_input_stream_def
      snd_end_input_def bs_end_input_def conn_read_def conn_pop_def dest!: collect_unbroken
      split: list.splits prod.splits\<close>)
  then show ?thesis using a' ab unfolding net_ok_def by blast
qed

text \<open>The application has done nothing.\<close>

definition ep_same :: "endpoint \<Rightarrow> endpoint \<Rightarrow> bool" where
  "ep_same a b \<longleftrightarrow> ep_written b = ep_written a \<and> ep_got b = ep_got a
     \<and> bs_end_flag (ep_stream b) = bs_end_flag (ep_stream a)"

lemma ep_same_trans: "ep_same a b \<Longrightarrow> ep_same b c \<Longrightarrow> ep_same a c"
  by (simp add: ep_same_def)

lemma bench_take_net:
  "net_ok a b \<Longrightarrow> \<exists>a'. bench_take (ep_conn a) segments = (ep_conn a', segments @ conn_segments_out (ep_conn a))
    \<and> net_ok a' b \<and> ep_same a a' \<and> set (ep_sent a) \<union> set (conn_segments_out (ep_conn a)) \<subseteq> set (ep_sent a')"
proof (induction "conn_segments_out (ep_conn a)" arbitrary: a segments)
  case Nil
  then have out: "conn_segments_out (ep_conn a) = []" by simp
  have "bench_take (ep_conn a) segments = (ep_conn a, segments)" by (subst bench_take.simps) (simp add: out)
  then show ?case using Nil.prems by (intro exI [of _ a]) (simp add: ep_same_def out)
next
  case (Cons seg rest)
  let ?a = "a\<lparr>ep_conn := conn_pop (ep_conn a), ep_sent := ep_sent a @ [seg]\<rparr>"
  have "ep_step Ev_Pop a = Inr ?a" by (simp flip: Cons.hyps(2))
  then have ok: "net_ok ?a b" using net_ok_step [OF Cons.prems, of Ev_Pop] by simp
  have rest: "rest = conn_segments_out (ep_conn ?a)" by (simp add: conn_pop_def flip: Cons.hyps(2))
  obtain a' where a': "bench_take (ep_conn ?a) (segments @ [seg]) = (ep_conn a', (segments @ [seg]) @ rest)"
      "net_ok a' b" "ep_same ?a a'" "set (ep_sent ?a) \<union> set rest \<subseteq> set (ep_sent a')"
    using Cons.hyps(1) [OF rest ok, of "segments @ [seg]"] unfolding rest by blast
  have out: "conn_segments_out (ep_conn a) = seg # rest" using Cons.hyps(2) by simp
  have "bench_take (ep_conn a) segments = bench_take (conn_pop (ep_conn a)) (segments @ [seg])"
    by (subst bench_take.simps) (simp add: out)
  moreover have "ep_same a ?a" by (simp add: ep_same_def conn_pop_def)
  ultimately show ?case using a' unfolding out by (intro exI [of _ a']) (auto intro: ep_same_trans)
qed

lemma bench_give_net:
  "net_ok a b \<Longrightarrow> set segments \<subseteq> set (ep_sent b) \<Longrightarrow>
    \<exists>a'. bench_give segments (ep_conn a) = Inr (ep_conn a') \<and> net_ok a' b \<and> ep_same a a' \<and> ep_sent a' = ep_sent a"
proof (induction segments arbitrary: a)
  case (Cons seg segments)
  then have "ep_allowed (Ev_Segment seg) a b" by (simp add: net_ok_def)
  then obtain a1 where a1: "ep_step (Ev_Segment seg) a = Inr a1" "net_ok a1 b"
    using net_ok_step [OF Cons.prems(1)] by blast
  then have same: "ep_same a a1" "ep_sent a1 = ep_sent a"
    using ep_step_end [OF a1(1)] by (auto simp: ep_same_def bind_res_eq_Inr)
  obtain a' where "bench_give segments (ep_conn a1) = Inr (ep_conn a')" "net_ok a' b" "ep_same a1 a'" "ep_sent a' = ep_sent a1"
    using Cons.IH [OF a1(2)] Cons.prems(2) by auto
  then show ?case using a1(1) same by (intro exI [of _ a']) (auto simp: bind_res_eq_Inr intro: ep_same_trans)
qed (auto simp: ep_same_def)

lemma move_segments_net:
  assumes "net_ok a b"
  shows "\<exists>a' b'. move_segments (ep_conn a) (ep_conn b) [] reorder = Inr (ep_conn a', ep_conn b', [])
    \<and> net_ok a' b' \<and> ep_same a a' \<and> ep_same b b'"
proof -
  obtain a' where a': "bench_take (ep_conn a) [] = (ep_conn a', conn_segments_out (ep_conn a))" "net_ok a' b"
      "ep_same a a'" "set (conn_segments_out (ep_conn a)) \<subseteq> set (ep_sent a')"
    using bench_take_net [OF assms, of "[]"] by auto
  define segments where "segments = (if reorder then rev (conn_segments_out (ep_conn a)) else conn_segments_out (ep_conn a))"
  have "set segments \<subseteq> set (ep_sent a')" using a'(4) by (simp add: segments_def)
  then obtain b' where "bench_give segments (ep_conn b) = Inr (ep_conn b')" "net_ok b' a'" "ep_same b b'"
    using bench_give_net [OF net_ok_sym [OF a'(2)]] by blast
  then show ?thesis using a'(1,3) net_ok_sym
    by (intro exI [of _ a'] exI [of _ b']) (simp add: move_segments_def flip: segments_def)
qed

text \<open>The state of the benchmark stands for two endpoints.\<close>

definition bench_at :: "bytes \<Rightarrow> endpoint \<Rightarrow> endpoint \<Rightarrow> bench \<Rightarrow> bool" where
  "bench_at str a b s \<longleftrightarrow> bn_x s = ep_conn a \<and> bn_y s = ep_conn b \<and> buf_inv (bn_bytes_to_send s)
     \<and> str = ep_written a @ buf_str (bn_bytes_to_send s) \<and> ep_got b = bn_string_received s
     \<and> bs_end_flag (ep_stream a) = bn_x_closed s \<and> (bn_x_closed s \<longrightarrow> buf_str (bn_bytes_to_send s) = [])"

definition bench_ok :: "bytes \<Rightarrow> bench \<Rightarrow> bool" where
  "bench_ok str s \<longleftrightarrow> (\<exists>a b. bench_at str a b s \<and> net_ok a b)"

lemma bench_okE:
  assumes "bench_ok str s"
  obtains a b where "bench_at str a b s" and "net_ok a b"
  using assms unfolding bench_ok_def by blast

lemma bench_okI: "bench_at str a b s \<Longrightarrow> net_ok a b \<Longrightarrow> bench_ok str s"
  unfolding bench_ok_def by blast

lemma bench_write_once_ok:
  assumes len: "length str + 2 < 2 ^ 31" and inv: "bench_ok str s"
    and go: "buf_size (bn_bytes_to_send s) \<noteq> 0" "conn_remaining_outbound_capacity (bn_x s) \<noteq> 0"
  shows "\<exists>t. bench_write_once s = Inr t \<and> bench_ok str t
    \<and> length (buf_str (bn_bytes_to_send t)) < length (buf_str (bn_bytes_to_send s))"
proof -
  obtain a b where at: "bench_at str a b s" and ok: "net_ok a b" using inv by (rule bench_okE)
  note d = at [unfolded bench_at_def]
  let ?buf = "bn_bytes_to_send s" and ?w = "bench_want s"
  let ?data = "take (unat ?w) (buf_str ?buf)"
  have size: "unat (buf_size ?buf) = length (buf_str ?buf)" using d by (simp add: unat_buf_size)
  have w: "?w \<noteq> 0" "?w \<le> buf_size ?buf" "?w \<le> conn_remaining_outbound_capacity (ep_conn a)"
    using go d by (auto simp: bench_want_def min_def)
  then have want: "0 < unat ?w" "unat ?w \<le> length (buf_str ?buf)" "length ?data = unat ?w"
    using size by (simp_all add: word_le_nat_alt unat_gt_0)
  have "length (ep_written a) + length ?data + 2 < 2 ^ 31" using len d want by auto
  then have "ep_allowed (Ev_Write ?data) a b" using ok by (simp add: net_ok_def del: length_take)
  then obtain a' where a': "ep_step (Ev_Write ?data) a = Inr a'" "net_ok a' b" using net_ok_step [OF ok] by blast
  then obtain c n where c: "conn_write ?data (ep_conn a) = Inr (c, n)"
      "a' = a\<lparr>ep_conn := c, ep_written := ep_written a @ take (unat n) ?data\<rparr>" by (auto simp: bind_res_eq_Inr)
  have "conn_live (view_of a b) (ep_conn a)" using ok by (simp add: net_ok_def ep_inv_def conn_fine_def)
  then have "bs_inv (ep_stream a)" by (simp add: conn_live_def snd_inv_def snd_stream_ok_def)
  moreover have "\<not> bs_end_flag (ep_stream a)" using d go by (auto simp: buf_size_def)
  ultimately have n: "n = ?w" using conn_write_whole [OF _ _ _ c(1)] want w(3) by (simp add: word_le_nat_alt)
  obtain buf where buf: "buf_remove_prefix ?w ?buf = Inr buf" "buf_str buf = drop (unat ?w) (buf_str ?buf)" "buf_inv buf"
    using buf_remove_prefix_ok [of ?buf ?w] d want by blast
  let ?t = "s\<lparr>bn_x := c, bn_bytes_to_send := buf\<rparr>"
  have "bs_end_flag (ep_stream a') = bs_end_flag (ep_stream a)" using ep_step_end [OF a'(1)] by simp
  then have "bench_at str a' b ?t" using d buf by (auto simp: bench_at_def c(2) n)
  moreover have "bench_write_once s = Inr ?t" using c(1) n buf d by (simp add: bench_write_once_def)
  ultimately show ?thesis using a'(2) buf(2) want by (auto intro: bench_okI)
qed

text \<open>The loop that writes ends, without an exception.\<close>

lemma bench_write_ok:
  assumes "length str + 2 < 2 ^ 31" and "bench_ok str s"
  shows "\<exists>t. bench_write s = Some (Inr t) \<and> bench_ok str t"
  using assms(2)
proof (induction "length (buf_str (bn_bytes_to_send s))" arbitrary: s rule: less_induct)
  case less
  show ?case
  proof (cases "buf_size (bn_bytes_to_send s) \<noteq> 0 \<and> conn_remaining_outbound_capacity (bn_x s) \<noteq> 0")
    case True
    then obtain t where t: "bench_write_once s = Inr t" "bench_ok str t"
        "length (buf_str (bn_bytes_to_send t)) < length (buf_str (bn_bytes_to_send s))"
      using bench_write_once_ok [OF assms(1) less.prems] by blast
    then have "bench_write s = bench_write t" using True by (simp add: bench_write.simps [of s])
    then show ?thesis using less.hyps [OF t(3,2)] by simp
  next
    case False
    then show ?thesis using less.prems by (subst bench_write.simps) auto
  qed
qed

lemma bench_close_ok:
  assumes "bench_ok str s"
  shows "\<exists>t. bench_close s = Inr t \<and> bench_ok str t"
proof (cases "buf_size (bn_bytes_to_send s) = 0 \<and> \<not> bn_x_closed s")
  case True
  obtain a b where at: "bench_at str a b s" and ok: "net_ok a b" using assms by (rule bench_okE)
  have "ep_allowed Ev_End_Input a b" using ok by (simp add: net_ok_def)
  then obtain a' where a': "ep_step Ev_End_Input a = Inr a'" "net_ok a' b" using net_ok_step [OF ok] by blast
  then obtain c where c: "conn_end_input_stream (ep_conn a) = Inr c" "a' = a\<lparr>ep_conn := c\<rparr>" by (auto simp: bind_res_eq_Inr)
  then have "bs_end_flag (snd_stream (conn_sender c))"
    by (auto simp: conn_end_input_stream_def conn_collect_eq bind_res_eq_Inr snd_end_input_def bs_end_input_def
        dest: snd_fill_window_frame)
  moreover have "length (buf_str (bn_bytes_to_send s)) = 0"
    using True at unat_buf_size [of "bn_bytes_to_send s"] by (simp add: bench_at_def)
  ultimately have "bench_at str a' b (s\<lparr>bn_x := c, bn_x_closed := True\<rparr>)" using at c(2) by (auto simp: bench_at_def)
  from bench_okI [OF this a'(2)] show ?thesis using True c(1) at by (simp add: bench_close_def bench_at_def)
qed (use assms in \<open>auto simp: bench_close_def\<close>)

lemma bench_exchange_ok:
  assumes "bench_ok str s"
  shows "\<exists>t. bench_exchange reorder s = Inr t \<and> bench_ok str t"
proof -
  obtain a b where at: "bench_at str a b s" and ok: "net_ok a b" using assms by (rule bench_okE)
  obtain a1 b1 where 1: "move_segments (ep_conn a) (ep_conn b) [] reorder = Inr (ep_conn a1, ep_conn b1, [])"
      "net_ok b1 a1" "ep_same a a1" "ep_same b b1" using move_segments_net [OF ok] net_ok_sym by blast
  obtain b2 a2 where 2: "move_segments (ep_conn b1) (ep_conn a1) [] False = Inr (ep_conn b2, ep_conn a2, [])"
      "net_ok a2 b2" "ep_same b1 b2" "ep_same a1 a2" using move_segments_net [OF 1(2)] net_ok_sym by blast
  let ?t = "s\<lparr>bn_x := ep_conn a2, bn_y := ep_conn b2\<rparr>"
  have "bench_at str a2 b2 ?t" using at 1(3,4) 2(3,4) by (auto simp: bench_at_def ep_same_def)
  moreover have "bench_exchange reorder s = Inr ?t" using at 1(1) 2(1) by (simp add: bench_exchange_def bench_at_def)
  ultimately show ?thesis using 2(2) by (auto intro: bench_okI)
qed

lemma bench_read_ok:
  assumes "bench_ok str s"
  shows "bench_ok str (bench_read s)"
proof -
  obtain a b where at: "bench_at str a b s" and ok: "net_ok a b" using assms by (rule bench_okE)
  let ?n = "bs_buffer_size (rcv_stream_out (conn_receiver (bn_y s)))"
  obtain c ret where c: "conn_read ?n (ep_conn b) = (c, ret)" by force
  then have "net_ok a (b\<lparr>ep_conn := c, ep_got := ep_got b @ ret\<rparr>)"
    using net_ok_step [OF net_ok_sym [OF ok], of "Ev_Read ?n"] by (auto dest: net_ok_sym)
  moreover have "bench_at str a (b\<lparr>ep_conn := c, ep_got := ep_got b @ ret\<rparr>)
      (s\<lparr>bn_y := c, bn_string_received := bn_string_received s @ ret\<rparr>)"
    using at by (simp add: bench_at_def)
  ultimately have "bench_ok str (s\<lparr>bn_y := c, bn_string_received := bn_string_received s @ ret\<rparr>)" by (intro bench_okI)
  moreover have "bn_y s = ep_conn b" using at by (simp add: bench_at_def)
  ultimately show ?thesis using assms c by (simp add: bench_read_def Let_def)
qed

text \<open>The clock may break a connection, but what was promised up to there holds.\<close>

definition bench_kept :: "bytes \<Rightarrow> bench \<Rightarrow> bool" where
  "bench_kept str s \<longleftrightarrow> (\<exists>a b. bench_at str a b s \<and> ep_inv a b \<and> ep_inv b a)"

lemma bench_kept_ok: "bench_kept str s \<Longrightarrow> conn_unbroken (bn_x s) \<Longrightarrow> conn_unbroken (bn_y s) \<Longrightarrow> bench_ok str s"
  unfolding bench_kept_def bench_ok_def net_ok_def by (metis bench_at_def)

lemma bench_ticks_ok:
  assumes "bench_ok str s"
  shows "\<exists>t. bench_ticks s = Inr t \<and> bench_kept str t"
proof -
  obtain a b where at: "bench_at str a b s" and ok: "net_ok a b" using assms by (rule bench_okE)
  note n = ok [unfolded net_ok_def]
  obtain a' where a': "ep_step (Ev_Tick 1000) a = Inr a'" "ep_inv a' b" "ep_inv b a'"
    using ep_inv_step [of a b "Ev_Tick 1000"] n by auto
  obtain b' where b': "ep_step (Ev_Tick 1000) b = Inr b'" "ep_inv b' a'" "ep_inv a' b'"
    using ep_inv_step [OF a'(3,2), of "Ev_Tick 1000"] n by auto
  have "bs_end_flag (ep_stream a') = bs_end_flag (ep_stream a)" using ep_step_end [OF a'(1)] by simp
  then have "bench_at str a' b' (s\<lparr>bn_x := ep_conn a', bn_y := ep_conn b'\<rparr>)"
    using at a'(1) b'(1) by (auto simp: bench_at_def bind_res_eq_Inr)
  moreover have "bench_ticks s = Inr (s\<lparr>bn_x := ep_conn a', bn_y := ep_conn b'\<rparr>)"
    using at a'(1) b'(1) by (auto simp: bench_ticks_def bench_at_def bind_res_eq_Inr)
  ultimately show ?thesis using a' b' by (auto simp: bench_kept_def)
qed

lemma bench_loop_ok:
  assumes "length str + 2 < 2 ^ 31" and "bench_ok str s"
  shows "\<exists>t. bench_loop reorder s = Some (Inr t) \<and> bench_kept str t"
proof -
  obtain s1 where 1: "bench_write s = Some (Inr s1)" "bench_ok str s1" using bench_write_ok [OF assms] by blast
  obtain s2 where 2: "bench_close s1 = Inr s2" "bench_ok str s2" using bench_close_ok [OF 1(2)] by blast
  obtain s3 where 3: "bench_exchange reorder s2 = Inr s3" "bench_ok str s3" using bench_exchange_ok [OF 2(2)] by blast
  show ?thesis using 1(1) 2(1) 3(1) bench_ticks_ok [OF bench_read_ok [OF 3(2)]] by (simp add: bench_loop_def)
qed

lemma bench_start_ok:
  assumes "cfg_ok config" and "length str + 2 < 2 ^ 31"
  shows "\<exists>s. bench_start rx ry config str = Inr s \<and> bench_ok str s"
proof -
  let ?a = "ep_new rx config" and ?b = "ep_new ry config"
  have un: "conn_unbroken (ep_conn ?a)" "conn_unbroken (ep_conn ?b)" "\<not> bs_end_flag (ep_stream ?a)"
    by (simp_all add: ep_new_def conn_new_def snd_new_def bs_new_def)
  then have ok: "net_ok ?a ?b" using ep_inv_new [OF assms(1)] by (simp add: net_ok_def)
  obtain a where a: "ep_step Ev_Connect ?a = Inr a" "net_ok a ?b"
    using net_ok_step [OF ok, of Ev_Connect] un by auto
  obtain b where b: "ep_step Ev_End_Input ?b = Inr b" "net_ok b a"
    using net_ok_step [OF net_ok_sym [OF a(2)], of Ev_End_Input] un by auto
  let ?s = "\<lparr>bn_x = ep_conn a, bn_y = ep_conn b, bn_bytes_to_send = buf_of_string str, bn_x_closed = False,
      bn_string_received = []\<rparr>"
  have "bench_start rx ry config str = Inr ?s"
    using a(1) b(1) by (auto simp: bench_start_def ep_new_def bind_res_eq_Inr)
  moreover have "bench_at str a b ?s"
    using a(1) b(1) ep_step_end [OF a(1)] un(3) assms(2) by (auto simp: bench_at_def bind_res_eq_Inr ep_new_def)
  ultimately show ?thesis using b(2) net_ok_sym by (blast intro: bench_okI)
qed

section \<open>A half-closed connection is deaf\<close>

lemma conn_in_unique: "conn_in c s \<Longrightarrow> conn_in c t \<Longrightarrow> s = t"
  unfolding conn_in_def ts_eq_def by (cases s; cases t) (simp_all add: summary_defs)

text \<open>A connection in FIN_WAIT_2 or RESET with nothing outstanding, whose application has read everything,
  does nothing for segments that bring data but no FIN.\<close>

definition conn_deaf :: "tcp_connection \<Rightarrow> bool" where
  "conn_deaf c \<longleftrightarrow> (conn_in c ST_FIN_WAIT_2 \<or> conn_in c ST_RESET) \<and> conn_segments_out c = []
     \<and> win_buffer (snd_window (conn_sender c)) = []
     \<and> \<not> snd_consecutive_retransmissions (conn_sender c) > MAX_RETX_ATTEMPTS
     \<and> bs_buffer_size (rcv_stream_out (conn_receiver c)) = 0 \<and> \<not> bs_eof (rcv_stream_out (conn_receiver c))"

definition seg_quiet :: "tcp_segment \<Rightarrow> bool" where
  "seg_quiet seg \<longleftrightarrow> \<not> th_fin (seg_header seg) \<and> (seg_length seg \<noteq> 0 \<or> th_rst (seg_header seg))"

lemma deaf_states: "conn_deaf c \<Longrightarrow> st \<noteq> ST_FIN_WAIT_2 \<Longrightarrow> st \<noteq> ST_RESET \<Longrightarrow> \<not> conn_in c st"
  using conn_in_unique [of c st] by (auto simp: conn_deaf_def)

lemma deaf_time [simp]: "conn_deaf (c\<lparr>conn_time_since_last_segment_received := t\<rparr>) = conn_deaf c"
  by (simp add: conn_deaf_def)

lemma deaf_set_errors: "conn_deaf c \<Longrightarrow> conn_deaf (conn_set_errors c)"
  using conn_set_errors_in_reset [of c]
  by (simp add: conn_deaf_def conn_set_errors_def snd_set_error_def rcv_set_error_def bs_set_error_def
      rcv_stream_out_def snd_consecutive_retransmissions_def bs_buffer_size_def bs_eof_def bs_buffer_empty_def)

lemma deaf_segment:
  assumes "conn_deaf c" and "seg_quiet seg"
  shows "\<exists>d. conn_segment_received seg c = Inr d \<and> conn_deaf d"
proof -
  let ?c = "c\<lparr>conn_time_since_last_segment_received := 0\<rparr>"
  have c: "conn_deaf ?c" using assms(1) by simp
  have "conn_dispatch seg ?c = Inr ?c"
    using assms(2) deaf_states [OF c] by (simp add: conn_dispatch_def conn_closing_def seg_quiet_def Let_def)
  moreover have "conn_keep_alive seg ?c = Inr ?c" if "\<not> th_rst (seg_header seg)"
    using assms(2) that by (simp add: conn_keep_alive_def seg_quiet_def split: option.splits)
  ultimately show ?thesis using c deaf_set_errors [OF c]
    by (auto simp: conn_segment_received_def conn_reset_received_def Let_def)
qed

lemma deaf_tick:
  assumes "conn_deaf c"
  shows "\<exists>d. conn_tick ms c = Inr d \<and> conn_deaf d"
proof -
  let ?t = "c\<lparr>conn_time_since_last_segment_received := conn_time_since_last_segment_received c + ms\<rparr>"
  have t: "conn_deaf ?t" using assms by simp
  then have "conn_aged ms c = ?t" using deaf_states [OF t] by (simp add: conn_aged_def Let_def)
  moreover have "snd_tick ms (conn_sender c) = conn_sender c" using assms by (intro snd_tick_idle) (simp add: conn_deaf_def)
  ultimately have "conn_tick ms c = Inr (?t\<lparr>conn_sender := conn_sender c\<rparr>)"
    using assms deaf_states [OF assms] by (simp add: conn_tick_eq conn_ticking_def conn_deaf_def)
  then show ?thesis using t by simp
qed

text \<open>A connection whose window is full of such segments sends nothing but them, and its RST; \<open>ended\<close> says
  whether its outbound stream has ended.\<close>

definition conn_mute :: "bool \<Rightarrow> tcp_connection \<Rightarrow> bool" where
  "conn_mute ended c \<longleftrightarrow> bs_inv (snd_stream (conn_sender c)) \<and> bs_end_flag (snd_stream (conn_sender c)) = ended
     \<and> win_full (snd_window (conn_sender c)) \<and> win_next_seqno (snd_window (conn_sender c)) \<noteq> 0
     \<and> list_all (\<lambda>ss. seg_quiet (ss_segment ss)) (win_buffer (snd_window (conn_sender c)))
     \<and> list_all seg_quiet (snd_segments_out (conn_sender c)) \<and> list_all seg_quiet (conn_segments_out c)"

lemma quiet_stamp [simp]: "seg_quiet (conn_stamp r seg) = seg_quiet seg"
  by (simp add: seg_quiet_def conn_stamp_def seg_length_def split: option.splits)

lemma mute_collect:
  assumes "conn_mute e c"
  shows "\<exists>d. conn_collect_sender_segments_out c = Inr d \<and> conn_mute e d"
proof -
  have "snd_fill_window (conn_sender c) = Inr (conn_sender c)"
    using assms by (simp add: snd_fill_window_def snd_state_closed conn_mute_def snd_fill_full)
  then show ?thesis using assms by (auto simp: conn_collect_eq conn_mute_def list_all_iff)
qed

lemma mute_unclean: "conn_mute e c \<Longrightarrow> conn_mute e (conn_unclean_shutdown c)"
  by (simp add: conn_mute_def conn_unclean_shutdown_def conn_set_errors_def conn_push_def snd_set_error_def)
    (simp add: seg_quiet_def seg_new_def th_new_def)

lemma mute_write:
  assumes "conn_mute False c"
  shows "\<exists>d n. conn_write data c = Inr (d, n) \<and> conn_mute False d"
proof -
  let ?s = "conn_sender c" and ?st = "fst (bs_write (snd_stream (conn_sender c)) data)"
  have "conn_mute False (c\<lparr>conn_sender := ?s\<lparr>snd_stream := ?st\<rparr>\<rparr>)"
    using assms by (simp add: conn_mute_def ring.invar_write)
  then show ?thesis using mute_collect
    by (fastforce simp: conn_write_def snd_write_def split: prod.splits)
qed

lemma mute_end_input:
  assumes "conn_mute e c"
  shows "\<exists>d. conn_end_input_stream c = Inr d \<and> conn_mute True d"
proof -
  have "conn_mute True (c\<lparr>conn_sender := snd_end_input (conn_sender c)\<rparr>)"
    using assms by (simp add: conn_mute_def snd_end_input_def)
  then show ?thesis using mute_collect by (simp add: conn_end_input_stream_def)
qed

lemma win_full_timers:
  "win_full (w\<lparr>win_buffer := map f (win_buffer w)\<rparr>) = win_full w"
  by (simp add: win_full_def win_window_closed_def win_buffer_empty_def win_space_def win_bytes_in_flight_def)

lemma mute_snd_tick:
  assumes "conn_mute e c"
  shows "conn_mute e (c\<lparr>conn_sender := snd_tick ms (conn_sender c)\<rparr>)"
proof (cases "filter (ss_expired ms) (win_buffer (snd_window (conn_sender c)))")
  case Nil
  then show ?thesis using assms
    by (simp add: conn_mute_def snd_tick_eq win_tick_eq win_full_timers list_all_iff)
next
  case (Cons ss rest)
  then have "ss \<in> set (win_buffer (snd_window (conn_sender c)))"
    by (metis (no_types) filter_eq_ConsD in_set_conv_decomp)
  then have "seg_quiet (ss_segment ss)" using assms by (simp add: conn_mute_def list_all_iff)
  then show ?thesis using assms Cons
    by (simp add: conn_mute_def snd_tick_eq snd_send_def win_reset_timer_def win_full_timers list_all_iff Let_def)
qed

lemma mute_tick:
  assumes "conn_mute e c"
  shows "\<exists>d. conn_tick ms c = Inr d \<and> conn_mute e d"
proof -
  let ?d = "(conn_aged ms c)\<lparr>conn_sender := snd_tick ms (conn_sender c)\<rparr>"
  have "conn_mute e (conn_aged ms c)" using assms by (simp add: conn_mute_def conn_aged_def Let_def)
  then have "conn_mute e ?d" using mute_snd_tick [of e "conn_aged ms c" ms] by (simp add: conn_goes_aged(2))
  then show ?thesis using mute_collect [of e ?d] mute_unclean [of e ?d] by (auto simp: conn_tick_eq)
qed

section \<open>A benchmark that does not end\<close>

definition bench_stuck :: "bench \<Rightarrow> bool" where
  "bench_stuck s \<longleftrightarrow> conn_mute (bn_x_closed s) (bn_x s) \<and> conn_deaf (bn_y s) \<and> buf_inv (bn_bytes_to_send s)
     \<and> (bn_x_closed s \<longrightarrow> buf_str (bn_bytes_to_send s) = [])"

text \<open>Writing the rest of the string fills the outbound stream and sends nothing.\<close>

lemma bench_stuck_write_once:
  assumes stuck: "bench_stuck s"
    and go: "buf_size (bn_bytes_to_send s) \<noteq> 0" "conn_remaining_outbound_capacity (bn_x s) \<noteq> 0"
  shows "\<exists>t. bench_write_once s = Inr t \<and> bench_stuck t
    \<and> length (buf_str (bn_bytes_to_send t)) < length (buf_str (bn_bytes_to_send s))"
proof -
  let ?buf = "bn_bytes_to_send s" and ?w = "bench_want s"
  let ?data = "take (unat ?w) (buf_str ?buf)"
  have open_: "\<not> bn_x_closed s" "buf_inv ?buf" using stuck go(1) by (auto simp: bench_stuck_def buf_size_def)
  have size: "unat (buf_size ?buf) = length (buf_str ?buf)" using open_ by (simp add: unat_buf_size)
  have w: "?w \<noteq> 0" "?w \<le> buf_size ?buf" "?w \<le> conn_remaining_outbound_capacity (bn_x s)"
    using go by (auto simp: bench_want_def min_def)
  then have want: "0 < unat ?w" "unat ?w \<le> length (buf_str ?buf)" "length ?data = unat ?w"
    using size by (simp_all add: word_le_nat_alt unat_gt_0)
  have mute: "conn_mute False (bn_x s)" using stuck open_ by (simp add: bench_stuck_def)
  then obtain x n where x: "conn_write ?data (bn_x s) = Inr (x, n)" "conn_mute False x" using mute_write by blast
  have n: "n = ?w" using conn_write_whole [OF _ _ _ x(1)] mute want w(3) by (simp add: conn_mute_def word_le_nat_alt)
  obtain buf where buf: "buf_remove_prefix ?w ?buf = Inr buf" "buf_str buf = drop (unat ?w) (buf_str ?buf)" "buf_inv buf"
    using buf_remove_prefix_ok [of ?buf ?w] open_ want by blast
  have "bench_write_once s = Inr (s\<lparr>bn_x := x, bn_bytes_to_send := buf\<rparr>)"
    using x(1) n buf by (simp add: bench_write_once_def)
  then show ?thesis using stuck open_ x(2) buf want by (simp add: bench_stuck_def)
qed

lemma bench_stuck_write:
  assumes "bench_stuck s"
  shows "\<exists>t. bench_write s = Some (Inr t) \<and> bench_stuck t"
  using assms
proof (induction "length (buf_str (bn_bytes_to_send s))" arbitrary: s rule: less_induct)
  case less
  show ?case
  proof (cases "buf_size (bn_bytes_to_send s) \<noteq> 0 \<and> conn_remaining_outbound_capacity (bn_x s) \<noteq> 0")
    case True
    then obtain t where t: "bench_write_once s = Inr t" "bench_stuck t"
        "length (buf_str (bn_bytes_to_send t)) < length (buf_str (bn_bytes_to_send s))"
      using bench_stuck_write_once [OF less.prems] by blast
    then have "bench_write s = bench_write t" using True by (simp add: bench_write.simps [of s])
    then show ?thesis using less.hyps [OF t(3,2)] by simp
  next
    case False
    then show ?thesis using less.prems by (subst bench_write.simps) auto
  qed
qed

lemma bench_stuck_close:
  assumes "bench_stuck s"
  shows "\<exists>t. bench_close s = Inr t \<and> bench_stuck t"
proof (cases "buf_size (bn_bytes_to_send s) = 0 \<and> \<not> bn_x_closed s")
  case True
  have "length (buf_str (bn_bytes_to_send s)) = 0"
    using True assms unat_buf_size [of "bn_bytes_to_send s"] by (simp add: bench_stuck_def)
  then show ?thesis using True assms mute_end_input [of False "bn_x s"] by (auto simp: bench_stuck_def bench_close_def)
qed (use assms in \<open>auto simp: bench_close_def\<close>)

lemma bench_take_all: "bench_take x segments = (x\<lparr>conn_segments_out := []\<rparr>, segments @ conn_segments_out x)"
proof (induction x segments rule: bench_take.induct)
  case (1 x segments)
  then show ?case by (subst bench_take.simps) (cases "conn_segments_out x"; cases x; simp add: conn_pop_def)
qed

lemma deaf_give: "conn_deaf y \<Longrightarrow> list_all seg_quiet segments \<Longrightarrow> \<exists>z. bench_give segments y = Inr z \<and> conn_deaf z"
proof (induction segments arbitrary: y)
  case (Cons seg segments)
  then show ?case using deaf_segment [of y seg] by fastforce
qed simp

lemma bench_stuck_exchange:
  assumes "bench_stuck s"
  shows "\<exists>t. bench_exchange reorder s = Inr t \<and> bench_stuck t"
proof -
  note st = assms [unfolded bench_stuck_def]
  let ?x = "(bn_x s)\<lparr>conn_segments_out := []\<rparr>"
  let ?out = "conn_segments_out (bn_x s)"
  have "list_all seg_quiet ?out" using st by (simp add: conn_mute_def)
  then have "list_all seg_quiet (if reorder then rev ?out else ?out)" by (simp add: list_all_iff)
  then obtain y where y: "bench_give (if reorder then rev ?out else ?out) (bn_y s) = Inr y" "conn_deaf y"
    using deaf_give st by blast
  have yo: "conn_segments_out y = []" using y(2) by (simp add: conn_deaf_def)
  have out: "move_segments (bn_x s) (bn_y s) [] reorder = Inr (?x, y, [])"
      "move_segments y ?x [] False = Inr (y\<lparr>conn_segments_out := []\<rparr>, ?x, [])"
    using y(1) yo by (simp_all add: move_segments_def bench_take_all)
  have ye: "y\<lparr>conn_segments_out := []\<rparr> = y" using yo by (cases y) simp
  have "bench_exchange reorder s = Inr (s\<lparr>bn_x := ?x, bn_y := y\<rparr>)" using out ye by (simp add: bench_exchange_def)
  then show ?thesis using st y(2) by (simp add: bench_stuck_def conn_mute_def)
qed

lemma bench_stuck_loop:
  assumes "bench_stuck s"
  shows "\<exists>t. bench_loop reorder s = Some (Inr t) \<and> bench_stuck t"
proof -
  obtain a b c where steps: "bench_write s = Some (Inr a)" "bench_close a = Inr b" "bench_exchange reorder b = Inr c"
      and stuck: "bench_stuck c"
    using bench_stuck_write [OF assms] bench_stuck_close bench_stuck_exchange by blast
  have read: "bench_read c = c" using stuck by (simp add: bench_read_def bench_stuck_def conn_deaf_def)
  obtain x y where "conn_tick 1000 (bn_x c) = Inr x" "conn_mute (bn_x_closed c) x"
      "conn_tick 1000 (bn_y c) = Inr y" "conn_deaf y"
    using stuck mute_tick deaf_tick unfolding bench_stuck_def by blast
  then show ?thesis using steps read stuck by (simp add: bench_loop_def bench_ticks_def bench_stuck_def)
qed

lemma bench_stuck_reading: "bench_stuck s \<Longrightarrow> bench_reading s"
  by (simp add: bench_stuck_def conn_deaf_def bench_reading_def)

lemma bench_while_stuck:
  assumes "bench_while condition reorder s = Some r" and "condition = bench_reading"
  shows "\<not> bench_stuck s"
  using assms
proof (induction rule: bench_while.raw_induct [rotated, consumes 1, case_names body])
  case (body while condition reorder s r)
  then show ?case
    using bench_stuck_loop [of s reorder] bench_stuck_reading [of s]
    by (auto split: if_splits option.splits sum.splits)
qed

text \<open>The first rounds of the loop that waits for the end of the stream, with two unbroken connections.\<close>

fun bench_rounds :: "nat \<Rightarrow> bool \<Rightarrow> bench \<Rightarrow> bench option" where
  "bench_rounds 0 reorder s = Some s"
| "bench_rounds (Suc n) reorder s =
     (if bench_reading s \<and> conn_unbroken (bn_x s) \<and> conn_unbroken (bn_y s)
      then case bench_loop reorder s of Some (Inr s) \<Rightarrow> bench_rounds n reorder s | _ \<Rightarrow> None
      else None)"

lemma bench_rounds_while:
  "bench_rounds n reorder s = Some t \<Longrightarrow> bench_while bench_reading reorder s = bench_while bench_reading reorder t"
proof (induction n reorder s rule: bench_rounds.induct)
  case (2 n reorder s)
  then show ?case by (subst bench_while.simps) (auto split: if_splits option.splits sum.splits)
qed simp

lemma bench_stuck_hangs:
  assumes "bench_start rx ry config str = Inr s" and "bench_rounds n reorder s = Some t" and "bench_stuck t"
  shows "main_loop_with config rx ry str reorder = None"
proof -
  have "bench_while bench_reading reorder t = None"
    using bench_while_stuck [OF _ refl, of reorder t] assms(3) by (cases "bench_while bench_reading reorder t") auto
  then show ?thesis using assms(1) bench_rounds_while [OF assms(2)] by (simp add: main_loop_with_def)
qed

text \<open>A configuration with small windows, for concrete runs.\<close>

definition bench_small :: tcp_config where
  "bench_small = cfg_default\<lparr>cfg_recv_capacity := 1, cfg_send_capacity := 1,
     cfg_fixed_isn := Some (WrappingInt32 0xffffffff)\<rparr>"

section \<open>Properties\<close>

text \<open>The rounds of the benchmark, as long as neither connection has given up before the round.\<close>

inductive bench_run :: "bool \<Rightarrow> bench \<Rightarrow> bench \<Rightarrow> bool" for reorder s where
  start: "bench_run reorder s s"
| round: "bench_run reorder s t \<Longrightarrow> conn_unbroken (bn_x t) \<Longrightarrow> conn_unbroken (bn_y t) \<Longrightarrow>
    bench_loop reorder t = Some (Inr u) \<Longrightarrow> bench_run reorder s u"

lemma bench_run_kept:
  assumes "length str + 2 < 2 ^ 31" and "bench_ok str s" and "bench_run reorder s t"
  shows "bench_kept str t"
  using assms(3)
proof induction
  case start
  then show ?case using assms(2) unfolding bench_ok_def bench_kept_def net_ok_def by blast
next
  case (round t u)
  then show ?case using bench_loop_ok [OF assms(1) bench_kept_ok, of t reorder] by auto
qed

text \<open>
  (C3) The benchmark program is correct as far as it comes, whether or not it reorders the segments: it starts
  without an exception, every round with two unbroken connections returns (its inner loop ends, and the
  exception "want = ..., written = ..." is never thrown), and after every round what was received, followed
  by what is ready to be read, is a prefix of the string to send.
\<close>

theorem tcp_benchmark_delivers_prefix:
  assumes "cfg_ok config" and "length str + 2 < 2 ^ 31"
  shows "\<exists>s. bench_start rx ry config str = Inr s \<and> (\<forall>t. bench_run reorder s t \<longrightarrow>
    (\<exists>rest. str = bn_string_received t @ bs_contents (rcv_stream_out (conn_receiver (bn_y t))) @ rest)
    \<and> (conn_unbroken (bn_x t) \<longrightarrow> conn_unbroken (bn_y t) \<longrightarrow> (\<exists>u. bench_loop reorder t = Some (Inr u))))"
proof -
  obtain s where s: "bench_start rx ry config str = Inr s" "bench_ok str s" using bench_start_ok [OF assms] by blast
  have "(\<exists>rest. str = bn_string_received t @ bs_contents (rcv_stream_out (conn_receiver (bn_y t))) @ rest)
    \<and> (conn_unbroken (bn_x t) \<longrightarrow> conn_unbroken (bn_y t) \<longrightarrow> (\<exists>u. bench_loop reorder t = Some (Inr u)))"
    if "bench_run reorder s t" for t
  proof -
    have kept: "bench_kept str t" using assms(2) s(2) that by (rule bench_run_kept)
    then obtain a b where at: "bench_at str a b t" "ep_inv b a" unfolding bench_kept_def by blast
    then obtain rest where "ep_written a = ep_got b @ bs_contents (rcv_stream_out (conn_receiver (ep_conn b))) @ rest"
      using ep_inv_prefix by blast
    then have "\<exists>rest. str = bn_string_received t @ bs_contents (rcv_stream_out (conn_receiver (bn_y t))) @ rest"
      using at(1) by (simp add: bench_at_def)
    then show ?thesis using bench_loop_ok [OF assms(2) bench_kept_ok [OF kept]] by blast
  qed
  then show ?thesis using s(1) by blast
qed

theorem tcp_benchmark_delivers_prefix_witness:
  "\<exists>s t. bench_start 0 0 bench_small [1, 2, 3] = Inr s \<and> bench_loop True s = Some (Inr t)
    \<and> (\<exists>rest. [1, 2, 3] = bn_string_received t @ bs_contents (rcv_stream_out (conn_receiver (bn_y t))) @ rest)"
proof -
  have cfg: "cfg_ok bench_small" by (simp add: bench_small_def cfg_ok_def)
  obtain s where s: "bench_start 0 0 bench_small [1, 2, 3] = Inr s"
      and h: "bench_run True s t \<Longrightarrow>
        (\<exists>rest. [1, 2, 3] = bn_string_received t @ bs_contents (rcv_stream_out (conn_receiver (bn_y t))) @ rest)
        \<and> (conn_unbroken (bn_x t) \<longrightarrow> conn_unbroken (bn_y t) \<longrightarrow> (\<exists>u. bench_loop True t = Some (Inr u)))" for t
    using tcp_benchmark_delivers_prefix [OF cfg, of "[1, 2, 3]" 0 0 True] by auto
  have "map_sum id (\<lambda>s. conn_unbroken (bn_x s) \<and> conn_unbroken (bn_y s)) (bench_start 0 0 bench_small [1, 2, 3]) = Inr True"
    by code_simp
  then have un: "conn_unbroken (bn_x s)" "conn_unbroken (bn_y s)" using s by simp_all
  then obtain t where t: "bench_loop True s = Some (Inr t)" using h [OF bench_run.start] by blast
  show ?thesis using s t h [OF bench_run.round [OF bench_run.start un t]] by blast
qed

lemma bench_rounds_kept:
  assumes "length str + 2 < 2 ^ 31"
  shows "bench_kept str s \<Longrightarrow> bench_rounds n reorder s = Some t \<Longrightarrow> bench_kept str t"
proof (induction n reorder s rule: bench_rounds.induct)
  case (2 n reorder s)
  then obtain u where u: "bench_reading s \<and> conn_unbroken (bn_x s) \<and> conn_unbroken (bn_y s)"
      "bench_loop reorder s = Some (Inr u)" "bench_rounds n reorder u = Some t"
    by (auto split: if_splits option.splits sum.splits)
  then have "bench_kept str u" using bench_loop_ok [OF assms bench_kept_ok [OF "2.prems"(1)], of reorder] by auto
  then show ?case using "2.IH" [OF u(1,2) refl] u(3) by simp
qed simp

lemma bench_kept_x:
  assumes "bench_kept str s" and "conn_unbroken (bn_x s)"
  shows "bs_inv (snd_stream (conn_sender (bn_x s)))" and "bs_end_flag (snd_stream (conn_sender (bn_x s))) = bn_x_closed s"
    and "buf_inv (bn_bytes_to_send s)" and "bn_x_closed s \<longrightarrow> buf_str (bn_bytes_to_send s) = []"
proof -
  obtain a b where at: "bench_at str a b s" "ep_inv a b" using assms(1) unfolding bench_kept_def by blast
  then show "bs_inv (snd_stream (conn_sender (bn_x s)))"
    using assms(2) by (auto simp: bench_at_def ep_inv_def conn_fine_def conn_live_def snd_inv_def snd_stream_ok_def)
  show "bs_end_flag (snd_stream (conn_sender (bn_x s))) = bn_x_closed s"
    and "buf_inv (bn_bytes_to_send s)" and "bn_x_closed s \<longrightarrow> buf_str (bn_bytes_to_send s) = []"
    using at(1) by (simp_all add: bench_at_def)
qed

text \<open>
  The receiving side is in FIN_WAIT_2 with everything acknowledged and everything read, and the window of
  the sending side is full of segments with data and without a FIN.
\<close>

definition bench_starved :: "bench \<Rightarrow> bool" where
  "bench_starved s \<longleftrightarrow> conn_in (bn_y s) ST_FIN_WAIT_2 \<and> conn_segments_out (bn_y s) = []
     \<and> win_buffer (snd_window (conn_sender (bn_y s))) = []
     \<and> snd_consecutive_retransmissions (conn_sender (bn_y s)) \<le> MAX_RETX_ATTEMPTS
     \<and> bs_buffer_size (rcv_stream_out (conn_receiver (bn_y s))) = 0 \<and> \<not> bs_eof (rcv_stream_out (conn_receiver (bn_y s)))
     \<and> conn_unbroken (bn_x s) \<and> win_full (snd_window (conn_sender (bn_x s))) \<and> win_next_seqno (snd_window (conn_sender (bn_x s))) \<noteq> 0
     \<and> (\<forall>seg \<in> set (map ss_segment (win_buffer (snd_window (conn_sender (bn_x s)))) @ snd_segments_out (conn_sender (bn_x s))
         @ conn_segments_out (bn_x s)). \<not> th_fin (seg_header seg) \<and> seg_length seg \<noteq> 0)"

lemma bench_starved_stuck:
  assumes "bench_kept str s" and "bench_starved s"
  shows "bench_stuck s"
proof -
  note kept = bench_kept_x [OF assms(1)]
  have un: "conn_unbroken (bn_x s)" using assms(2) by (simp add: bench_starved_def)
  have "conn_deaf (bn_y s)" using assms(2) by (simp add: bench_starved_def conn_deaf_def not_less)
  moreover have "conn_mute (bn_x_closed s) (bn_x s)"
    using assms(2) kept(1,2) [OF un] by (simp add: bench_starved_def conn_mute_def list_all_iff seg_quiet_def)
  ultimately show ?thesis using kept(3,4) [OF un] by (simp add: bench_stuck_def)
qed

text \<open>
  (C16) The benchmark program hangs once it has come to the following point, for every configuration, string
  and order of delivery: the receiving side, which has closed its own direction, is in FIN_WAIT_2 with
  everything acknowledged and everything read, and the window of the sending side is full of segments
  with data and without a FIN. In FIN_WAIT_2 data without a FIN is thrown away and not acknowledged, so
  the sender repeats its window until it gives up, and the loop waits for ever for the end of the
  stream, however much of the string is still to be written. (A string that is longer than the windows
  leads to this point; the run below is an instance.)
\<close>

theorem tcp_benchmark_hangs:
  assumes "cfg_ok config" and "length str + 2 < 2 ^ 31" and "bench_start rx ry config str = Inr s0"
    and "bench_rounds n reorder s0 = Some s"
    and "conn_in (bn_y s) ST_FIN_WAIT_2" and "conn_segments_out (bn_y s) = []"
    and "win_buffer (snd_window (conn_sender (bn_y s))) = []"
    and "snd_consecutive_retransmissions (conn_sender (bn_y s)) \<le> MAX_RETX_ATTEMPTS"
    and "bs_buffer_size (rcv_stream_out (conn_receiver (bn_y s))) = 0" and "\<not> bs_eof (rcv_stream_out (conn_receiver (bn_y s)))"
    and "conn_unbroken (bn_x s)" and "win_full (snd_window (conn_sender (bn_x s)))" and "win_next_seqno (snd_window (conn_sender (bn_x s))) \<noteq> 0"
    and "\<forall>seg \<in> set (map ss_segment (win_buffer (snd_window (conn_sender (bn_x s)))) @ snd_segments_out (conn_sender (bn_x s))
         @ conn_segments_out (bn_x s)). \<not> th_fin (seg_header seg) \<and> seg_length seg \<noteq> 0"
  shows "main_loop_with config rx ry str reorder = None"
proof (rule bench_stuck_hangs [OF assms(3,4)])
  have "bench_ok str s0" using bench_start_ok [OF assms(1,2), of rx ry] assms(3) by auto
  then have "bench_kept str s0" unfolding bench_ok_def bench_kept_def net_ok_def by blast
  then show "bench_stuck s"
    using bench_rounds_kept [OF assms(2) _ assms(4)] assms(5-) bench_starved_stuck unfolding bench_starved_def by blast
qed

theorem tcp_benchmark_hangs_witness:
  "main_loop_with bench_small 0 0 [1, 2, 3, 4, 5, 6] False = None \<and> main_loop_with bench_small 0 0 [1, 2, 3, 4, 5, 6] True = None"
proof -
  let ?str = "[1, 2, 3, 4, 5, 6] :: bytes"
  let ?starves = "\<lambda>r. case bench_start 0 0 bench_small ?str of Inl _ \<Rightarrow> False | Inr s0 \<Rightarrow>
      (case bench_rounds 4 r s0 of None \<Rightarrow> False | Some s \<Rightarrow> bench_starved s)"
  have "main_loop_with bench_small 0 0 ?str r = None" if starves: "?starves r" for r
  proof -
    obtain s0 s where s: "bench_start 0 0 bench_small ?str = Inr s0" "bench_rounds 4 r s0 = Some s" "bench_starved s"
      using starves by (auto split: sum.splits option.splits)
    have "cfg_ok bench_small" by (simp add: bench_small_def cfg_ok_def)
    moreover have "length ?str + 2 < 2 ^ 31" by simp
    ultimately show ?thesis
      using tcp_benchmark_hangs [OF _ _ s(1,2)] s(3) unfolding bench_starved_def by blast
  qed
  moreover have "?starves False" "?starves True" by code_simp+
  ultimately show ?thesis by blast
qed

end
