(* ===== verification/Packet_Dump.thy ===== *)
theory Packet_Dump
  imports Text_Format
begin

text \<open>
  Showing packets: \<open>hexdump\<close> of \<open>libsponge/util/util.cc\<close>, the packet filter of \<open>apps/udp_tcpdump.cc\<close> from the
  captured frame to the text that is printed for it, and what \<open>apps/tun.cc\<close> prints for a packet. The
  capture library and \<open>inet_ntop\<close> are not part of the program: frames and the printed form of an address
  are arguments. A read outside the captured bytes is undefined behaviour.
\<close>

section \<open>hexdump\<close>

text \<open>A \<open>std::stringstream\<close> that is opened on a text writes over that text from its start.\<close>

type_synonym stringstream = "string \<times> nat"

definition sstr_open :: "string \<Rightarrow> stringstream" where
  "sstr_open str = (str, 0)"

definition sstr_put :: "char \<Rightarrow> stringstream \<Rightarrow> stringstream" where
  "sstr_put c s = (case s of (str, pos) \<Rightarrow> (take pos str @ [c] @ drop (Suc pos) str, Suc pos))"

definition sstr_str :: "stringstream \<Rightarrow> string" where
  "sstr_str s = fst s"

text \<open>\<open>std::setw\<close> with \<open>std::setfill('0')\<close>, and \<open>isprint\<close> in the C locale.\<close>

definition setw0 :: "nat \<Rightarrow> string \<Rightarrow> string" where
  "setw0 w str = replicate (w - length str) CHR ''0'' @ str"

definition isprint :: "uint8 \<Rightarrow> bool" where
  "isprint b \<longleftrightarrow> 0x20 \<le> b \<and> b \<le> 0x7e"

definition show_char :: "uint8 \<Rightarrow> char" where
  "show_char b = (if isprint b then char_of (unat b) else CHR ''.'')"

abbreviation blanks :: "nat \<Rightarrow> string" where
  "blanks n \<equiv> replicate n CHR '' ''"

text \<open>The body of the loop; \<open>printed\<close> counts the bytes, which are fewer than \<open>2^31\<close>.\<close>

fun hexdump_byte :: "string \<Rightarrow> nat \<times> stringstream \<times> string \<Rightarrow> uint8 \<Rightarrow> nat \<times> stringstream \<times> string" where
  "hexdump_byte indent_string (printed, pchars, cout) b =
     (let (pchars, cout) =
            (if printed mod 16 = 0
             then let (pchars, cout) =
                        (if printed \<noteq> 0 then (sstr_open '' '', cout @ blanks 4 @ sstr_str pchars @ new_line)
                         else (pchars, cout))
                  in (pchars, cout @ indent_string @ setw0 8 (hex_string printed) @ '':    '')
             else if printed mod 2 = 0 then (pchars, cout @ '' '')
             else (pchars, cout));
          cout = cout @ setw0 2 (hex_string (unat b));
          pchars = sstr_put (show_char b) pchars
      in (printed + 1, pchars, cout))"

definition hexdump :: "bytes \<Rightarrow> nat \<Rightarrow> string" where
  "hexdump data indent =
     (let indent_string = blanks indent;
          (printed, pchars, cout) = foldl (hexdump_byte indent_string) (0, sstr_open '' '', []) data;
          print_rem = (16 - printed mod 16) mod 16
      in cout @ blanks (2 * print_rem + print_rem div 2 + 4) @ sstr_str pchars @ new_line @ new_line)"

section \<open>Finding the UDP payload\<close>

text \<open>A read through a pointer into the captured bytes.\<close>

definition byte_at :: "bytes \<Rightarrow> nat \<Rightarrow> uint8 result" where
  "byte_at data i = (if i < length data then Inr (data ! i)
     else Inl (Undefined_Behaviour ''udp_tcpdump: read past the captured bytes''))"

definition bytes_at :: "bytes \<Rightarrow> nat \<Rightarrow> nat \<Rightarrow> bytes result" where
  "bytes_at data i n = (if i + n \<le> length data then Inr (take n (drop i data))
     else Inl (Undefined_Behaviour ''udp_tcpdump: read past the captured bytes''))"

text \<open>\<open>inet4_addr\<close> and \<open>inet6_addr\<close>: \<open>inet_ntop\<close> may fail.\<close>

definition inet_addr :: "(bytes \<Rightarrow> string option) \<Rightarrow> bytes \<Rightarrow> string" where
  "inet_addr inet_ntop addr = (case inet_ntop addr of None \<Rightarrow> ''unknown'' | Some str \<Rightarrow> str)"

text \<open>The loop over the extension headers of an IPv6 packet: it ends at the UDP header, or gives up.\<close>

function skip_extensions :: "bytes \<Rightarrow> uint8 \<Rightarrow> nat \<Rightarrow> nat option result" where
  "skip_extensions data nxt data_offset =
     (if nxt = 0x11 then Inr (Some data_offset)
      else if nxt \<noteq> 0 \<and> nxt \<noteq> 43 \<and> nxt \<noteq> 60 then Inr None
      else case byte_at data data_offset of
             Inl e \<Rightarrow> Inl e
           | Inr nxt \<Rightarrow> (case byte_at data (data_offset + 1) of
                 Inl e \<Rightarrow> Inl e
               | Inr l \<Rightarrow> let data_offset = data_offset + 8 * (1 + unat l)
                           in if length data < data_offset + 2 then Inr None
                              else skip_extensions data nxt data_offset))"
  by pat_completeness auto
termination
  by (relation "measure (\<lambda>(data, nxt, data_offset). length data - data_offset)") (auto simp: byte_at_def split: if_splits)

declare skip_extensions.simps [simp del]

text \<open>
  \<open>process_ipv4_ipv6\<close>; \<open>len\<close> is the length of the captured bytes. The answer is the offset of the payload
  of the UDP datagram with the two addresses, or \<open>None\<close> for the value -1.
\<close>

definition process_ipv4 :: "(bytes \<Rightarrow> string option) \<Rightarrow> bytes \<Rightarrow> uint8 \<Rightarrow> (nat \<times> string \<times> string) option result" where
  "process_ipv4 inet_ntop data first =
     (let data_offset = unat (first AND 0x0f) * 4
      in if length data < data_offset then Inr None
         else bind_res (byte_at data 9) (\<lambda>proto.
              if proto \<noteq> 0x11 then Inr None
              else bind_res (bytes_at data 12 4) (\<lambda>src. bind_res (bytes_at data 16 4) (\<lambda>dst.
                   Inr (Some (data_offset + 8, inet_addr inet_ntop src, inet_addr inet_ntop dst))))))"

definition process_ipv6 :: "(bytes \<Rightarrow> string option) \<Rightarrow> bytes \<Rightarrow> (nat \<times> string \<times> string) option result" where
  "process_ipv6 inet_ntop data =
     (if length data < 42 then Inr None
      else bind_res (byte_at data 6) (\<lambda>nxt. bind_res (skip_extensions data nxt 40) (\<lambda>off.
           case off of
             None \<Rightarrow> Inr None
           | Some data_offset \<Rightarrow> bind_res (bytes_at data 8 16) (\<lambda>src. bind_res (bytes_at data 24 16) (\<lambda>dst.
               Inr (Some (data_offset + 8, inet_addr inet_ntop src, inet_addr inet_ntop dst)))))))"

definition process_ipv4_ipv6 :: "(bytes \<Rightarrow> string option) \<Rightarrow> bytes \<Rightarrow> (nat \<times> string \<times> string) option result" where
  "process_ipv4_ipv6 inet_ntop data =
     (if length data < 1 then Inr None
      else bind_res (byte_at data 0) (\<lambda>first.
        if first AND 0xf0 = 0x40 then process_ipv4 inet_ntop data first
        else if first AND 0xf0 = 0x60 then process_ipv6 inet_ntop data
        else Inr None))"

section \<open>From the frame to the text\<close>

text \<open>The link types of the capture library that the program knows, and any other.\<close>

datatype datalink = DLT_NULL | DLT_RAW | DLT_EN10MB | DLT_LINUX_SLL | DLT_LINUX_SLL2 | DLT_OTHER

datatype link_verdict = Malformed | Not_IP | Mysterious | Network_At nat

definition ethertype_at :: "bytes \<Rightarrow> nat \<Rightarrow> nat \<Rightarrow> link_verdict result" where
  "ethertype_at pkt_data i hdr_off =
     bind_res (byte_at pkt_data i) (\<lambda>hi. bind_res (byte_at pkt_data (i + 1)) (\<lambda>lo.
       let pt = push_bit 8 (ucast hi) OR ucast lo :: uint16
       in Inr (if pt \<noteq> 0x0800 \<and> pt \<noteq> 0x86dd then Not_IP else Network_At hdr_off)))"

fun link_offset :: "datalink \<Rightarrow> bytes \<Rightarrow> link_verdict result" where
  "link_offset DLT_NULL pkt_data =
     (if length pkt_data < 4 then Inr Malformed
      else bind_res (byte_at pkt_data 3) (\<lambda>pt.
           Inr (if pt \<noteq> 2 \<and> pt \<noteq> 24 \<and> pt \<noteq> 28 \<and> pt \<noteq> 30 then Not_IP else Network_At 4)))"
| "link_offset DLT_EN10MB pkt_data = (if length pkt_data < 14 then Inr Malformed else ethertype_at pkt_data 12 14)"
| "link_offset DLT_LINUX_SLL pkt_data = (if length pkt_data < 16 then Inr Malformed else ethertype_at pkt_data 14 16)"
| "link_offset DLT_LINUX_SLL2 pkt_data = (if length pkt_data < 20 then Inr Malformed else ethertype_at pkt_data 0 20)"
| "link_offset DLT_RAW pkt_data = Inr (Network_At 0)"
| "link_offset DLT_OTHER pkt_data = Inr Mysterious"

text \<open>\<open>payload_len\<close> is computed with 64 bits. A \<open>std::string\<close> that is longer than the library allows is an
  exception; a shorter one that reaches past the captured bytes reads outside.\<close>

definition udp_payload :: "bytes \<Rightarrow> size_t \<Rightarrow> bytes result" where
  "udp_payload pkt_data payload_off =
     (let payload_len = size_of pkt_data - payload_off
      in if payload_len > 0x7fffffffffffffff then Inl (Length_Error ''basic_string::_M_create'')
         else bytes_at pkt_data (unat payload_off) (unat payload_len))"

text \<open>The line that is printed for a segment. \<open>res\<close> is not above \<open>BadChecksum\<close>.\<close>

definition tcp_line :: "string \<Rightarrow> string \<Rightarrow> tcp_segment \<Rightarrow> ParseResult \<Rightarrow> size_t \<Rightarrow> string" where
  "tcp_line src dst seg res payload_len =
     (let h = seg_header seg; seqlen = ucast (seg_length seg) :: uint32
      in src @ '':'' @ dec_string (unat (th_sport h)) @ '' > '' @ dst @ '':'' @ dec_string (unat (th_dport h))
         @ new_line @ ''    Flags [''
         @ (if th_urg h then ''U'' else []) @ (if th_psh h then ''P'' else []) @ (if th_rst h then ''R'' else [])
         @ (if th_syn h then ''S'' else []) @ (if th_fin h then ''F'' else []) @ (if th_ack h then ''.'' else [])
         @ ''] cksum 0x'' @ setw0 4 (hex_string (unat (th_cksum h)))
         @ (if res = NoError then '' (correct)'' else '' (incorrect!)'')
         @ '' seq '' @ dec_string (unat (raw_value (th_seqno h)))
         @ (if seqlen > 0 then '':'' @ dec_string (unat (raw_value (wint_plus (th_seqno h) seqlen))) else [])
         @ '' ack '' @ dec_string (unat (raw_value (th_ackno h))) @ '' win '' @ dec_string (unat (th_win h))
         @ '' length '' @ dec_string (unat payload_len) @ new_line)"

definition show_payload :: "string \<Rightarrow> string \<Rightarrow> bytes \<Rightarrow> string result" where
  "show_payload src dst payload =
     bind_res (seg_parse seg_new (buf_of_string payload) 0) (\<lambda>(seg, res).
       Inr ((if res \<noteq> NoError \<and> res \<noteq> BadChecksum
             then ''(did not recognize TCP header) src: '' @ src @ '' dst: '' @ dst @ new_line
             else tcp_line src dst seg res (size_of payload)) @ hexdump payload 8))"

datatype shown = Skipped | Gave_Up | Shown string

text \<open>One round of the capture loop.\<close>

definition dump_frame :: "(bytes \<Rightarrow> string option) \<Rightarrow> datalink \<Rightarrow> bytes \<Rightarrow> shown result" where
  "dump_frame inet_ntop dl_type pkt_data =
     bind_res (link_offset dl_type pkt_data) (\<lambda>v. case v of
         Malformed \<Rightarrow> Inr Skipped
       | Not_IP \<Rightarrow> Inr Skipped
       | Mysterious \<Rightarrow> Inr Gave_Up
       | Network_At hdr_off \<Rightarrow> bind_res (process_ipv4_ipv6 inet_ntop (drop hdr_off pkt_data)) (\<lambda>r. case r of
             None \<Rightarrow> Inr Skipped
           | Some (start_off, src, dst) \<Rightarrow>
               bind_res (udp_payload pkt_data (of_nat (hdr_off + start_off))) (\<lambda>payload.
               bind_res (show_payload src dst payload) (\<lambda>text. Inr (Shown text)))))"

section \<open>tun.cc\<close>

text \<open>What is printed for a packet that was read from the device.\<close>

definition show_tun_packet :: "bytes \<Rightarrow> string result" where
  "show_tun_packet data =
     (let out = new_line @ new_line @ ''***'' @ new_line @ ''*** Got packet:'' @ new_line @ ''***'' @ new_line
            @ hexdump data 0 @ ''attempting to parse as ipv4 datagram... ''
      in bind_res (ip_parse ip_new (buf_of_string data)) (\<lambda>(ip_dgram, res).
         if res \<noteq> NoError then Inr (out @ ''failed.'' @ new_line)
         else let out = out @ ''success! totlen='' @ dec_string (unat (ih_len (ip_header ip_dgram)))
                    @ '', IPv4 header contents:'' @ new_line @ ih_to_string (ip_header ip_dgram)
              in if ih_proto (ip_header ip_dgram) \<noteq> PROTO_TCP
                 then Inr (out @ new_line @ ''Not TCP, skipping.'' @ new_line)
                 else let out = out @ new_line @ ''Attempting to parse as a TCP segment... ''
                      in bind_res (blist_to_buffer (ip_payload ip_dgram)) (\<lambda>payload.
                         bind_res (seg_parse seg_new payload (ih_pseudo_cksum (ip_header ip_dgram))) (\<lambda>(tcp_seg, res).
                         if res \<noteq> NoError then Inr (out @ ''failed.'' @ new_line)
                         else Inr (out @ ''success! payload len='' @ dec_string (unat (buf_size (seg_payload tcp_seg)))
                                @ '', TCP header contents:'' @ new_line @ th_to_string (seg_header tcp_seg) @ new_line)))))"

section \<open>The layout of a dump\<close>

text \<open>What a dump is meant to look like: lines of up to sixteen bytes, each with the offset of its first
  byte, the bytes in groups of two, and then the characters, which start in the same column in every line.\<close>

definition dump_hex :: "bytes \<Rightarrow> string" where
  "dump_hex bs = concat (map (\<lambda>i. (if i \<noteq> 0 \<and> i mod 2 = 0 then '' '' else []) @ setw0 2 (hex_string (unat (bs ! i))))
     [0..<length bs])"

definition dump_left :: "nat \<Rightarrow> nat \<Rightarrow> bytes \<Rightarrow> string" where
  "dump_left indent k bs = blanks indent @ setw0 8 (hex_string k) @ '':    '' @ dump_hex bs"

definition dump_line :: "nat \<Rightarrow> nat \<Rightarrow> bytes \<Rightarrow> string" where
  "dump_line indent k bs =
     (let left = dump_left indent k bs in left @ blanks (indent + 56 - length left) @ map show_char bs @ new_line)"

function dump_lines :: "nat \<Rightarrow> nat \<Rightarrow> bytes \<Rightarrow> string" where
  "dump_lines indent k data = (if data = [] then [] else dump_line indent k (take 16 data) @ dump_lines indent (k + 16) (drop 16 data))"
  by pat_completeness auto
termination
  by (relation "measure (\<lambda>(indent, k, data). length data)") auto

declare dump_lines.simps [simp del]

lemma dump_hex_snoc:
  "dump_hex (bs @ [b]) = dump_hex bs @ (if bs \<noteq> [] \<and> length bs mod 2 = 0 then '' '' else []) @ setw0 2 (hex_string (unat b))"
proof -
  have "map (\<lambda>i. (if i \<noteq> 0 \<and> i mod 2 = 0 then '' '' else []) @ setw0 2 (hex_string (unat ((bs @ [b]) ! i)))) [0..<length bs]
      = map (\<lambda>i. (if i \<noteq> 0 \<and> i mod 2 = 0 then '' '' else []) @ setw0 2 (hex_string (unat (bs ! i)))) [0..<length bs]"
    by (rule map_cong) (simp_all add: nth_append)
  then show ?thesis by (simp add: dump_hex_def del: map_eq_conv)
qed

lemma length_setw0: "length str \<le> w \<Longrightarrow> length (setw0 w str) = w"
  by (simp add: setw0_def)

lemma length_hex_string: "n < 16 ^ Suc k \<Longrightarrow> length (hex_string n) \<le> Suc k"
proof (induction k arbitrary: n)
  case (Suc k)
  then have "n div 16 < 16 ^ Suc k" by (simp add: less_mult_imp_div_less mult.commute)
  then show ?case using Suc.IH [of "n div 16"] by (simp add: base_string.simps [of 16 n])
qed (simp add: base_string.simps)

lemma length_hex_byte [simp]: "length (setw0 2 (hex_string (unat (b :: uint8)))) = 2"
proof -
  have "unat b < 16 ^ Suc 1" using unsigned_less [of b, where 'a = nat] by simp
  then have "length (hex_string (unat b)) \<le> Suc 1" by (rule length_hex_string)
  then show ?thesis by (intro length_setw0) simp
qed

lemma length_dump_hex: "length (dump_hex bs) = 2 * length bs + (length bs - 1) div 2"
proof (induction bs rule: rev_induct)
  case (snoc b bs)
  have "length (dump_hex (bs @ [b])) = length (dump_hex bs) + (if bs \<noteq> [] \<and> length bs mod 2 = 0 then 1 else 0) + 2"
    by (simp add: dump_hex_snoc)
  moreover have "n \<noteq> 0 \<Longrightarrow> (if n mod 2 = 0 then 1 else 0) + (n - 1) div 2 = n div 2" for n :: nat by presburger
  from this [of "length bs"] have "bs \<noteq> [] \<Longrightarrow>
      (if length bs mod 2 = 0 then 1 else 0) + (length bs - 1) div 2 = length bs div 2" by simp
  ultimately show ?case using snoc.IH by (cases "bs = []") (auto split: if_splits)
qed (simp add: dump_hex_def)

text \<open>The spacing that \<open>hexdump\<close> computes before the characters is the one that aligns them.\<close>

lemma dump_spacing:
  assumes "0 < length bs" and "length bs \<le> 16" and "k < 16 ^ 8"
  shows "indent + 56 - length (dump_left indent k bs) = 2 * (16 - length bs) + (16 - length bs) div 2 + 4"
proof -
  have "length (hex_string k) \<le> Suc 7" using assms(3) by (intro length_hex_string) simp
  then have "length (setw0 8 (hex_string k)) = 8" by (intro length_setw0) simp
  then have "length (dump_left indent k bs) = indent + 13 + (2 * length bs + (length bs - 1) div 2)"
    by (simp add: dump_left_def length_dump_hex)
  moreover have "(n - 1) div 2 + (16 - n) div 2 = 7" if "0 < n" "n \<le> 16" for n :: nat
    using that by presburger
  from this [OF assms(1,2)] have "(length bs - 1) div 2 + (16 - length bs) div 2 = 7" .
  ultimately show ?thesis using assms(1,2) by linarith
qed

text \<open>One line of the loop.\<close>

lemma hexdump_line:
  assumes "0 < length bs" and "length bs \<le> 16"
  shows "foldl (hexdump_byte (blanks indent)) (16 * k, pchars, cout) bs = (16 * k + length bs,
    (if k = 0 then foldl (\<lambda>s b. sstr_put (show_char b) s) pchars bs else (map show_char bs, length bs)),
    cout @ (if k = 0 then [] else blanks 4 @ sstr_str pchars @ new_line) @ dump_left indent (16 * k) bs)"
  using assms
proof (induction bs rule: rev_induct)
  case (snoc b bs)
  show ?case
  proof (cases "bs = []")
    case True
    then show ?thesis
      by (simp add: dump_left_def dump_hex_def sstr_put_def sstr_open_def Let_def)
  next
    case False
    then have "length bs mod 16 = length bs" "length bs \<noteq> 0" using snoc.prems by simp_all
    then show ?thesis using snoc.IH snoc.prems False
      by (auto simp: dump_left_def dump_hex_snoc sstr_put_def Let_def mod_add_left_eq [symmetric])
  qed
qed simp

lemma sstr_put_all:
  "bs \<noteq> [] \<Longrightarrow> foldl (\<lambda>s b. sstr_put (show_char b) s) (sstr_open '' '') bs = (map show_char bs, length bs)"
proof (induction bs rule: rev_induct)
  case (snoc b bs)
  then show ?case by (cases "bs = []") (auto simp: sstr_put_def sstr_open_def)
qed simp

text \<open>The lines of the loop after the first byte, with what is printed at the end.\<close>

abbreviation dump_done :: "nat \<times> stringstream \<times> string \<Rightarrow> string" where
  "dump_done r \<equiv> (case r of (printed, pchars, cout) \<Rightarrow> let print_rem = (16 - printed mod 16) mod 16
     in cout @ blanks (2 * print_rem + print_rem div 2 + 4) @ sstr_str pchars @ new_line @ new_line)"

lemma hexdump_tail:
  assumes "data \<noteq> []" and "16 * k + length data \<le> 16 ^ 8" and "k = 0 \<longrightarrow> pchars = sstr_open '' ''"
  shows "dump_done (foldl (hexdump_byte (blanks indent)) (16 * k, pchars, cout) data)
    = cout @ (if k = 0 then [] else blanks 4 @ sstr_str pchars @ new_line) @ dump_lines indent (16 * k) data @ new_line"
  using assms
proof (induction "length data" arbitrary: data k pchars cout rule: less_induct)
  case less
  let ?bs = "take 16 data" and ?sep = "if k = 0 then [] else blanks 4 @ sstr_str pchars @ new_line"
  have bs: "0 < length ?bs" "length ?bs \<le> 16" "?bs \<noteq> []" using less.prems(1) by auto
  have "16 * k < 16 ^ 8" using less.prems(1,2) by (cases data) auto
  note space = dump_spacing [OF bs(1,2) this]
  have line: "foldl (hexdump_byte (blanks indent)) (16 * k, pchars, cout) ?bs
      = (16 * k + length ?bs, (map show_char ?bs, length ?bs), cout @ ?sep @ dump_left indent (16 * k) ?bs)"
    using hexdump_line [OF bs(1,2)] sstr_put_all [OF bs(3)] less.prems(3) by simp
  show ?case
  proof (cases "length data \<le> 16")
    case True
    have rem: "(16 - length data mod 16) mod 16 = 16 - length data"
      using True less.prems(1) by (cases "length data = 16") simp_all
    have "dump_lines indent (16 * k) data = dump_line indent (16 * k) data"
      using True less.prems(1) by (simp add: dump_lines.simps [of indent "16 * k"] dump_lines.simps [of indent "16 * k + 16"])
    then show ?thesis using line space True
      by (simp add: rem dump_line_def Let_def sstr_str_def)
  next
    case False
    let ?cout = "cout @ ?sep @ dump_left indent (16 * k) ?bs"
    have "foldl (hexdump_byte (blanks indent)) (16 * k, pchars, cout) (?bs @ drop 16 data)
        = foldl (hexdump_byte (blanks indent)) (16 * (k + 1), (map show_char ?bs, 16), ?cout) (drop 16 data)"
      using line False by (simp only: foldl_append) (simp add: add.commute)
    moreover have "dump_done (foldl (hexdump_byte (blanks indent)) (16 * (k + 1), (map show_char ?bs, 16), ?cout) (drop 16 data))
        = ?cout @ (blanks 4 @ map show_char ?bs @ new_line) @ dump_lines indent (16 * (k + 1)) (drop 16 data) @ new_line"
      using less.hyps [of "drop 16 data" "k + 1" "(map show_char ?bs, 16)" ?cout] less.prems False
      by (simp add: sstr_str_def)
    moreover have "dump_lines indent (16 * k) data
        = dump_line indent (16 * k) ?bs @ dump_lines indent (16 * (k + 1)) (drop 16 data)"
      using less.prems(1) by (simp add: dump_lines.simps [of indent "16 * k" data] add.commute)
    ultimately show ?thesis using space False
      by (simp add: dump_line_def Let_def)
  qed
qed

section \<open>What the packet filter reads\<close>

lemma byte_at_Inr [simp]: "i < length data \<Longrightarrow> byte_at data i = Inr (data ! i)"
  by (simp add: byte_at_def)

lemma bytes_at_Inr [simp]: "i + n \<le> length data \<Longrightarrow> bytes_at data i n = Inr (take n (drop i data))"
  by (simp add: bytes_at_def)

text \<open>The loop over extension headers stays inside the packet.\<close>

lemma skip_extensions_ok:
  "data_offset + 2 \<le> length data \<Longrightarrow> \<exists>off. skip_extensions data nxt data_offset = Inr off
    \<and> (\<forall>n. off = Some n \<longrightarrow> data_offset \<le> n \<and> n + 2 \<le> length data)"
proof (induction data nxt data_offset rule: skip_extensions.induct)
  case (1 data nxt data_offset)
  let ?n = "data_offset + 8 * (1 + unat (data ! (data_offset + 1)))"
  show ?case
  proof (cases "nxt = 0x11 \<or> (nxt \<noteq> 0 \<and> nxt \<noteq> 43 \<and> nxt \<noteq> 60) \<or> length data < ?n + 2")
    case True
    then show ?thesis using "1.prems" by (subst skip_extensions.simps) auto
  next
    case False
    then have eq: "skip_extensions data nxt data_offset = skip_extensions data (data ! data_offset) ?n"
      using "1.prems" by (subst skip_extensions.simps) auto
    have "\<exists>off. skip_extensions data (data ! data_offset) ?n = Inr off
        \<and> (\<forall>n. off = Some n \<longrightarrow> ?n \<le> n \<and> n + 2 \<le> length data)"
      using "1.prems" False by (intro "1.IH") auto
    then show ?thesis unfolding eq by fastforce
  qed
qed

lemma process_ipv6_ok:
  "\<exists>r. process_ipv6 inet_ntop data = Inr r \<and> (\<forall>off src dst. r = Some (off, src, dst) \<longrightarrow> off \<le> length data + 6)"
proof (cases "length data < 42")
  case False
  then obtain off where "skip_extensions data (data ! 6) 40 = Inr off"
      "\<forall>n. off = Some n \<longrightarrow> 40 \<le> n \<and> n + 2 \<le> length data"
    using skip_extensions_ok [of 40 data "data ! 6"] by auto
  then show ?thesis using False by (cases off) (auto simp: process_ipv6_def)
qed (simp add: process_ipv6_def)

definition past_capture :: cpp_error where
  "past_capture = Undefined_Behaviour ''udp_tcpdump: read past the captured bytes''"

text \<open>The IPv4 packets for which \<open>process_ipv4_ipv6\<close> reads past their end: it looks at the protocol and the
  addresses after comparing the length with the header length that the packet itself announces.\<close>

definition cut_ipv4 :: "bytes \<Rightarrow> bool" where
  "cut_ipv4 data \<longleftrightarrow> data \<noteq> [] \<and> data ! 0 AND 0xf0 = 0x40 \<and> unat (data ! 0 AND 0x0f) * 4 \<le> length data
     \<and> (length data < 10 \<or> data ! 9 = 0x11 \<and> length data < 20)"

lemma process_ipv4_result:
  "process_ipv4 inet_ntop data first =
    (if length data < unat (first AND 0x0f) * 4 then Inr None
     else if length data < 10 then Inl past_capture
     else if data ! 9 \<noteq> 0x11 then Inr None
     else if length data < 20 then Inl past_capture
     else Inr (Some (unat (first AND 0x0f) * 4 + 8, inet_addr inet_ntop (take 4 (drop 12 data)),
       inet_addr inet_ntop (take 4 (drop 16 data)))))"
  by (auto simp: process_ipv4_def Let_def byte_at_def bytes_at_def past_capture_def)

lemma process_ip_throws: "process_ipv4_ipv6 inet_ntop data = Inl e \<longleftrightarrow> cut_ipv4 data \<and> e = past_capture"
proof (cases data)
  case (Cons first rest)
  then show ?thesis using process_ipv6_ok [of inet_ntop data]
    by (auto simp: process_ipv4_ipv6_def process_ipv4_result cut_ipv4_def split: if_splits)
qed (simp add: process_ipv4_ipv6_def cut_ipv4_def)

lemma process_ip_offset:
  assumes "process_ipv4_ipv6 inet_ntop data = Inr (Some (off, src, dst))"
  shows "off \<le> length data + 8"
  using assms process_ipv6_ok [of inet_ntop data]
  by (auto simp: process_ipv4_ipv6_def process_ipv4_result bind_res_eq_Inr split: if_splits)

text \<open>Where the network layer of a frame starts.\<close>

lemma link_offset_ok:
  "\<exists>v. link_offset dl pkt = Inr v \<and> (\<forall>off. v = Network_At off \<longrightarrow> off \<le> length pkt)"
  by (cases dl) (auto simp: ethertype_at_def byte_at_def Let_def)

lemma show_payload_ok:
  assumes "length payload < 2 ^ 64"
  shows "\<exists>text. show_payload src dst payload = Inr text"
proof -
  let ?b = "buf_of_string payload"
  have inv: "buf_inv ?b" using assms by simp
  have "\<exists>h q r. th_parse (np_new ?b) = Inr (h, q, r)"
    using th_parse_short [OF inv] th_parse_result [OF inv] by (meson not_le)
  then show ?thesis by (auto simp: show_payload_def seg_parse_def Let_def)
qed

lemma udp_payload_result:
  assumes "length pkt < 2 ^ 31" and "off \<le> length pkt + 8"
  shows "udp_payload pkt (of_nat off) = (if length pkt < off then Inl (Length_Error ''basic_string::_M_create'')
    else Inr (drop off pkt))"
proof (cases "length pkt < off")
  case True
  then have k: "0 < off - length pkt" "off - length pkt \<le> 8" "size_of pkt - of_nat off = - (of_nat (off - length pkt) :: size_t)"
    using assms by (simp_all add: of_nat_diff)
  have u: "unat (of_nat (off - length pkt) :: size_t) = off - length pkt"
    using k(2) by (intro unat_of_nat_less) simp
  then have "(of_nat (off - length pkt) :: size_t) \<noteq> 0" using k(1) by (metis unat_0 less_irrefl)
  then have "unat (- (of_nat (off - length pkt) :: size_t)) = 2 ^ 64 - (off - length pkt)"
    by (subst unat_uminus) (simp_all add: u)
  then have "0x7fffffffffffffff < - (of_nat (off - length pkt) :: size_t)"
    using k(2) unfolding word_less_nat_alt by simp
  then show ?thesis using True unfolding udp_payload_def Let_def k(3) by simp
next
  case False
  then have "unat (size_of pkt - (of_nat off :: size_t)) = length pkt - off" "unat (of_nat off :: size_t) = off"
    using assms by (simp_all add: unat_of_nat_less flip: of_nat_diff)
  then show ?thesis using False assms by (simp add: udp_payload_def Let_def word_less_nat_alt)
qed

section \<open>Properties\<close>

text \<open>
  \<open>hexdump\<close> prints what its layout promises: lines of sixteen bytes, with the offset and the bytes in pairs
  on the left and the characters on the right, which start in the same column in every line, also in the
  last one. (An empty packet is no line at all.)
\<close>

lemma hexdump_layout:
  assumes "data \<noteq> []" and "length data < 2 ^ 31"
  shows "hexdump data indent = dump_lines indent 0 data @ new_line"
proof -
  have "dump_done (foldl (hexdump_byte (blanks indent)) (16 * 0, sstr_open '' '', []) data)
      = dump_lines indent (16 * 0) data @ new_line"
    using hexdump_tail [of data 0 "sstr_open '' ''" indent "[]"] assms by simp
  then show ?thesis by (simp add: hexdump_def Let_def split: prod.splits)
qed

text \<open>
  (C37) When the packet filter fails. For every captured frame it skips the frame, gives up on an unknown link
  type or prints a text, with two exceptions: an IPv4 packet that is cut off inside its fixed header is
  read past its end, and a packet that ends inside its UDP header makes the length of the payload wrap
  around, so that the program ends with an uncaught exception. The loop over the extension headers of IPv6
  always ends and stays inside the packet.
\<close>

theorem tcpdump_exceptions:
  assumes "length pkt < 2 ^ 31"
  shows "dump_frame ntop dl pkt = Inl e \<longleftrightarrow> (\<exists>off. link_offset dl pkt = Inr (Network_At off)
    \<and> (cut_ipv4 (drop off pkt) \<and> e = past_capture
       \<or> (\<exists>start src dst. process_ipv4_ipv6 ntop (drop off pkt) = Inr (Some (start, src, dst))
            \<and> length pkt < off + start \<and> e = Length_Error ''basic_string::_M_create'')))"
proof -
  obtain v where v: "link_offset dl pkt = Inr v" "\<forall>off. v = Network_At off \<longrightarrow> off \<le> length pkt"
    using link_offset_ok by blast
  show ?thesis
  proof (cases v)
    case (Network_At off)
    let ?p = "process_ipv4_ipv6 ntop (drop off pkt)"
    have eq: "dump_frame ntop dl pkt = bind_res ?p (\<lambda>r. case r of None \<Rightarrow> Inr Skipped
        | Some (start, src, dst) \<Rightarrow> bind_res (udp_payload pkt (of_nat (off + start))) (\<lambda>payload.
            bind_res (show_payload src dst payload) (\<lambda>text. Inr (Shown text))))"
      by (simp only: dump_frame_def v(1) Network_At bind_res_simps link_verdict.case)
    have shown: "(bind_res (udp_payload pkt (of_nat (off + start))) (\<lambda>payload.
          bind_res (show_payload src dst payload) (\<lambda>text. Inr (Shown text))) = Inl e)
        = (length pkt < off + start \<and> e = Length_Error ''basic_string::_M_create'')"
      if "?p = Inr (Some (start, src, dst))" for start src dst
    proof -
      have "off + start \<le> length pkt + 8" using process_ip_offset [OF that] v(2) Network_At by simp
      moreover have "length (drop (off + start) pkt) < 2 ^ 64" using assms by simp
      then obtain str where "show_payload src dst (drop (off + start) pkt) = Inr str"
        using show_payload_ok by blast
      ultimately show ?thesis
        using udp_payload_result [OF assms, of "off + start"] by (auto split: if_splits)
    qed
    show ?thesis
    proof (cases ?p)
      case (Inl x)
      then have "cut_ipv4 (drop off pkt)" "x = past_capture" using process_ip_throws [of ntop "drop off pkt" x] by simp_all
      then show ?thesis using Inl v(1) Network_At by (auto simp: eq)
    next
      case (Inr r)
      then have "\<not> cut_ipv4 (drop off pkt)" using process_ip_throws [of ntop "drop off pkt" past_capture] by simp
      then show ?thesis using Inr shown v(1) Network_At by (cases r) (auto simp: eq)
    qed
  qed (simp_all add: dump_frame_def v(1))
qed

theorem tcpdump_exceptions_witness:
  "dump_frame (\<lambda>_. None) DLT_RAW [0x40] = Inl past_capture
    \<and> dump_frame (\<lambda>_. None) DLT_RAW [0x45, 0, 0, 20, 0, 0, 0, 0, 64, 0x11, 0, 0, 10, 0, 0, 1, 10, 0, 0, 2]
        = Inl (Length_Error ''basic_string::_M_create'')"
proof (intro conjI)
  show "dump_frame (\<lambda>_. None) DLT_RAW [0x40] = Inl past_capture"
    using tcpdump_exceptions [of "[0x40]" "\<lambda>_. None" DLT_RAW past_capture] by (simp add: cut_ipv4_def)
  let ?pkt = "[0x45, 0, 0, 20, 0, 0, 0, 0, 64, 0x11, 0, 0, 10, 0, 0, 1, 10, 0, 0, 2]"
  have "process_ipv4_ipv6 (\<lambda>_. None) ?pkt = Inr (Some (28, ''unknown'', ''unknown''))" by code_simp
  then show "dump_frame (\<lambda>_. None) DLT_RAW ?pkt = Inl (Length_Error ''basic_string::_M_create'')"
    using tcpdump_exceptions [of ?pkt "\<lambda>_. None" DLT_RAW "Length_Error ''basic_string::_M_create''"] by simp
qed

text \<open>
  For a segment whose checksum is wrong the packet filter prints a header of zeros: the parser leaves the
  segment as it was constructed.
\<close>

lemma tcpdump_bad_checksum:
  assumes "ck_value (ck_add (ck_new 0) payload) \<noteq> 0"
  shows "show_payload src dst payload = Inr (tcp_line src dst seg_new BadChecksum (size_of payload) @ hexdump payload 8)"
  using assms by (simp add: show_payload_def seg_parse_def Let_def)

end
