(* ===== verification/Programs.thy ===== *)
theory Programs
  imports Socket Stream_Copy
begin

text \<open>
  Two command-line programs that use the sockets of the operating system: \<open>apps/webget.cc\<close>, which fetches a
  page, and \<open>apps/tcp_native.cc\<close>, which copies between a socket and the standard streams. What they print
  to the error stream is not modelled; what \<open>webget\<close> prints to the standard output is part of its result.
\<close>

section \<open>webget\<close>

definition text_bytes :: "string \<Rightarrow> bytes" where
  "text_bytes str = map of_char str"

abbreviation crlf :: string where
  "crlf \<equiv> [CHR 0x0D, CHR 0x0A]"

text \<open>The strings that are written to the first and to the second socket.\<close>

definition first_request :: "string \<Rightarrow> bytes list" where
  "first_request path = map text_bytes [crlf, ''GET '', path, '' HTTP/1.1'' @ crlf,
     ''User-Agent: Mozilla/5.0 (Windows NT 10.0; Win64; x64) AppleWebKit/537.36 (KHTML, like Gecko) Chrome/99.0.4844.51 Safari/537.36 Edg/99.0.1150.30'' @ crlf,
     ''Host: cs144.keithw.org'' @ crlf, ''Connection: close'' @ crlf @ crlf, crlf]"

definition second_request :: "string \<Rightarrow> bytes list" where
  "second_request path = map text_bytes [crlf, ''GET '', path, '' HTTP/1.1'' @ crlf,
     ''Host: cs144.keithw.org'' @ crlf, ''Connection: close'' @ crlf @ crlf, crlf]"

fun write_strings :: "'k kernel \<Rightarrow> bytes list \<Rightarrow> file_descriptor \<Rightarrow> 'k \<Rightarrow> (file_descriptor \<times> 'k) result" where
  "write_strings k [] socket w = Inr (socket, w)"
| "write_strings k (str # strs) socket w =
     bind_res (fd_write k (bview_of_string str) True socket w) (\<lambda>(_, socket, w). write_strings k strs socket w)"

text \<open>The loop that prints; its value is \<open>None\<close> if the server never stops sending.\<close>

partial_function (option) print_all :: "'k kernel \<Rightarrow> file_descriptor \<Rightarrow> 'k \<Rightarrow> bytes
    \<Rightarrow> (file_descriptor \<times> 'k \<times> bytes) result option" where
  "print_all k socket w cout =
     (case fd_read k (-1) socket w of
        Inl e \<Rightarrow> Some (Inl e)
      | Inr (str, socket, w) \<Rightarrow>
          if fdw_eof socket
          then Some (bind_res (fd_close k socket w) (\<lambda>(socket, w). Inr (socket, w, cout)))
          else print_all k socket w (cout @ str))"

text \<open>One connection: both halves of \<open>get_URL\<close> are such a fetch.\<close>

definition open_http :: "'k kernel \<Rightarrow> getaddrinfo \<Rightarrow> string \<Rightarrow> 'k \<Rightarrow> (file_descriptor \<times> 'k) result" where
  "open_http k gai host w =
     bind_res (tcp_socket_new k w) (\<lambda>(socket, w).
     bind_res (addr_of_host gai host ''http'') (\<lambda>address.
     bind_res (sock_connect k address socket w) (\<lambda>w. Inr (socket, w))))"

definition fetch_page :: "'k kernel \<Rightarrow> getaddrinfo \<Rightarrow> string \<Rightarrow> bytes list \<Rightarrow> 'k \<Rightarrow> bytes
    \<Rightarrow> (file_descriptor \<times> 'k \<times> bytes) result option" where
  "fetch_page k gai host request w cout =
     (case bind_res (open_http k gai host w) (\<lambda>(socket, w). write_strings k request socket w) of
        Inl e \<Rightarrow> Some (Inl e)
      | Inr (socket, w) \<Rightarrow> print_all k socket w cout)"

definition get_URL :: "'k kernel \<Rightarrow> getaddrinfo \<Rightarrow> string \<Rightarrow> string \<Rightarrow> 'k
    \<Rightarrow> (file_descriptor \<times> file_descriptor \<times> 'k \<times> bytes) result option" where
  "get_URL k gai host path w =
     (case fetch_page k gai host (first_request path) w [] of
        None \<Rightarrow> None
      | Some (Inl e) \<Rightarrow> Some (Inl e)
      | Some (Inr (socket, w, cout)) \<Rightarrow> map_option (\<lambda>r. bind_res r (\<lambda>(socket_connect, w, cout).
          Inr (socket, socket_connect, w, cout))) (fetch_page k gai host (second_request path) w cout))"

text \<open>\<open>main\<close>: the exit status. An exception ends the program with a failure; \<open>None\<close> is a call of \<open>abort\<close>.\<close>

definition EXIT_SUCCESS :: int where "EXIT_SUCCESS = 0"
definition EXIT_FAILURE :: int where "EXIT_FAILURE = 1"

definition webget_main :: "'k kernel \<Rightarrow> getaddrinfo \<Rightarrow> string list \<Rightarrow> 'k \<Rightarrow> int option option" where
  "webget_main k gai argv w =
     (if length argv \<le> 0 then Some None
      else if length argv \<noteq> 3 then Some (Some EXIT_FAILURE)
      else map_option (\<lambda>r. case r of Inl e \<Rightarrow> Some EXIT_FAILURE | Inr _ \<Rightarrow> Some EXIT_SUCCESS)
             (get_URL k gai (argv ! 1) (argv ! 2) w))"

section \<open>tcp_native\<close>

text \<open>In server mode the listening socket is destroyed when the closure returns.\<close>

definition native_socket :: "'k kernel \<Rightarrow> getaddrinfo \<Rightarrow> bool \<Rightarrow> string list \<Rightarrow> 'k \<Rightarrow> (file_descriptor \<times> 'k) result" where
  "native_socket k gai server_mode argv w =
     (if server_mode
      then bind_res (tcp_socket_new k w) (\<lambda>(listening_socket, w).
           bind_res (sock_set_reuseaddr k listening_socket w) (\<lambda>w.
           bind_res (addr_of_host gai (argv ! 2) (argv ! 3)) (\<lambda>address.
           bind_res (sock_bind k address listening_socket w) (\<lambda>w.
           bind_res (tcp_listen k 16 listening_socket w) (\<lambda>w.
           bind_res (tcp_accept k listening_socket w) (\<lambda>(socket, listening_socket, w).
             Inr (socket, fd_destroy k listening_socket w)))))))
      else bind_res (tcp_socket_new k w) (\<lambda>(connecting_socket, w).
           bind_res (addr_of_host gai (argv ! 1) (argv ! 2)) (\<lambda>address.
           bind_res (sock_connect k address connecting_socket w) (\<lambda>w. Inr (connecting_socket, w)))))"

definition native_main :: "'k kernel \<Rightarrow> getaddrinfo \<Rightarrow> string list \<Rightarrow> 'k \<Rightarrow> int option" where
  "native_main k gai argv w =
     (let server_mode = (\<not> length argv < 3 \<and> argv ! 1 = ''-l'')
      in if length argv < 3 \<or> server_mode \<and> length argv < 4 then Some EXIT_FAILURE
         else case native_socket k gai server_mode argv w of
                Inl e \<Rightarrow> Some EXIT_FAILURE
              | Inr (socket, w) \<Rightarrow> map_option (\<lambda>r. case r of Inl e \<Rightarrow> EXIT_FAILURE | Inr _ \<Rightarrow> EXIT_SUCCESS)
                  (bidirectional_stream_copy k socket w))"

section \<open>What webget sends and prints\<close>

lemma open_http_frame:
  assumes "kernel_ok k taken given" and "open_http k gai host w = Inr (socket, w')"
  shows "taken w' = taken w \<and> given w' = given w \<and> \<not> fdw_eof socket"
proof -
  obtain r w1 where s: "k_socket k AF_INET_domain SOCK_STREAM w = (r, w1)" by (metis surj_pair)
  obtain n a where n: "fd_new n = Inr socket" and a: "sock_connect k a socket w1 = Inr w'"
    using assms(2) s by (auto simp: open_http_def tcp_socket_new_def sock_new_def bind_res_eq_Inr)
  then have "\<not> fdw_eof socket" by (auto simp: fd_new_def split: if_splits)
  moreover have "taken w1 = taken w \<and> given w1 = given w" using kernel_okD(11) [OF assms(1) s] .
  moreover obtain r2 w2 where c: "k_connect k (fdw_fd socket) (addr_raw a) w1 = (r2, w2)" by (metis surj_pair)
  then have "w' = w2" using a by (auto simp: sock_connect_def bind_res_eq_Inr)
  then have "taken w' = taken w1 \<and> given w' = given w1" using kernel_okD(12) [OF assms(1) c] by simp
  ultimately show ?thesis by simp
qed

lemma write_strings_all:
  assumes "kernel_ok k taken given" and "write_strings k strs socket w = Inr (socket', w')"
    and "length (concat strs) < 2 ^ 63"
  shows "taken w' = taken w \<and> given w' = (given w)(fdw_fd socket := given w (fdw_fd socket) @ concat strs)
    \<and> fdw_fd socket' = fdw_fd socket \<and> fdw_eof socket' = fdw_eof socket"
  using assms(2,3)
proof (induction strs arbitrary: socket w)
  case (Cons str strs)
  obtain n s1 w1 where 1: "fd_write_loop k True [str] 0 socket w = Inr (n, s1, w1)"
      "write_strings k strs s1 w1 = Inr (socket', w')"
    using Cons.prems(1) by (auto simp: fd_write_def bview_of_string_def bind_res_eq_Inr)
  have "taken w1 = taken w \<and> given w1 = (given w)(fdw_fd socket := given w (fdw_fd socket) @ str)"
    using fd_write_all_cases [OF kernel_okD(2) [OF assms(1)] 1(1)] Cons.prems(2) by simp
  moreover have "fdw_fd s1 = fdw_fd socket \<and> fdw_eof s1 = fdw_eof socket" 
    using fd_write_frame [OF kernel_okD(2) [OF assms(1)] 1(1)] by blast
  ultimately show ?case using Cons.IH [OF 1(2)] Cons.prems(2) by auto
qed simp

text \<open>
  What a connected descriptor will still deliver: \<open>rest w fd\<close> is the part of the peer's stream that has not been
  read. A successful \<open>read\<close> returns its next bytes, and no bytes (of a positive number) only at its end.
\<close>

definition server_stream :: "'k kernel \<Rightarrow> ('k \<Rightarrow> int \<Rightarrow> bytes) \<Rightarrow> bool" where
  "server_stream k rest \<longleftrightarrow> (\<forall>fd n w ret data w'. k_read k fd n w = ((ret, data), w') \<longrightarrow> \<not> failed ret \<longrightarrow>
     rest w fd = data @ rest w' fd \<and> (n \<noteq> 0 \<longrightarrow> data = [] \<longrightarrow> rest w fd = []))"

lemma fd_read_stream:
  assumes "kernel_ok k taken given" and "server_stream k rest" and "fd_read k (-1) socket w = Inr (data, socket', w')"
  shows "rest w (fdw_fd socket) = data @ rest w' (fdw_fd socket)" and "data = [] \<Longrightarrow> rest w (fdw_fd socket) = []"
    and "given w' = given w" and "taken w' = (taken w)(fdw_fd socket := taken w (fdw_fd socket) @ data)"
    and "socket' = (fd_register_read socket)\<lparr>fdw_eof := fdw_eof socket \<or> data = []\<rparr>"
proof -
  have n: "min 1048576 (- 1 :: size_t) = 1048576" by (simp add: min_def)
  obtain ret d w1 where r: "k_read k (fdw_fd socket) 1048576 w = ((ret, d), w1)" by (metis surj_pair)
  have "w1 = w'" using assms(3) r by (auto simp: fd_read_def n bind_res_eq_Inr Let_def split: if_splits)
  note r = r [unfolded this]
  show f: "given w' = given w" "taken w' = (taken w)(fdw_fd socket := taken w (fdw_fd socket) @ data)"
      "socket' = (fd_register_read socket)\<lparr>fdw_eof := fdw_eof socket \<or> data = []\<rparr>"
    using assms(3) by (cases rule: fd_read_cases [OF kernel_okD(1) [OF assms(1)] refl, of "-1" socket w]; simp add: word_gt_0)+
  have "\<not> failed ret" using assms(3) r by (auto simp: fd_read_def n SystemCall_failed)
  moreover have "taken w' = (taken w)(fdw_fd socket := taken w (fdw_fd socket) @ d)"
    using kernel_okD(1) [OF assms(1), unfolded read_ok_def, rule_format, OF r] calculation by blast
  then have "d = data" using f(2) by (metis fun_upd_same same_append_eq)
  ultimately show "rest w (fdw_fd socket) = data @ rest w' (fdw_fd socket)" "data = [] \<Longrightarrow> rest w (fdw_fd socket) = []"
    using assms(2) [unfolded server_stream_def, rule_format, OF r] by auto
qed

text \<open>The loop ends, and unless an exception ends it, it has printed the stream to its end.\<close>

lemma print_all_prints:
  assumes "kernel_ok k taken given" and "server_stream k rest" and "\<not> fdw_eof socket"
  shows "\<exists>r. print_all k socket w cout = Some r \<and> (\<forall>socket' w' cout'. r = Inr (socket', w', cout') \<longrightarrow>
    cout' = cout @ rest w (fdw_fd socket) \<and> given w' = given w \<and> fdw_closed socket'
    \<and> taken w' = (taken w)(fdw_fd socket := taken w (fdw_fd socket) @ rest w (fdw_fd socket)))"
  using assms(3)
proof (induction "length (rest w (fdw_fd socket))" arbitrary: socket w cout rule: less_induct)
  case less
  show ?case
  proof (cases "fd_read k (-1) socket w")
    case (Inl e)
    then show ?thesis by (subst print_all.simps) simp
  next
    case (Inr p)
    then obtain data s1 w1 where rd: "fd_read k (-1) socket w = Inr (data, s1, w1)" by (cases p) auto
    note f = fd_read_stream [OF assms(1,2) rd]
    have fd: "fdw_fd s1 = fdw_fd socket" "fdw_eof s1 = (data = [])" using f(5) less.prems by simp_all
    show ?thesis
    proof (cases "data = []")
      case True
      obtain r w2 where c: "k_close k (fdw_fd s1) w1 = (r, w2)" by (metis surj_pair)
      have eq: "print_all k socket w cout = Some (bind_res (fd_close k s1 w1) (\<lambda>(socket, w). Inr (socket, w, cout)))"
        using rd fd True by (subst print_all.simps) simp
      have t: "given w1 = given w" "taken w1 = taken w" "rest w (fdw_fd socket) = []" using f True by simp_all
      have closed: "given w2 = given w" "taken w2 = taken w" using kernel_okD(3) [OF assms(1) c] t by auto
      show ?thesis unfolding eq using c closed t(3)
        by (auto simp: fd_close_def bind_res_eq_Inr)
    next
      case False
      have "length (rest w1 (fdw_fd s1)) < length (rest w (fdw_fd socket))" using f(1) fd(1) False by simp
      then have "\<exists>r. print_all k s1 w1 (cout @ data) = Some r \<and> (\<forall>socket' w' cout'. r = Inr (socket', w', cout') \<longrightarrow>
          cout' = (cout @ data) @ rest w1 (fdw_fd s1) \<and> given w' = given w1 \<and> fdw_closed socket'
          \<and> taken w' = (taken w1)(fdw_fd s1 := taken w1 (fdw_fd s1) @ rest w1 (fdw_fd s1)))"
        using fd False by (intro less.hyps) simp_all
      moreover have "print_all k socket w cout = print_all k s1 w1 (cout @ data)"
        using rd fd False by (subst print_all.simps) simp
      ultimately show ?thesis using f(1,3,4) fd(1) by simp
    qed
  qed
qed

text \<open>The state right after a request has been sent.\<close>

abbreviation send_request :: "'k kernel \<Rightarrow> getaddrinfo \<Rightarrow> string \<Rightarrow> bytes list \<Rightarrow> 'k \<Rightarrow> (file_descriptor \<times> 'k) result" where
  "send_request k gai host request w \<equiv> bind_res (open_http k gai host w) (\<lambda>(socket, w). write_strings k request socket w)"

lemma fetch_prints:
  assumes "kernel_ok k taken given" and "server_stream k rest" and "length (concat request) < 2 ^ 63"
  shows "\<exists>r. fetch_page k gai host request w cout = Some r \<and> (\<forall>socket w' cout'. r = Inr (socket, w', cout') \<longrightarrow>
    (\<exists>s1 w1. send_request k gai host request w = Inr (s1, w1) \<and> cout' = cout @ rest w1 (fdw_fd s1) \<and> fdw_closed socket
      \<and> given w' = (given w)(fdw_fd s1 := given w (fdw_fd s1) @ concat request)
      \<and> taken w' = (taken w)(fdw_fd s1 := taken w (fdw_fd s1) @ rest w1 (fdw_fd s1))))"
proof (cases "send_request k gai host request w")
  case (Inr p)
  then obtain s0 w0 s1 w1 where o: "open_http k gai host w = Inr (s0, w0)" "write_strings k request s0 w0 = Inr (s1, w1)" "p = (s1, w1)"
    by (cases p) (auto simp: bind_res_eq_Inr)
  note f = open_http_frame [OF assms(1) o(1)] write_strings_all [OF assms(1) o(2) assms(3)]
  then have "\<not> fdw_eof s1" by simp
  from print_all_prints [OF assms(1,2) this, of w1 cout] show ?thesis
    using Inr o(3) f by (auto simp: fetch_page_def)
qed (simp add: fetch_page_def)

lemma length_request:
  assumes "length path < 2 ^ 62"
  shows "length (concat (first_request path)) < 2 ^ 63" and "length (concat (second_request path)) < 2 ^ 63"
  using assms by (simp_all add: first_request_def second_request_def text_bytes_def)

section \<open>Properties\<close>

text \<open>
  (C30) What \<open>webget\<close> does, with servers whose answers are finite: \<open>get_URL\<close> returns. When it returns without an
  exception it has sent one request on one socket and then another on a second one, it has read each
  answer to its end, what it printed is the whole stream that the first server still had to send when the
  first request was out, followed by the whole stream of the second server at that point, and both
  sockets are closed. So every page is fetched and printed twice, and the host that was asked for is named
  in neither request: the field \<open>Host\<close> always names the same server.
\<close>

theorem webget_prints_answers:
  assumes "kernel_ok k taken given" and "server_stream k rest" and "length path < 2 ^ 62"
  shows "\<exists>r. get_URL k gai host path w = Some r
    \<and> (\<forall>s1 s2 w2 cout. r = Inr (s1, s2, w2, cout) \<longrightarrow> (\<exists>q1 v1 w1 q2 v2.
        send_request k gai host (first_request path) w = Inr (q1, v1)
        \<and> given w1 = (given w)(fdw_fd q1 := given w (fdw_fd q1) @ concat (first_request path))
        \<and> taken w1 = (taken w)(fdw_fd q1 := taken w (fdw_fd q1) @ rest v1 (fdw_fd q1))
        \<and> send_request k gai host (second_request path) w1 = Inr (q2, v2)
        \<and> given w2 = (given w1)(fdw_fd q2 := given w1 (fdw_fd q2) @ concat (second_request path))
        \<and> taken w2 = (taken w1)(fdw_fd q2 := taken w1 (fdw_fd q2) @ rest v2 (fdw_fd q2))
        \<and> cout = rest v1 (fdw_fd q1) @ rest v2 (fdw_fd q2) \<and> fdw_closed s1 \<and> fdw_closed s2))"
proof -
  note len = length_request [OF assms(3)]
  obtain r1 where r1: "fetch_page k gai host (first_request path) w [] = Some r1"
      and one: "\<And>s w' cout. r1 = Inr (s, w', cout) \<Longrightarrow> \<exists>s1 w1. send_request k gai host (first_request path) w = Inr (s1, w1)
        \<and> cout = rest w1 (fdw_fd s1) \<and> fdw_closed s
        \<and> given w' = (given w)(fdw_fd s1 := given w (fdw_fd s1) @ concat (first_request path))
        \<and> taken w' = (taken w)(fdw_fd s1 := taken w (fdw_fd s1) @ rest w1 (fdw_fd s1))"
    using fetch_prints [OF assms(1,2) len(1), of gai host w "[]"] by auto
  show ?thesis
  proof (cases r1)
    case (Inr p)
    then obtain s1 w1 answer1 where p: "r1 = Inr (s1, w1, answer1)" by (cases p) auto
    obtain r2 where r2: "fetch_page k gai host (second_request path) w1 answer1 = Some r2"
        and two: "\<And>s w' cout. r2 = Inr (s, w', cout) \<Longrightarrow> \<exists>s2 w2. send_request k gai host (second_request path) w1 = Inr (s2, w2)
          \<and> cout = answer1 @ rest w2 (fdw_fd s2) \<and> fdw_closed s
          \<and> given w' = (given w1)(fdw_fd s2 := given w1 (fdw_fd s2) @ concat (second_request path))
          \<and> taken w' = (taken w1)(fdw_fd s2 := taken w1 (fdw_fd s2) @ rest w2 (fdw_fd s2))"
      using fetch_prints [OF assms(1,2) len(2), of gai host w1 answer1] by auto
    have get: "get_URL k gai host path w = Some (bind_res r2 (\<lambda>(s2, w, cout). Inr (s1, s2, w, cout)))"
      using r1 r2 p by (simp add: get_URL_def)
    obtain q1 v1 where q1: "send_request k gai host (first_request path) w = Inr (q1, v1)"
        "answer1 = rest v1 (fdw_fd q1)" "fdw_closed s1"
        "given w1 = (given w)(fdw_fd q1 := given w (fdw_fd q1) @ concat (first_request path))"
        "taken w1 = (taken w)(fdw_fd q1 := taken w (fdw_fd q1) @ rest v1 (fdw_fd q1))"
      using one [OF p] by blast
    show ?thesis
    proof (cases r2)
      case (Inr p2)
      then obtain s2 w2 cout where p2: "r2 = Inr (s2, w2, cout)" by (cases p2) auto
      obtain q2 v2 where q2: "send_request k gai host (second_request path) w1 = Inr (q2, v2)"
          "cout = rest v1 (fdw_fd q1) @ rest v2 (fdw_fd q2)" "fdw_closed s2"
          "given w2 = (given w1)(fdw_fd q2 := given w1 (fdw_fd q2) @ concat (second_request path))"
          "taken w2 = (taken w1)(fdw_fd q2 := taken w1 (fdw_fd q2) @ rest v2 (fdw_fd q2))"
        using two [OF p2] q1(2) by blast
      have "get_URL k gai host path w = Some (Inr (s1, s2, w2, cout))" using get p2 by simp
      then show ?thesis using q1 q2
        by (intro exI [of _ "Inr (s1, s2, w2, cout)"] conjI allI impI exI [of _ q1] exI [of _ v1] exI [of _ w1]
            exI [of _ q2] exI [of _ v2]) simp_all
    qed (use get in simp)
  qed (use r1 in \<open>simp add: get_URL_def\<close>)
qed

text \<open>A server with an answer of two bytes, one per read, on each of the descriptors 5 and 6.\<close>

definition two_bytes :: "((int \<Rightarrow> bytes) \<times> (int \<Rightarrow> bytes)) kernel" where
  "two_bytes = sample_kernel\<lparr>k_read := (\<lambda>fd n (t, g).
       let d = take (if n = 0 then 0 else 1) (drop (length (t fd)) [72, 105]) in (((int (length d), 0), d), (t(fd := t fd @ d), g))),
     k_writev := (\<lambda>fd iov (t, g). let d = take 1000 (concat (map fst iov)) in ((int (length d), 0), (t, g(fd := g fd @ d)))),
     k_socket := (\<lambda>domain type (t, g). ((if g 5 = [] then 5 else 6, 0), (t, g)))\<rparr>"

definition two_bytes_rest :: "(int \<Rightarrow> bytes) \<times> (int \<Rightarrow> bytes) \<Rightarrow> int \<Rightarrow> bytes" where
  "two_bytes_rest w fd = drop (length (fst w fd)) [72, 105]"

lemma two_bytes_ok: "kernel_ok two_bytes fst snd" "server_stream two_bytes two_bytes_rest"
proof -
  have "min m (Suc 0) \<le> unat n" if "n \<noteq> 0" for m and n :: size_t
    using that by (intro min.coboundedI2) (simp add: Suc_le_eq unat_gt_0)
  then have "read_ok two_bytes fst snd" by (auto simp: two_bytes_def read_ok_def Let_def)
  moreover have "take (min (length xs) 1000) xs = take 1000 xs" for xs :: bytes by (simp add: min_def)
  then have "writev_ok two_bytes fst snd" by (auto simp: two_bytes_def writev_ok_def Let_def)
  ultimately show "kernel_ok two_bytes fst snd" using sample_kernel_ok by (auto simp: two_bytes_def kernel_ok_def)
  have cut: "take 1 (drop m zs) @ drop (m + length (take 1 (drop m zs))) zs = drop m zs" for m and zs :: bytes
    by (cases "drop m zs") (simp_all add: drop_Suc flip: tl_drop)
  show "server_stream two_bytes two_bytes_rest"
    using cut [of _ "[72, 105]"] by (auto simp: two_bytes_def server_stream_def two_bytes_rest_def Let_def)
qed

lemma two_bytes_returns:
  "\<exists>p. fd_read two_bytes (-1) fd w = Inr p" "\<exists>p. fd_close two_bytes fd w = Inr p"
proof -
  obtain t g where w: "w = (t, g)" by force
  show "\<exists>p. fd_read two_bytes (-1) fd w = Inr p"
    by (cases rule: fd_read_cases [OF kernel_okD(1) [OF two_bytes_ok(1)] refl, of "-1" fd w])
      (auto simp: two_bytes_def w fd_read_def SystemCall_def to_int_def Let_def split: if_splits)
  show "\<exists>p. fd_close two_bytes fd w = Inr p" by (simp add: two_bytes_def fd_close_def sample_kernel_def SystemCall_def to_int_def)
qed

lemma two_bytes_write:
  assumes "length str \<le> 1000"
  shows "fd_write two_bytes (bview_of_string str) True fd (t, g)
    = Inr (size_of str, fd_register_write fd, (t, g(fdw_fd fd := g (fdw_fd fd) @ str)))"
proof -
  have sc: "SystemCall ''writev'' (int (length str), 0) 0 = Inr (int (length str))"
    using assms SystemCall_returned [of "(int (length str), 0)" "''writev''" 0] by simp
  have sz: "word_of_int (int (length str)) = size_of str" by simp
  have "sint (size_of str) = int (length str)" using assms sint_size_t [of "int (length str)"] by simp
  moreover have "size_of str = 0 \<longleftrightarrow> str = []"
  proof -
    have "unat (size_of str) = length str" using assms by (intro unat_size_of) simp
    then show ?thesis by (metis length_0_conv unat_eq_zero)
  qed
  ultimately show ?thesis
    using assms sc unfolding fd_write_def
    by (subst fd_write_loop.simps) (auto simp: two_bytes_def bview_of_string_def bview_as_iovecs_def bview_size_def word_gt_0)
qed

lemma two_bytes_write_strings:
  "list_all (\<lambda>str. length str \<le> 1000) strs \<Longrightarrow> \<exists>s. write_strings two_bytes strs fd (t, g)
    = Inr (s, (t, g(fdw_fd fd := g (fdw_fd fd) @ concat strs))) \<and> fdw_fd s = fdw_fd fd"
proof (induction strs arbitrary: fd g)
  case (Cons str strs)
  let ?g = "g(fdw_fd fd := g (fdw_fd fd) @ str)"
  have "\<exists>s. write_strings two_bytes strs (fd_register_write fd) (t, ?g) = Inr (s, (t,
      ?g(fdw_fd (fd_register_write fd) := ?g (fdw_fd (fd_register_write fd)) @ concat strs))) \<and> fdw_fd s = fdw_fd (fd_register_write fd)"
    using Cons.prems by (intro Cons.IH) simp
  then obtain s where s: "write_strings two_bytes strs (fd_register_write fd) (t, ?g)
      = Inr (s, (t, ?g(fdw_fd fd := ?g (fdw_fd fd) @ concat strs)))" "fdw_fd s = fdw_fd fd"
    unfolding fd_register_frame by blast
  have "?g(fdw_fd fd := ?g (fdw_fd fd) @ concat strs) = g(fdw_fd fd := g (fdw_fd fd) @ concat (str # strs))" by simp
  moreover have "fd_write two_bytes (bview_of_string str) True fd (t, g) = Inr (size_of str, fd_register_write fd, (t, ?g))"
    using Cons.prems by (intro two_bytes_write) simp
  ultimately show ?case using s by (simp only: write_strings.simps bind_res_simps prod.case) blast
qed simp

lemma print_all_throws:
  assumes "print_all k socket w cout = Some (Inl e)"
  shows "(\<exists>fd w. fd_read k (-1) fd w = Inl e) \<or> (\<exists>fd w. fd_close k fd w = Inl e)"
  using assms
proof (induction k socket w cout "Inl e :: (file_descriptor \<times> 'a \<times> bytes) result"
    rule: print_all.raw_induct [rotated, consumes 1, case_names body])
  case (body print k socket w cout)
  then show ?case by (auto simp: bind_res_eq_Inl split: sum.splits if_splits) blast+
qed

lemma two_bytes_sends:
  fixes g :: "int \<Rightarrow> bytes"
  defines "fd \<equiv> if g 5 = [] then 5 else 6"
  assumes "list_all (\<lambda>str. length str \<le> 1000) request"
  shows "\<exists>s. send_request two_bytes (\<lambda>_ _ _. Inr [sockaddr_in 80 0x7f000001]) host request (t, g)
    = Inr (s, (t, g(fd := g fd @ concat request))) \<and> fdw_fd s = fd"
proof -
  let ?s = "\<lparr>fdw_fd = fd, fdw_eof = False, fdw_closed = False, fdw_read_count = 0, fdw_write_count = 0\<rparr>"
  have "open_http two_bytes (\<lambda>_ _ _. Inr [sockaddr_in 80 0x7f000001]) host (t, g) = Inr (?s, (t, g))"
    by (simp add: two_bytes_def sample_kernel_def addr_of_sockaddr_def sockaddr_in_def open_http_def tcp_socket_new_def sock_new_def SystemCall_def to_int_def fd_new_def fd_def
        addr_of_host_def addr_resolve_def sock_connect_def)
  then show ?thesis using two_bytes_write_strings [OF assms(2), of ?s t g] by simp
qed

theorem webget_prints_answers_witness:
  "\<exists>s1 s2 w. get_URL two_bytes (\<lambda>_ _ _. Inr [sockaddr_in 80 0x7f000001]) ''example.org'' ''/'' (\<lambda>_. [], \<lambda>_. [])
      = Some (Inr (s1, s2, w, [72, 105, 72, 105])) \<and> fdw_closed s1 \<and> fdw_closed s2"
proof -
  let ?gai = "\<lambda>_ _ _. Inr [sockaddr_in 80 0x7f000001]" and ?w = "(\<lambda>_ :: int. [] :: bytes, \<lambda>_ :: int. [] :: bytes)"
  have short: "list_all (\<lambda>str. length str \<le> 1000) (first_request ''/'')" "list_all (\<lambda>str. length str \<le> 1000) (second_request ''/'')"
      and some: "concat (first_request ''/'') \<noteq> []"
    by (simp_all add: first_request_def second_request_def text_bytes_def)
  have returns: "r \<noteq> Inl e" if "fetch_page two_bytes ?gai ''example.org'' request v cout = Some r"
      "list_all (\<lambda>str. length str \<le> 1000) request" for r e request v cout
  proof
    note fetch = that
    assume "r = Inl e"
    moreover obtain s u where "send_request two_bytes ?gai ''example.org'' request v = Inr (s, u)"
      using two_bytes_sends [OF fetch(2)] by (cases v) blast
    ultimately have "print_all two_bytes s u cout = Some (Inl e)" using fetch(1) by (simp add: fetch_page_def)
    then show False using print_all_throws two_bytes_returns by (metis sum.distinct(1))
  qed
  obtain r where r: "get_URL two_bytes ?gai ''example.org'' ''/'' ?w = Some r"
      and full: "\<forall>s1 s2 w2 cout. r = Inr (s1, s2, w2, cout) \<longrightarrow> (\<exists>q1 v1 w1 q2 v2.
        send_request two_bytes ?gai ''example.org'' (first_request ''/'') ?w = Inr (q1, v1)
        \<and> snd w1 = (snd ?w)(fdw_fd q1 := snd ?w (fdw_fd q1) @ concat (first_request ''/''))
        \<and> fst w1 = (fst ?w)(fdw_fd q1 := fst ?w (fdw_fd q1) @ two_bytes_rest v1 (fdw_fd q1))
        \<and> send_request two_bytes ?gai ''example.org'' (second_request ''/'') w1 = Inr (q2, v2)
        \<and> snd w2 = (snd w1)(fdw_fd q2 := snd w1 (fdw_fd q2) @ concat (second_request ''/''))
        \<and> fst w2 = (fst w1)(fdw_fd q2 := fst w1 (fdw_fd q2) @ two_bytes_rest v2 (fdw_fd q2))
        \<and> cout = two_bytes_rest v1 (fdw_fd q1) @ two_bytes_rest v2 (fdw_fd q2) \<and> fdw_closed s1 \<and> fdw_closed s2)"
  proof -
    have "length ''/'' < 2 ^ 62" by simp
    from webget_prints_answers [OF two_bytes_ok this, of ?gai "''example.org''" ?w] that show ?thesis by blast
  qed
  have "r \<noteq> Inl e" for e
    using r returns short unfolding get_URL_def
    by (fastforce simp: bind_res_eq_Inl split: option.splits sum.splits)
  then obtain s1 s2 w2 cout where rr: "r = Inr (s1, s2, w2, cout)" by (metis sumE prod_cases4)
  from full [rule_format, OF rr] obtain q1 v1 w1 q2 v2 where q:
      "send_request two_bytes ?gai ''example.org'' (first_request ''/'') ?w = Inr (q1, v1)"
      "snd w1 = (snd ?w)(fdw_fd q1 := snd ?w (fdw_fd q1) @ concat (first_request ''/''))"
      "fst w1 = (fst ?w)(fdw_fd q1 := fst ?w (fdw_fd q1) @ two_bytes_rest v1 (fdw_fd q1))"
      "send_request two_bytes ?gai ''example.org'' (second_request ''/'') w1 = Inr (q2, v2)"
      "cout = two_bytes_rest v1 (fdw_fd q1) @ two_bytes_rest v2 (fdw_fd q2)" "fdw_closed s1" "fdw_closed s2"
    by blast
  have one: "fdw_fd q1 = 5" "fst v1 = (\<lambda>_. [])" using two_bytes_sends [OF short(1), where g = "\<lambda>_. []" and t = "\<lambda>_. []" and host = "''example.org''"] q(1) by auto
  have "snd w1 5 \<noteq> []" using q(2) one some by simp
  then have "fdw_fd q2 = 6" "fst v2 = fst w1"
    using two_bytes_sends [OF short(2), where g = "snd w1" and t = "fst w1" and host = "''example.org''"] q(4) by auto
  then have "cout = [72, 105, 72, 105]" using q(3,5) one by (simp add: two_bytes_rest_def)
  then show ?thesis using r rr q(6,7) by blast
qed

end
