(* ===== verification/C_Numbers.thy ===== *)
theory C_Numbers
  imports Complex_Main Text_Format
begin

text \<open>
  The conversions from text to numbers that the programs take from the C library, in the locale \<open>C\<close>:
  \<open>strtol\<close> with base 0 and \<open>strtof\<close>; and the arithmetic of a \<open>float\<close>, as IEEE 754 defines it for single
  precision with rounding to nearest, ties to even. A finite \<open>float\<close> is the rational number that it
  denotes: the sign of a zero, which nothing here can see, is left out. The end pointer is unused.
\<close>

section \<open>strtol\<close>

definition read_sign :: "string \<Rightarrow> bool \<times> string" where
  "read_sign s = (s \<noteq> [] \<and> hd s = CHR ''-'',
     if s \<noteq> [] \<and> (hd s = CHR ''-'' \<or> hd s = CHR ''+'') then tl s else s)"

text \<open>The value of a digit of a base up to 16; 16 for every other character.\<close>

definition digit_value :: "char \<Rightarrow> nat" where
  "digit_value c = (let n = of_char c in
     if 48 \<le> n \<and> n \<le> 57 then n - 48 else if 97 \<le> n \<and> n \<le> 102 then n - 87
     else if 65 \<le> n \<and> n \<le> 70 then n - 55 else 16)"

definition is_base_digit :: "nat \<Rightarrow> char \<Rightarrow> bool" where
  "is_base_digit base c \<longleftrightarrow> digit_value c < base"

definition base_value :: "nat \<Rightarrow> string \<Rightarrow> nat" where
  "base_value base s = foldl (\<lambda>r c. r * base + digit_value c) 0 s"

definition hex_prefix :: "string \<Rightarrow> bool" where
  "hex_prefix s \<longleftrightarrow> take 2 s = ''0x'' \<or> take 2 s = ''0X''"

text \<open>A prefix of base 16 with no digit after it is read as the number zero, as it is here.\<close>

definition strtol :: "string \<Rightarrow> int" where
  "strtol str =
     (let (neg, s) = read_sign (dropWhile is_space str);
          base = (if hex_prefix s then 16 else if s \<noteq> [] \<and> hd s = CHR ''0'' then 8 else 10);
          ds = takeWhile (is_base_digit base) (if hex_prefix s then drop 2 s else s);
          v = int (base_value base ds)
      in if neg then max (- (2 ^ 63)) (- v) else min (2 ^ 63 - 1) v)"

section \<open>float\<close>

datatype float32 = Finite rat | Infinity bool | NaN

definition round_half_even :: "rat \<Rightarrow> int" where
  "round_half_even y =
     (let n = \<lfloor>y\<rfloor>; r = y - of_int n
      in if r < 1 / 2 then n else if r > 1 / 2 then n + 1 else if even n then n else n + 1)"

text \<open>In units of the least positive \<open>float\<close>: the step between neighbours of \<open>y\<close> is \<open>2 ^ k\<close>, and \<open>float_limit\<close> is
  the first number that is too large.\<close>

definition float_units :: rat where "float_units = 2 ^ 149"

definition float_limit :: rat where "float_limit = 2 ^ 277"

function float_step :: "rat \<Rightarrow> nat \<Rightarrow> nat" where
  "float_step y k = (if 253 \<le> k \<or> y < 2 ^ (k + 24) then k else float_step y (Suc k))"
  by pat_completeness auto
termination
  by (relation "measure (\<lambda>(y, k). 253 - k)") auto

declare float_step.simps [simp del]

definition round_float :: "rat \<Rightarrow> float32" where
  "round_float x =
     (let y = \<bar>x\<bar> * float_units; k = float_step y 0;
          z = of_int (round_half_even (y / 2 ^ k)) * 2 ^ k
      in if float_limit \<le> z then Infinity (x < 0) else Finite (sgn x * z / float_units))"

text \<open>The product of a positive finite \<open>float\<close> and a \<open>float\<close>.\<close>

definition float_scale :: "rat \<Rightarrow> float32 \<Rightarrow> float32" where
  "float_scale c f = (case f of Finite x \<Rightarrow> round_float (c * x) | Infinity neg \<Rightarrow> Infinity neg | NaN \<Rightarrow> NaN)"

text \<open>The conversion to \<open>uint16_t\<close> cuts the fraction off; it is undefined outside the range.\<close>

definition cut_fraction :: "rat \<Rightarrow> int" where
  "cut_fraction x = (if x < 0 then \<lceil>x\<rceil> else \<lfloor>x\<rfloor>)"

definition float_to_uint16 :: "float32 \<Rightarrow> uint16 result" where
  "float_to_uint16 f =
     (case f of
        Finite x \<Rightarrow> if 0 \<le> cut_fraction x \<and> cut_fraction x < 2 ^ 16 then Inr (word_of_int (cut_fraction x))
          else Inl (Undefined_Behaviour ''float to uint16_t'')
      | _ \<Rightarrow> Inl (Undefined_Behaviour ''float to uint16_t''))"

section \<open>strtof\<close>

text \<open>The digits around a point: their value, the number of them after the point, what follows.\<close>

definition read_digits :: "nat \<Rightarrow> string \<Rightarrow> nat \<times> nat \<times> string" where
  "read_digits base s =
     (let ds = takeWhile (is_base_digit base) s;
          rest = dropWhile (is_base_digit base) s
      in if rest \<noteq> [] \<and> hd rest = CHR ''.''
         then let fs = takeWhile (is_base_digit base) (tl rest)
              in (base_value base (ds @ fs), length fs, dropWhile (is_base_digit base) (tl rest))
         else (base_value base ds, 0, rest))"

definition read_exponent :: "string \<Rightarrow> string \<Rightarrow> int" where
  "read_exponent marks s =
     (if s \<noteq> [] \<and> hd s \<in> set marks
      then let (neg, s) = read_sign (tl s); e = int (base_value 10 (takeWhile (is_base_digit 10) s))
           in if neg then - e else e
      else 0)"

definition strtof_number :: "string \<Rightarrow> rat" where
  "strtof_number s =
     (if hex_prefix s
      then case read_digits 16 (drop 2 s) of (m, k, rest) \<Rightarrow> of_nat m * 2 powi (read_exponent ''pP'' rest - 4 * int k)
      else case read_digits 10 s of (m, k, rest) \<Rightarrow> of_nat m * 10 powi (read_exponent ''eE'' rest - int k))"

definition to_lower :: "char \<Rightarrow> char" where
  "to_lower c = (if 65 \<le> (of_char c :: nat) \<and> (of_char c :: nat) \<le> 90 then char_of (of_char c + 32 :: nat) else c)"

definition strtof :: "string \<Rightarrow> float32" where
  "strtof str =
     (let (neg, s) = read_sign (dropWhile is_space str); word = map to_lower (take 3 s)
      in if word = ''inf'' then Infinity neg else if word = ''nan'' then NaN
         else round_float (if neg then - strtof_number s else strtof_number s))"

section \<open>Reading decimal numbers\<close>

lemma digit_value_digit: "is_digit c \<Longrightarrow> digit_value c = of_char c - 48 \<and> is_base_digit 10 c"
  by (auto simp: is_digit_def digit_value_def is_base_digit_def)

lemma base_value_digits: "list_all is_digit ds \<Longrightarrow> base_value 10 ds = dec_value ds"
proof (induction ds rule: rev_induct)
  case (snoc c ds)
  then show ?case by (simp add: base_value_def dec_value_def digit_value_digit)
qed (simp add: base_value_def dec_value_def)

lemma takeWhile_digits:
  assumes "list_all is_digit ds" and "rest = [] \<or> \<not> is_base_digit 10 (hd rest)"
  shows "takeWhile (is_base_digit 10) (ds @ rest) = ds" "dropWhile (is_base_digit 10) (ds @ rest) = rest"
proof -
  have "\<forall>c \<in> set ds. is_base_digit 10 c" using assms(1) by (simp add: list_all_iff digit_value_digit)
  then show "takeWhile (is_base_digit 10) (ds @ rest) = ds" "dropWhile (is_base_digit 10) (ds @ rest) = rest"
    using assms(2) by (cases rest; simp)+
qed

lemma read_sign_digit: "s \<noteq> [] \<Longrightarrow> is_digit (hd s) \<Longrightarrow> read_sign (dropWhile is_space s) = (False, s)"
  using is_digit_plain [of "hd s"] by (cases s) (simp_all add: read_sign_def)

text \<open>A number is printed without leading zeros, so that \<open>strtol\<close> reads it in base 10.\<close>

lemma dec_string_hd: "0 < n \<Longrightarrow> hd (dec_string n) \<noteq> CHR ''0''"
proof (induction n rule: less_induct)
  case (less n)
  show ?case
  proof (cases "n < 10")
    case True
    then have "of_char (digit n) \<noteq> (48 :: nat)" using less.prems by (simp add: digit_dec)
    then have "digit n \<noteq> CHR ''0''" by auto
    then show ?thesis using True by (simp add: base_string.simps [of 10 n])
  next
    case False
    then have "dec_string n = dec_string (n div 10) @ [digit (n mod 10)]" by (simp add: base_string.simps [of 10 n])
    then show ?thesis using less.IH [of "n div 10"] dec_string_digits [of "n div 10"] False by simp
  qed
qed

lemma strtol_dec_string: "strtol (dec_string n) = min (2 ^ 63 - 1) (int n)"
proof (cases "n = 0")
  case True
  have "dec_string 0 = ''0''" by code_simp
  then show ?thesis using True
    by (simp add: strtol_def is_space_def read_sign_def hex_prefix_def is_base_digit_def base_value_def digit_value_def)
next
  case False
  define s where "s = dec_string n"
  have s: "list_all is_digit s" "s \<noteq> []" "dec_value s = n" using dec_string_digits [of n] by (simp_all add: s_def)
  have z: "hd s \<noteq> CHR ''0''" using False dec_string_hd by (simp add: s_def)
  have "\<not> hex_prefix s" using z s(2) by (cases s) (auto simp: hex_prefix_def)
  moreover have "read_sign (dropWhile is_space s) = (False, s)" using s by (intro read_sign_digit) (auto simp: list_all_iff)
  moreover have "takeWhile (is_base_digit 10) s = s" using takeWhile_digits(1) [OF s(1), of "[]"] by simp
  ultimately show ?thesis using z s base_value_digits [OF s(1)] unfolding s_def [symmetric]
    by (simp add: strtol_def del: takeWhile_eq_all_conv)
qed

text \<open>A decimal fraction: digits, a point, digits.\<close>

definition decimal :: "string \<Rightarrow> string \<Rightarrow> rat" where
  "decimal ds fs = of_nat (dec_value (ds @ fs)) / 10 ^ length fs"

lemma strtof_decimal:
  assumes "list_all is_digit ds" and "list_all is_digit fs" and "ds \<noteq> []"
  shows "strtof (ds @ ''.'' @ fs) = round_float (decimal ds fs)"
proof -
  define s where "s = ds @ ''.'' @ fs"
  have p: "\<not> is_base_digit 10 (CHR ''.'')" by (simp add: is_base_digit_def digit_value_def)
  have d: "is_digit (hd ds)" using assms(1,3) by (auto simp: list_all_iff)
  then have sign: "read_sign (dropWhile is_space s) = (False, s)" using assms(3) by (intro read_sign_digit) (auto simp: s_def)
  have fs: "takeWhile (is_base_digit 10) fs = fs" "dropWhile (is_base_digit 10) fs = []"
    using takeWhile_digits [OF assms(2), of "[]"] by simp_all
  have "read_digits 10 s = (dec_value (ds @ fs), length fs, [])"
    using takeWhile_digits [OF assms(1), of "''.'' @ fs"] p base_value_digits [of "ds @ fs"] assms(1,2)
    by (simp add: read_digits_def s_def fs del: takeWhile_eq_all_conv dropWhile_eq_Nil_conv)
  moreover have "\<not> hex_prefix s"
  proof (cases "tl ds")
    case Nil
    then show ?thesis using assms(3) by (cases ds) (auto simp: hex_prefix_def s_def)
  next
    case (Cons c cs)
    then have "is_digit c" using assms(1,3) by (cases ds) auto
    then have "c \<noteq> CHR ''x''" "c \<noteq> CHR ''X''" by (auto simp: is_digit_def)
    then show ?thesis using Cons assms(3) by (cases ds) (auto simp: hex_prefix_def s_def)
  qed
  ultimately have "strtof_number s = decimal ds fs"
    by (simp add: strtof_number_def read_exponent_def decimal_def power_int_minus divide_inverse)
  moreover have "to_lower (hd ds) \<noteq> CHR ''i''" "to_lower (hd ds) \<noteq> CHR ''n''"
    using d by (auto simp: to_lower_def is_digit_def)
  then have "map to_lower (take 3 s) \<noteq> ''inf''" "map to_lower (take 3 s) \<noteq> ''nan''"
    using assms(3) by (auto simp: s_def hd_map [symmetric] take_Cons' neq_Nil_conv)
  ultimately show ?thesis using sign unfolding s_def [symmetric] by (simp add: strtof_def)
qed

section \<open>Rounding\<close>

lemma float_units_pos [simp]: "0 < float_units" "float_units \<noteq> 0" "0 \<le> float_units"
  by (simp_all add: float_units_def)

lemma round_half_even_near: "\<bar>of_int (round_half_even y) - y\<bar> \<le> 1 / 2"
  using floor_correct [of y] by (auto simp: round_half_even_def Let_def abs_le_iff)

text \<open>Rounding does not cross an integer.\<close>

lemma round_half_even_le: "y \<le> of_int n \<Longrightarrow> round_half_even y \<le> n"
proof -
  assume y: "y \<le> of_int n"
  show ?thesis
  proof (cases "y = of_int n")
    case False
    then have "\<lfloor>y\<rfloor> < n" using y by (simp add: floor_less_iff)
    then show ?thesis by (auto simp: round_half_even_def Let_def)
  qed (simp add: round_half_even_def)
qed

lemma round_half_even_ge: "of_int n \<le> y \<Longrightarrow> n \<le> round_half_even y"
  by (auto simp: round_half_even_def Let_def le_floor_iff [symmetric])

lemma float_step_unfold:
  "253 \<le> k \<or> y < 2 ^ (k + 24) \<Longrightarrow> float_step y k = k"
  "\<not> (253 \<le> k \<or> y < 2 ^ (k + 24)) \<Longrightarrow> float_step y k = float_step y (Suc k)"
  using float_step.simps [of y k] by (simp_all only: if_True if_False)

lemma float_step_bounds:
  "k \<le> 253 \<Longrightarrow> k \<le> float_step y k \<and> float_step y k \<le> 253
    \<and> (k < float_step y k \<longrightarrow> 2 ^ (float_step y k + 23) \<le> y)"
proof (induction y k rule: float_step.induct)
  case (1 y k)
  show ?case
  proof (cases "253 \<le> k \<or> y < 2 ^ (k + 24)")
    case False
    then have "Suc k \<le> float_step y (Suc k) \<and> float_step y (Suc k) \<le> 253
        \<and> (Suc k < float_step y (Suc k) \<longrightarrow> 2 ^ (float_step y (Suc k) + 23) \<le> y)" using 1 by simp
    moreover have "2 ^ (Suc k + 23) \<le> y" using False by (simp add: not_less add.commute [of 24])
    ultimately show ?thesis unfolding float_step_unfold(2) [OF False]
      by (cases "float_step y (Suc k) = Suc k") simp_all
  qed (use 1 in \<open>simp add: float_step_unfold(1)\<close>)
qed

lemma float_step_le: "k \<le> j \<Longrightarrow> y < 2 ^ (j + 24) \<Longrightarrow> float_step y k \<le> j"
proof (induction y k rule: float_step.induct)
  case (1 y k)
  show ?case
  proof (cases "253 \<le> k \<or> y < 2 ^ (k + 24)")
    case False
    then have "k \<noteq> j" using 1 by auto
    then show ?thesis using 1 False by (simp add: float_step_unfold(2))
  qed (use 1 in \<open>simp add: float_step_unfold(1)\<close>)
qed

text \<open>A number up to a \<open>float\<close> \<open>n * 2 ^ j\<close> is rounded to one, and moved by half of \<open>2 ^ j\<close> at most.\<close>

lemma round_float_le:
  assumes "0 \<le> x" and "x * float_units \<le> of_nat n * 2 ^ j" and "n < 2 ^ 24" and "j \<le> 253"
  shows "\<exists>r. round_float x = Finite r \<and> 0 \<le> r \<and> r * float_units \<le> of_nat n * 2 ^ j
    \<and> \<bar>r - x\<bar> * float_units \<le> 2 ^ j / 2"
proof -
  define y where "y = x * float_units"
  define k where "k = float_step y 0"
  define z where "z = of_int (round_half_even (y / 2 ^ k)) * (2 ^ k :: rat)"
  have n: "(of_nat n :: rat) < 2 ^ 24" using assms(3) by (metis of_nat_less_iff of_nat_numeral of_nat_power)
  then have nj: "of_nat n * 2 ^ j < (2 ^ (j + 24) :: rat)" by (simp add: power_add)
  then have "y < 2 ^ (j + 24)" using assms(2) by (simp add: y_def)
  then have k: "k \<le> j" by (simp add: k_def float_step_le)
  have y0: "0 \<le> y" using assms(1) by (simp add: y_def)
  have split: "(2 :: rat) ^ j = 2 ^ (j - k) * 2 ^ k" using k by (simp flip: power_add)
  have "y / 2 ^ k \<le> of_int (int n * 2 ^ (j - k))"
    using assms(2) split by (simp add: y_def divide_le_eq mult.assoc)
  then have "round_half_even (y / 2 ^ k) \<le> int n * 2 ^ (j - k)" by (rule round_half_even_le)
  then have "of_int (round_half_even (y / 2 ^ k)) \<le> (of_int (int n * 2 ^ (j - k)) :: rat)"
    by (simp only: of_int_le_iff)
  then have zn: "z \<le> of_nat n * 2 ^ j" using split by (simp add: z_def mult.assoc [symmetric])
  have "0 \<le> round_half_even (y / 2 ^ k)" using y0 by (intro round_half_even_ge) simp
  then have z0: "0 \<le> z" by (simp add: z_def)
  have "z - y = (of_int (round_half_even (y / 2 ^ k)) - y / 2 ^ k) * 2 ^ k" by (simp add: z_def left_diff_distrib)
  then have "\<bar>z - y\<bar> = \<bar>of_int (round_half_even (y / 2 ^ k)) - y / 2 ^ k\<bar> * 2 ^ k" by (simp add: abs_mult)
  also have "\<dots> \<le> 1 / 2 * 2 ^ k" by (intro mult_right_mono round_half_even_near) simp
  also have "\<dots> \<le> 2 ^ j / 2" using k by simp
  finally have near: "\<bar>z - y\<bar> \<le> 2 ^ j / 2" .
  have "of_nat n * 2 ^ j < float_limit"
  proof -
    have "(2 :: rat) ^ (j + 24) \<le> float_limit" using assms(4) unfolding float_limit_def by (intro power_increasing) simp_all
    then show ?thesis using nj by linarith
  qed
  then have "z < float_limit" using zn by linarith
  moreover have "x = 0 \<Longrightarrow> z = 0" by (simp add: z_def y_def round_half_even_def)
  ultimately have "round_float x = Finite (z / float_units)"
    using assms(1) by (auto simp: round_float_def Let_def y_def [symmetric] k_def [symmetric] z_def [symmetric] sgn_if)
  moreover have "z - y = (z / float_units - x) * float_units" by (simp add: y_def left_diff_distrib)
  then have "\<bar>z - y\<bar> = \<bar>z / float_units - x\<bar> * float_units" by (simp add: abs_mult)
  ultimately show ?thesis using zn z0 near by simp
qed

text \<open>A number from a \<open>float\<close> \<open>n * 2 ^ j\<close> on is rounded to one from there on, or to infinity.\<close>

lemma round_float_ge:
  assumes "of_nat n * 2 ^ j \<le> x * float_units" and "n < 2 ^ 24" and "0 < n"
  shows "round_float x = Infinity False \<or> (\<exists>r. round_float x = Finite r \<and> of_nat n * 2 ^ j \<le> r * float_units)"
proof -
  define y where "y = x * float_units"
  define k where "k = float_step y 0"
  define z where "z = of_int (round_half_even (y / 2 ^ k)) * (2 ^ k :: rat)"
  have "0 < (of_nat n :: rat) * 2 ^ j" using assms(3) by simp
  then have "0 < y" using assms(1) unfolding y_def by linarith
  then have x: "0 < x" unfolding y_def using float_units_pos(1) by (rule zero_less_mult_pos2)
  have "of_nat n * 2 ^ j \<le> z"
  proof (cases "k \<le> j")
    case True
    then have split: "(2 :: rat) ^ j = 2 ^ (j - k) * 2 ^ k" by (simp flip: power_add)
    have "of_int (int n * 2 ^ (j - k)) \<le> y / 2 ^ k" using assms(1) split by (simp add: y_def le_divide_eq mult.assoc)
    then have "int n * 2 ^ (j - k) \<le> round_half_even (y / 2 ^ k)" by (rule round_half_even_ge)
    then have "(of_int (int n * 2 ^ (j - k)) :: rat) \<le> of_int (round_half_even (y / 2 ^ k))" by (simp only: of_int_le_iff)
    then show ?thesis using split by (simp add: z_def mult.assoc [symmetric])
  next
    case False
    have "2 ^ (k + 23) \<le> y" using float_step_bounds [of 0 y] False by (simp add: k_def)
    then have "of_int (2 ^ 23) \<le> y / 2 ^ k" by (simp add: le_divide_eq power_add mult.commute)
    then have "2 ^ 23 \<le> round_half_even (y / 2 ^ k)" by (rule round_half_even_ge)
    then have "(of_int (2 ^ 23) :: rat) \<le> of_int (round_half_even (y / 2 ^ k))" by (simp only: of_int_le_iff)
    then have "2 ^ 23 * 2 ^ k \<le> z" by (simp add: z_def)
    moreover have "(of_nat n :: rat) * 2 ^ j \<le> 2 ^ 24 * 2 ^ j"
      using assms(2) by (intro mult_right_mono) (metis less_imp_le of_nat_less_iff of_nat_numeral of_nat_power, simp)
    moreover have "(2 :: rat) ^ (24 + j) \<le> 2 ^ (23 + k)" using False by (intro power_increasing) simp_all
    ultimately show ?thesis unfolding power_add by linarith
  qed
  then show ?thesis using x
    by (auto simp: round_float_def Let_def y_def [symmetric] k_def [symmetric] z_def [symmetric])
qed

end
