(* ===== verification/Command_Line.thy ===== *)
theory Command_Line
  imports C_Numbers Programs Sponge_Socket
begin

text \<open>
  The programs that run a connection over UDP and over a TUN device (\<open>apps/tcp_udp.cc\<close>,
  \<open>apps/tcp_ipv4.cc\<close>): the usage message, the arguments, \<open>main\<close>. A run ends early with an exit status
  and what was printed, or with an exception. The strings of \<open>argv\<close> have no zero byte; \<open>argc\<close> is the length
  of \<open>argv\<close>, and reading past it is undefined.
\<close>

section \<open>Runs that may exit\<close>

datatype stop = Throws cpp_error | Exits int string

type_synonym 'a run = "stop + 'a"

definition bind_run :: "'a run \<Rightarrow> ('a \<Rightarrow> 'b run) \<Rightarrow> 'b run" where
  "bind_run m f = (case m of Inl e \<Rightarrow> Inl e | Inr x \<Rightarrow> f x)"

definition throwing :: "'a result \<Rightarrow> 'a run" where
  "throwing r = (case r of Inl e \<Rightarrow> Inl (Throws e) | Inr x \<Rightarrow> Inr x)"

definition argv_at :: "string list \<Rightarrow> nat \<Rightarrow> string run" where
  "argv_at argv i = (if i < length argv then Inr (argv ! i) else Inl (Throws (Undefined_Behaviour ''argv'')))"

text \<open>\<open>strncmp(a, b, n) == 0\<close>; most options are compared with three characters.\<close>

definition strncmp_eq :: "nat \<Rightarrow> string \<Rightarrow> string \<Rightarrow> bool" where
  "strncmp_eq n a b \<longleftrightarrow> take n (a @ [CHR 0x00]) = take n (b @ [CHR 0x00])"

definition is_option :: "string \<Rightarrow> string \<Rightarrow> bool" where
  "is_option opt arg \<longleftrightarrow> strncmp_eq 3 opt arg"

section \<open>What both programs do with their arguments\<close>

record options =
  op_fsm :: tcp_config
  op_filt :: fd_adapter_config
  op_listen :: bool

definition usage_head :: "string \<Rightarrow> string" where
  "usage_head argv0 =
     ''Usage: '' @ argv0 @ '' [options] <host> <port>'' @ new_line @ new_line
     @ ''   Option                                                          Default'' @ new_line
     @ ''   --                                                              --'' @ new_line @ new_line
     @ ''   -l              Server (listen) mode.                           (client mode)'' @ new_line
     @ ''                   In server mode, <host>:<port> is the address to bind.'' @ new_line @ new_line"

definition usage_window :: string where
  "usage_window =
     ''   -w <winsz>      Use a window of <winsz> bytes                   '' @ dec_string (unat MAX_PAYLOAD_SIZE)
     @ new_line @ new_line
     @ ''   -t <tmout>      Set rt_timeout to tmout                         '' @ dec_string (unat TIMEOUT_DFLT)
     @ new_line @ new_line"

definition usage_loss :: string where
  "usage_loss =
     ''   -Lu <loss>      Set uplink loss to <rate> (float in 0..1)       (no loss)'' @ new_line
     @ ''   -Ld <loss>      Set downlink loss to <rate> (float in 0..1)     (no loss)'' @ new_line @ new_line"

definition usage_tail :: "string option \<Rightarrow> string" where
  "usage_tail msg = (case msg of None \<Rightarrow> [] | Some m \<Rightarrow> m) @ new_line"

type_synonym usage = "string \<Rightarrow> string option \<Rightarrow> string"

definition check_argc :: "usage \<Rightarrow> string list \<Rightarrow> nat \<Rightarrow> string \<Rightarrow> unit run" where
  "check_argc show_usage argv cur err =
     (if cur + 3 \<ge> length argv then bind_run (argv_at argv 0) (\<lambda>argv0. Inl (Exits 1 (show_usage argv0 (Some err))))
      else Inr ())"

text \<open>An option with a value: the check, what is done with \<open>argv[curr + 1]\<close>, \<open>curr += 2\<close>.\<close>

definition with_value :: "usage \<Rightarrow> string list \<Rightarrow> nat \<Rightarrow> string \<Rightarrow> (string \<Rightarrow> 'o run) \<Rightarrow> (nat \<times> 'o) run" where
  "with_value show_usage argv cur err f =
     bind_run (check_argc show_usage argv cur err) (\<lambda>_.
     bind_run (argv_at argv (cur + 1)) (\<lambda>v.
     bind_run (f v) (\<lambda>opts. Inr (cur + 2, opts))))"

text \<open>The assignments. \<open>strtol\<close> returns a \<open>long\<close>, which is converted to \<open>size_t\<close> and to \<open>uint16_t\<close>.\<close>

definition set_window :: "string \<Rightarrow> 'm options_scheme \<Rightarrow> 'm options_scheme" where
  "set_window v opts = opts\<lparr>op_fsm := (op_fsm opts)\<lparr>cfg_recv_capacity := word_of_int (strtol v)\<rparr>\<rparr>"

definition set_timeout :: "string \<Rightarrow> 'm options_scheme \<Rightarrow> 'm options_scheme" where
  "set_timeout v opts = opts\<lparr>op_fsm := (op_fsm opts)\<lparr>cfg_rt_timeout := word_of_int (strtol v)\<rparr>\<rparr>"

definition loss_rate :: "string \<Rightarrow> uint16 result" where
  "loss_rate v = (let lossrate = strtof v in float_to_uint16 (float_scale 65535 lossrate))"

definition set_loss_up :: "string \<Rightarrow> 'm options_scheme \<Rightarrow> 'm options_scheme run" where
  "set_loss_up v opts = bind_run (throwing (loss_rate v)) (\<lambda>r.
     Inr (opts\<lparr>op_filt := (op_filt opts)\<lparr>fc_loss_rate_up := r\<rparr>\<rparr>))"

definition set_loss_down :: "string \<Rightarrow> 'm options_scheme \<Rightarrow> 'm options_scheme run" where
  "set_loss_down v opts = bind_run (throwing (loss_rate v)) (\<lambda>r.
     Inr (opts\<lparr>op_filt := (op_filt opts)\<lparr>fc_loss_rate_dn := r\<rparr>\<rparr>))"

text \<open>The last two branches of the chain: help, and an unknown option.\<close>

definition help_or_unknown :: "usage \<Rightarrow> string list \<Rightarrow> string \<Rightarrow> 'a run" where
  "help_or_unknown show_usage argv arg =
     bind_run (argv_at argv 0) (\<lambda>argv0.
       if is_option ''-h'' arg then Inl (Exits 0 (show_usage argv0 None))
       else Inl (Exits 1 (show_usage argv0 (Some (''ERROR: unrecognized option '' @ arg)))))"

section \<open>tcp_udp\<close>

definition udp_show_usage :: usage where
  "udp_show_usage argv0 msg =
     usage_head argv0 @ usage_window @ usage_loss
     @ ''   -h              Show this message and quit.'' @ new_line @ new_line @ usage_tail msg"

text \<open>One round of the loop over the options: the next index and the options so far.\<close>

definition udp_option :: "string list \<Rightarrow> nat \<Rightarrow> options \<Rightarrow> (nat \<times> options) run" where
  "udp_option argv cur opts =
     bind_run (argv_at argv cur) (\<lambda>arg.
       if is_option ''-l'' arg then Inr (cur + 1, opts\<lparr>op_listen := True\<rparr>)
       else if is_option ''-w'' arg
       then with_value udp_show_usage argv cur ''ERROR: -w requires one argument.'' (\<lambda>v. Inr (set_window v opts))
       else if is_option ''-t'' arg
       then with_value udp_show_usage argv cur ''ERROR: -t requires one argument.'' (\<lambda>v. Inr (set_timeout v opts))
       else if is_option ''-Lu'' arg
       then with_value udp_show_usage argv cur ''ERROR: -Lu requires one argument.'' (\<lambda>v. set_loss_up v opts)
       else if is_option ''-Ld'' arg
       then with_value udp_show_usage argv cur ''ERROR: -Lu requires one argument.'' (\<lambda>v. set_loss_down v opts)
       else help_or_unknown udp_show_usage argv arg)"

lemma bind_run_simps [simp]: "bind_run (Inl e) f = Inl e" "bind_run (Inr x) f = f x"
  by (simp_all add: bind_run_def)

lemma bind_run_eq_Inr: "bind_run m f = Inr y \<longleftrightarrow> (\<exists>x. m = Inr x \<and> f x = Inr y)"
  by (cases m) simp_all

lemma bind_run_eq_Inl: "bind_run m f = Inl e \<longleftrightarrow> m = Inl e \<or> (\<exists>x. m = Inr x \<and> f x = Inl e)"
  by (cases m) simp_all

lemma with_value_advances:
  "with_value show_usage argv cur err f = Inr (next, opts) \<Longrightarrow> next = cur + 2 \<and> cur + 3 < length argv"
  by (auto simp: with_value_def check_argc_def bind_run_eq_Inr split: if_splits)

lemma help_or_unknown_stops: "help_or_unknown show_usage argv arg \<noteq> Inr x"
  by (auto simp: help_or_unknown_def bind_run_eq_Inr)

lemma udp_option_advances:
  "udp_option argv cur opts = Inr (next, opts') \<Longrightarrow> next = cur + 1 \<or> next = cur + 2 \<and> cur + 3 < length argv"
  unfolding udp_option_def bind_run_eq_Inr
  by (elim exE conjE) (auto simp only: help_or_unknown_stops sum.inject prod.inject dest: with_value_advances split: if_splits)

function udp_options_loop :: "string list \<Rightarrow> nat \<Rightarrow> options \<Rightarrow> (nat \<times> options) run" where
  "udp_options_loop argv cur opts =
     (if length argv - cur > 2
      then case udp_option argv cur opts of Inl e \<Rightarrow> Inl e | Inr (next, opts') \<Rightarrow> udp_options_loop argv next opts'
      else Inr (cur, opts))"
  by pat_completeness auto
termination
  by (relation "measure (\<lambda>(argv, cur, opts). length argv - cur)") (auto dest!: udp_option_advances)

declare udp_options_loop.simps [simp del]

definition udp_get_config :: "getaddrinfo \<Rightarrow> string list \<Rightarrow> options run" where
  "udp_get_config gai argv =
     bind_run (throwing (fc_default gai)) (\<lambda>c_filt.
     bind_run (udp_options_loop argv 1 \<lparr>op_fsm = cfg_default, op_filt = c_filt, op_listen = False\<rparr>) (\<lambda>(cur, opts).
     bind_run (argv_at argv (length argv - 1)) (\<lambda>port.
       if op_listen opts
       then bind_run (throwing (addr_of_host gai ''0'' port)) (\<lambda>source.
            Inr (opts\<lparr>op_filt := (op_filt opts)\<lparr>fc_source := source\<rparr>\<rparr>))
       else bind_run (argv_at argv (length argv - 2)) (\<lambda>host.
            bind_run (throwing (addr_of_host gai host port)) (\<lambda>destination.
            Inr (opts\<lparr>op_filt := (op_filt opts)\<lparr>fc_destination := destination\<rparr>\<rparr>))))))"

section \<open>tcp_ipv4\<close>

record ipv4_options = options +
  op_tundev :: "string option"
  op_source_address :: string
  op_source_port :: string

definition TUN_DFLT :: string where "TUN_DFLT = ''tun144''"

definition LOCAL_ADDRESS_DFLT :: string where "LOCAL_ADDRESS_DFLT = ''169.254.144.9''"

definition ipv4_show_usage :: usage where
  "ipv4_show_usage argv0 msg =
     usage_head argv0
     @ ''   -a <addr>       Set source address (client mode only)           '' @ LOCAL_ADDRESS_DFLT @ new_line
     @ ''   -s <port>       Set source port (client mode only)              (random)'' @ new_line @ new_line
     @ usage_window
     @ ''   -d <tundev>     Connect to tun <tundev>                         '' @ TUN_DFLT @ new_line @ new_line
     @ usage_loss
     @ ''   -h              Show this message.'' @ new_line @ new_line @ usage_tail msg"

definition ipv4_option :: "string list \<Rightarrow> nat \<Rightarrow> ipv4_options \<Rightarrow> (nat \<times> ipv4_options) run" where
  "ipv4_option argv cur opts =
     bind_run (argv_at argv cur) (\<lambda>arg.
       if is_option ''-l'' arg then Inr (cur + 1, opts\<lparr>op_listen := True\<rparr>)
       else if is_option ''-a'' arg
       then with_value ipv4_show_usage argv cur ''ERROR: -a requires one argument.''
              (\<lambda>v. Inr (opts\<lparr>op_source_address := v\<rparr>))
       else if is_option ''-s'' arg
       then with_value ipv4_show_usage argv cur ''ERROR: -s requires one argument.''
              (\<lambda>v. Inr (opts\<lparr>op_source_port := v\<rparr>))
       else if is_option ''-w'' arg
       then with_value ipv4_show_usage argv cur ''ERROR: -w requires one argument.'' (\<lambda>v. Inr (set_window v opts))
       else if is_option ''-t'' arg
       then with_value ipv4_show_usage argv cur ''ERROR: -t requires one argument.'' (\<lambda>v. Inr (set_timeout v opts))
       else if is_option ''-d'' arg
       then with_value ipv4_show_usage argv cur ''ERROR: -t requires one argument.''
              (\<lambda>v. Inr (opts\<lparr>op_tundev := Some v\<rparr>))
       else if is_option ''-Lu'' arg
       then with_value ipv4_show_usage argv cur ''ERROR: -Lu requires one argument.'' (\<lambda>v. set_loss_up v opts)
       else if is_option ''-Ld'' arg
       then with_value ipv4_show_usage argv cur ''ERROR: -Lu requires one argument.'' (\<lambda>v. set_loss_down v opts)
       else help_or_unknown ipv4_show_usage argv arg)"

lemma ipv4_option_advances:
  "ipv4_option argv cur opts = Inr (next, opts') \<Longrightarrow> next = cur + 1 \<or> next = cur + 2 \<and> cur + 3 < length argv"
  unfolding ipv4_option_def bind_run_eq_Inr
  by (elim exE conjE) (auto simp only: help_or_unknown_stops sum.inject prod.inject dest: with_value_advances split: if_splits)

function ipv4_options_loop :: "string list \<Rightarrow> nat \<Rightarrow> ipv4_options \<Rightarrow> (nat \<times> ipv4_options) run" where
  "ipv4_options_loop argv cur opts =
     (if length argv - cur > 2
      then case ipv4_option argv cur opts of Inl e \<Rightarrow> Inl e | Inr (next, opts') \<Rightarrow> ipv4_options_loop argv next opts'
      else Inr (cur, opts))"
  by pat_completeness auto
termination
  by (relation "measure (\<lambda>(argv, cur, opts). length argv - cur)") (auto dest!: ipv4_option_advances)

declare ipv4_options_loop.simps [simp del]

text \<open>The first argument is the value of \<open>random_device\<close>.\<close>

definition ipv4_get_config :: "uint32 \<Rightarrow> getaddrinfo \<Rightarrow> getnameinfo \<Rightarrow> string list \<Rightarrow> ipv4_options run" where
  "ipv4_get_config random gai gni argv =
     bind_run (throwing (fc_default gai)) (\<lambda>c_filt.
     bind_run (ipv4_options_loop argv 1
       \<lparr>op_fsm = cfg_default, op_filt = c_filt, op_listen = False, op_tundev = None,
        op_source_address = LOCAL_ADDRESS_DFLT,
        op_source_port = dec_string (unat (ucast random :: uint16))\<rparr>) (\<lambda>(cur, opts).
     bind_run (argv_at argv (cur + 1)) (\<lambda>port.
       if op_listen opts
       then bind_run (throwing (addr_of_host gai ''0'' port)) (\<lambda>source.
            bind_run (throwing (addr_port gni source)) (\<lambda>p.
              if p = 0
              then bind_run (argv_at argv 0) (\<lambda>argv0. Inl (Exits 1 (ipv4_show_usage argv0
                     (Some ''ERROR: listen port cannot be zero in server mode.''))))
              else Inr (opts\<lparr>op_filt := (op_filt opts)\<lparr>fc_source := source\<rparr>\<rparr>)))
       else bind_run (argv_at argv cur) (\<lambda>host.
            bind_run (throwing (addr_of_host gai host port)) (\<lambda>destination.
            bind_run (throwing (addr_of_host gai (op_source_address opts) (op_source_port opts))) (\<lambda>source.
            Inr (opts\<lparr>op_filt := (op_filt opts)\<lparr>fc_destination := destination, fc_source := source\<rparr>\<rparr>)))))))"

section \<open>main\<close>

text \<open>
  What both programs do with a socket. The thread that \<open>connect\<close> and \<open>listen_and_accept\<close> start runs beside the
  rest of \<open>main\<close>, which sees it through the system calls on its own end of the pair of sockets. \<open>None\<close> is
  a run that does not end.
\<close>

definition run_socket :: "('a, 'k) adapter_ops \<Rightarrow> 'k kernel \<Rightarrow> ('k \<Rightarrow> bool) \<Rightarrow> uint32 \<Rightarrow> 'm options_scheme
    \<Rightarrow> ('a, 'k) sponge \<Rightarrow> ('a, 'k) sponge run option" where
  "run_socket ops k aborted random opts tcp_socket =
     (case if op_listen opts then sp_listen_and_accept ops k aborted random (op_fsm opts) (op_filt opts) tcp_socket
           else sp_connect ops k aborted random (op_fsm opts) (op_filt opts) tcp_socket of
        None \<Rightarrow> None
      | Some (Inl e) \<Rightarrow> Some (Inl (Throws e))
      | Some (Inr (rules, s)) \<Rightarrow>
          map_option (\<lambda>r. bind_run (throwing r) (\<lambda>(fd, w).
              throwing (sp_wait_until_closed k (s\<lparr>sp_socket := fd, sp_world := w\<rparr>))))
            (bidirectional_stream_copy k (sp_socket s) (sp_world s)))"

definition exit_status :: "'a run \<Rightarrow> int result" where
  "exit_status r =
     (case r of
        Inr _ \<Rightarrow> Inr EXIT_SUCCESS
      | Inl (Exits status _) \<Rightarrow> Inr status
      | Inl (Throws (Undefined_Behaviour m)) \<Rightarrow> Inl (Undefined_Behaviour m)
      | Inl (Throws e) \<Rightarrow> Inr EXIT_FAILURE)"

text \<open>The socket of each program. \<open>g\<close> is the state of the random generator of the lossy adapter.\<close>

definition udp_open :: "getaddrinfo \<Rightarrow> 'k kernel \<Rightarrow> 'g \<Rightarrow> options \<Rightarrow> 'k
    \<Rightarrow> (file_descriptor \<times> 'g lossy, 'k) sponge result" where
  "udp_open gai k g opts w =
     bind_res (udp_socket_new k w) (\<lambda>(udp_sock, w).
     bind_res (if op_listen opts then sock_bind k (fc_source (op_filt opts)) udp_sock w else Inr w) (\<lambda>w.
     bind_res (fa_new gai) (\<lambda>a. sp_create k (udp_sock, \<lparr>ls_rand = g, ls_adapter = a\<rparr>) w)))"

definition ipv4_open :: "getaddrinfo \<Rightarrow> 'k kernel \<Rightarrow> 'g \<Rightarrow> ipv4_options \<Rightarrow> 'k
    \<Rightarrow> (file_descriptor \<times> 'g lossy, 'k) sponge result" where
  "ipv4_open gai k g opts w =
     bind_res (tun_fd_new k (text_bytes (case op_tundev opts of None \<Rightarrow> TUN_DFLT | Some name \<Rightarrow> name)) w) (\<lambda>(tun, w).
     bind_res (fa_new gai) (\<lambda>a. sp_create k (tun, \<lparr>ls_rand = g, ls_adapter = a\<rparr>) w))"

definition udp_main :: "('g \<Rightarrow> uint32 \<times> 'g) \<Rightarrow> getaddrinfo \<Rightarrow> getnameinfo \<Rightarrow> 'k kernel \<Rightarrow> ('k \<Rightarrow> bool) \<Rightarrow> 'g \<Rightarrow> uint32
    \<Rightarrow> string list \<Rightarrow> 'k \<Rightarrow> int result option" where
  "udp_main rand gai gni k aborted g random argv w =
     (if length argv < 3 then Some (Inr 1)
      else case bind_run (udp_get_config gai argv) (\<lambda>opts.
                bind_run (throwing (udp_open gai k g opts w)) (\<lambda>tcp_socket. Inr (opts, tcp_socket))) of
        Inl e \<Rightarrow> Some (exit_status (Inl e :: unit run))
      | Inr (opts, tcp_socket) \<Rightarrow>
          map_option exit_status (run_socket (lossy_udp_ops rand gni k) k aborted random opts tcp_socket))"

definition ipv4_main :: "('g \<Rightarrow> uint32 \<times> 'g) \<Rightarrow> getaddrinfo \<Rightarrow> getnameinfo \<Rightarrow> inet_ntoa \<Rightarrow> 'k kernel \<Rightarrow> ('k \<Rightarrow> bool)
    \<Rightarrow> 'g \<Rightarrow> uint32 \<Rightarrow> uint32 \<Rightarrow> string list \<Rightarrow> 'k \<Rightarrow> int result option" where
  "ipv4_main rand gai gni ntoa k aborted g random_port random argv w =
     (if length argv < 3 then Some (Inr EXIT_FAILURE)
      else case bind_run (ipv4_get_config random_port gai gni argv) (\<lambda>opts.
                bind_run (throwing (ipv4_open gai k g opts w)) (\<lambda>tcp_socket. Inr (opts, tcp_socket))) of
        Inl e \<Rightarrow> Some (exit_status (Inl e :: unit run))
      | Inr (opts, tcp_socket) \<Rightarrow>
          map_option exit_status (run_socket (lossy_tun_ops rand gai gni ntoa k) k aborted random opts tcp_socket))"

section \<open>The loop stays inside argv\<close>

lemma argv_at_nth [simp]: "i < length argv \<Longrightarrow> argv_at argv i = Inr (argv ! i)"
  by (simp add: argv_at_def)

lemma throwing_eq [simp]:
  "throwing r = Inr x \<longleftrightarrow> r = Inr x" "throwing r = Inl (Throws e) \<longleftrightarrow> r = Inl e" "throwing r \<noteq> Inl (Exits n t)"
  by (cases r; simp add: throwing_def)+

text \<open>How a run of \<open>get_config\<close> can stop early: with the usage message, or with the undefined conversion.\<close>

definition option_stop :: "usage \<Rightarrow> string list \<Rightarrow> stop \<Rightarrow> bool" where
  "option_stop show_usage argv e \<longleftrightarrow>
     e = Exits 0 (show_usage (argv ! 0) None) \<or> (\<exists>msg. e = Exits 1 (show_usage (argv ! 0) (Some msg)))
     \<or> e = Throws (Undefined_Behaviour ''float to uint16_t'')"

lemma loss_rate_error: "loss_rate v = Inl e \<Longrightarrow> e = Undefined_Behaviour ''float to uint16_t''"
  by (auto simp: loss_rate_def float_to_uint16_def split: float32.splits if_splits)

lemma set_loss_error:
  "set_loss_up v opts = Inl e \<Longrightarrow> e = Throws (Undefined_Behaviour ''float to uint16_t'')"
  "set_loss_down v opts = Inl e \<Longrightarrow> e = Throws (Undefined_Behaviour ''float to uint16_t'')"
  by (cases "loss_rate v"; auto simp: set_loss_up_def set_loss_down_def throwing_def dest: loss_rate_error)+

lemma with_value_stop:
  assumes "with_value show_usage argv cur err f = Inl e" and "cur + 2 < length argv"
    and "\<And>v e. f v = Inl e \<Longrightarrow> e = Throws (Undefined_Behaviour ''float to uint16_t'')"
  shows "option_stop show_usage argv e"
proof -
  have "argv_at argv 0 = Inr (argv ! 0)" using assms(2) by (intro argv_at_nth) linarith
  then show ?thesis using assms
    by (auto simp: with_value_def check_argc_def bind_run_eq_Inl option_stop_def split: if_splits)
qed

lemma help_or_unknown_stop:
  assumes "help_or_unknown show_usage argv arg = Inl e" and "cur + 2 < length argv"
  shows "option_stop show_usage argv e"
proof -
  have "argv_at argv 0 = Inr (argv ! 0)" using assms(2) by (intro argv_at_nth) linarith
  then show ?thesis using assms(1) by (auto simp: help_or_unknown_def option_stop_def split: if_splits)
qed

lemma udp_option_stop:
  "udp_option argv cur opts = Inl e \<Longrightarrow> cur + 2 < length argv \<Longrightarrow> option_stop udp_show_usage argv e"
  unfolding udp_option_def
  by (auto simp only: argv_at_nth bind_run_simps intro: help_or_unknown_stop elim!: with_value_stop set_loss_error split: if_splits)

lemma ipv4_option_stop:
  "ipv4_option argv cur opts = Inl e \<Longrightarrow> cur + 2 < length argv \<Longrightarrow> option_stop ipv4_show_usage argv e"
  unfolding ipv4_option_def
  by (auto simp only: argv_at_nth bind_run_simps intro: help_or_unknown_stop elim!: with_value_stop set_loss_error split: if_splits)

text \<open>
  What the loops of the two programs have in common: a step moves on by one or two arguments, and
  stops only with a message or with the undefined conversion.
\<close>

locale option_parser =
  fixes show_usage :: usage
    and step :: "string list \<Rightarrow> nat \<Rightarrow> 'o \<Rightarrow> (nat \<times> 'o) run"
    and loop :: "string list \<Rightarrow> nat \<Rightarrow> 'o \<Rightarrow> (nat \<times> 'o) run"
  assumes loop_eq: "loop argv cur opts =
      (if length argv - cur > 2
       then case step argv cur opts of Inl e \<Rightarrow> Inl e | Inr (next, opts') \<Rightarrow> loop argv next opts'
       else Inr (cur, opts))"
    and advances: "step argv cur opts = Inr (next, opts') \<Longrightarrow>
      next = cur + 1 \<or> next = cur + 2 \<and> cur + 3 < length argv"
    and stops: "step argv cur opts = Inl e \<Longrightarrow> cur + 2 < length argv \<Longrightarrow> option_stop show_usage argv e"
begin

text \<open>The loop ends at the second argument from the end.\<close>

lemma loop_result:
  "cur + 2 \<le> length argv \<Longrightarrow> case loop argv cur opts of Inl e \<Rightarrow> option_stop show_usage argv e
     | Inr (final, _) \<Rightarrow> final + 2 = length argv"
proof (induction "length argv - cur" arbitrary: cur opts rule: less_induct)
  case less
  show ?case
  proof (cases "length argv - cur > 2")
    case True
    show ?thesis
    proof (cases "step argv cur opts")
      case (Inl e)
      then show ?thesis using True stops [OF Inl] by (simp add: loop_eq [of argv cur])
    next
      case (Inr x)
      obtain n opts' where x: "x = (n, opts')" by (cases x)
      have "n + 2 \<le> length argv \<and> cur < n" using advances [OF Inr [unfolded x]] True by auto
      then show ?thesis using less.hyps [of n opts'] True Inr x by (simp add: loop_eq [of argv cur] diff_less_mono2)
    qed
  qed (use less.prems in \<open>simp add: loop_eq [of argv cur]\<close>)
qed

end

interpretation udp_parser: option_parser udp_show_usage udp_option udp_options_loop
  by unfold_locales (fact udp_options_loop.simps udp_option_advances udp_option_stop)+

interpretation ipv4_parser: option_parser ipv4_show_usage ipv4_option ipv4_options_loop
  by unfold_locales (fact ipv4_options_loop.simps ipv4_option_advances ipv4_option_stop)+

section \<open>Loss rates\<close>

lemma float_units_nat: "float_units = of_nat (2 ^ 23) * 2 ^ 126" "65535 * float_units = of_nat 16776960 * 2 ^ 141"
  by (simp_all add: float_units_def)

lemma rate_rounded:
  assumes "0 \<le> x" and "x \<le> 1"
  shows "\<exists>r. round_float x = Finite r \<and> 0 \<le> r \<and> r \<le> 1 \<and> \<bar>r - x\<bar> \<le> 1 / 2 ^ 24"
proof -
  have "x * float_units \<le> of_nat (2 ^ 23) * 2 ^ 126"
    using mult_right_mono [OF assms(2) float_units_pos(3)] unfolding float_units_nat(1) by simp
  then obtain r where r: "round_float x = Finite r" "0 \<le> r" "r * float_units \<le> of_nat (2 ^ 23) * 2 ^ 126"
      "\<bar>r - x\<bar> * float_units \<le> 2 ^ 126 / 2"
    using round_float_le [OF assms(1), of "2 ^ 23" 126] by auto
  moreover have "r \<le> 1" using r(3) by (simp add: float_units_def)
  moreover have "\<bar>r - x\<bar> \<le> 1 / 2 ^ 24" using r(4) by (simp add: float_units_def)
  ultimately show ?thesis by blast
qed

lemma scaled_rounded:
  assumes "0 \<le> x" and "x \<le> 65535"
  shows "\<exists>r. round_float x = Finite r \<and> 0 \<le> r \<and> r \<le> 65535 \<and> \<bar>r - x\<bar> \<le> 1 / 2 ^ 9"
proof -
  have "x * float_units \<le> of_nat 16776960 * 2 ^ 141"
    using mult_right_mono [OF assms(2) float_units_pos(3)] unfolding float_units_nat(2) .
  then obtain r where r: "round_float x = Finite r" "0 \<le> r" "r * float_units \<le> of_nat 16776960 * 2 ^ 141"
      "\<bar>r - x\<bar> * float_units \<le> 2 ^ 141 / 2"
    using round_float_le [OF assms(1), of 16776960 141] by auto
  moreover have "r \<le> 65535" using r(3) by (simp add: float_units_def)
  moreover have "\<bar>r - x\<bar> \<le> 1 / 2 ^ 9" using r(4) by (simp add: float_units_def)
  ultimately show ?thesis by blast
qed

lemma round_above:
  assumes "of_nat n \<le> x" and "n < 2 ^ 24" and "0 < n"
  shows "round_float x = Infinity False \<or> (\<exists>r. round_float x = Finite r \<and> of_nat n \<le> r)"
proof -
  have "of_nat n * 2 ^ 149 \<le> x * float_units" unfolding float_units_def using assms(1) by (intro mult_right_mono) simp_all
  then have "round_float x = Infinity False \<or> (\<exists>r. round_float x = Finite r \<and> of_nat n * 2 ^ 149 \<le> r * float_units)"
    using assms(2,3) by (rule round_float_ge)
  moreover have "of_nat n * 2 ^ 149 \<le> r * float_units \<Longrightarrow> of_nat n \<le> r" for r
    unfolding float_units_def using mult_right_le_imp_le [of "of_nat n" "2 ^ 149" r] by simp
  ultimately show ?thesis by blast
qed

text \<open>The conversion of a rate in the range, and of one that is twice too large.\<close>

lemma scaled_rate_defined:
  assumes "0 \<le> x" and "x \<le> 1"
  shows "\<exists>r. float_to_uint16 (float_scale 65535 (round_float x)) = Inr r
    \<and> 65535 * x - 65 / 64 < of_nat (unat r) \<and> of_nat (unat r) \<le> 65535 * x + 1 / 64"
proof -
  obtain r where r: "round_float x = Finite r" "0 \<le> r" "r \<le> 1" "\<bar>r - x\<bar> \<le> 1 / 2 ^ 24"
    using rate_rounded [OF assms] by auto
  then obtain z where z: "round_float (65535 * r) = Finite z" "0 \<le> z" "z \<le> 65535" "\<bar>z - 65535 * r\<bar> \<le> 1 / 2 ^ 9"
    using scaled_rounded [of "65535 * r"] by auto
  have f: "0 \<le> \<lfloor>z\<rfloor>" "\<lfloor>z\<rfloor> < 2 ^ 16" using z(2,3) by (simp_all add: floor_less_iff)
  then have "float_to_uint16 (float_scale 65535 (round_float x)) = Inr (word_of_int \<lfloor>z\<rfloor>)"
    using r z(1,2) by (simp add: float_scale_def float_to_uint16_def cut_fraction_def)
  moreover have "int (unat (word_of_int \<lfloor>z\<rfloor> :: uint16)) = \<lfloor>z\<rfloor>" using f by (simp add: unsigned_of_int take_bit_int_eq_self)
  then have "of_nat (unat (word_of_int \<lfloor>z\<rfloor> :: uint16)) = (of_int \<lfloor>z\<rfloor> :: rat)" by (metis of_int_of_nat_eq)
  moreover have "r - x \<le> 1 / 2 ^ 24 \<and> x - r \<le> 1 / 2 ^ 24" using abs_le_D1 [OF r(4)] abs_le_D2 [OF r(4)] by simp
  then have "65535 * x - 65 / 64 < of_int \<lfloor>z\<rfloor> \<and> of_int \<lfloor>z\<rfloor> \<le> 65535 * x + 1 / 64"
    using abs_le_D1 [OF z(4)] abs_le_D2 [OF z(4)] floor_correct [of z] by (simp add: field_simps) linarith
  ultimately show ?thesis by auto
qed

lemma float_to_uint16_large:
  "f = Infinity neg \<or> (\<exists>z. f = Finite z \<and> 65536 \<le> z) \<Longrightarrow> float_to_uint16 f = Inl (Undefined_Behaviour ''float to uint16_t'')"
  by (auto simp: float_to_uint16_def cut_fraction_def floor_less_iff)

lemma scaled_rate_undefined:
  assumes "2 \<le> x"
  shows "float_to_uint16 (float_scale 65535 (round_float x)) = Inl (Undefined_Behaviour ''float to uint16_t'')"
proof -
  consider "round_float x = Infinity False" | r where "round_float x = Finite r" "2 \<le> r"
    using round_above [of 2 x] assms by auto
  then show ?thesis
  proof cases
    case 2
    then have "round_float (65535 * r) = Infinity False \<or> (\<exists>z. round_float (65535 * r) = Finite z \<and> of_nat 131070 \<le> z)"
      by (intro round_above) simp_all
    then show ?thesis using 2 by (intro float_to_uint16_large [where neg = False]) (auto simp: float_scale_def)
  qed (intro float_to_uint16_large [where neg = False], simp add: float_scale_def)
qed

text \<open>A rate as the usage message wants it, written with a point: digits before it, digits after it, at most 1.\<close>

definition written_rate :: "string \<Rightarrow> string \<Rightarrow> bool" where
  "written_rate ds fs \<longleftrightarrow> list_all is_digit ds \<and> list_all is_digit fs \<and> ds \<noteq> [] \<and> decimal ds fs \<le> 1"

lemma written_rate_converted:
  assumes "written_rate ds fs"
  shows "\<exists>r. loss_rate (ds @ ''.'' @ fs) = Inr r
    \<and> 65535 * decimal ds fs - 65 / 64 < of_nat (unat r) \<and> of_nat (unat r) \<le> 65535 * decimal ds fs + 1 / 64"
proof -
  have d: "list_all is_digit ds" "list_all is_digit fs" "ds \<noteq> []" "decimal ds fs \<le> 1"
    using assms by (simp_all add: written_rate_def)
  have "0 \<le> decimal ds fs" by (simp add: decimal_def)
  then show ?thesis unfolding loss_rate_def strtof_decimal [OF d(1-3)] Let_def using scaled_rate_defined d(4) by blast
qed

section \<open>Arguments and their effects\<close>

text \<open>The options, and how they are written.\<close>

datatype cl_option =
    Listen
  | Source_Address string
  | Source_Port string
  | Window nat
  | Timeout nat
  | Device string
  | Loss_Up string string
  | Loss_Down string string

fun show_option :: "cl_option \<Rightarrow> string list" where
  "show_option Listen = [''-l'']"
| "show_option (Source_Address a) = [''-a'', a]"
| "show_option (Source_Port p) = [''-s'', p]"
| "show_option (Window n) = [''-w'', dec_string n]"
| "show_option (Timeout n) = [''-t'', dec_string n]"
| "show_option (Device d) = [''-d'', d]"
| "show_option (Loss_Up ds fs) = [''-Lu'', ds @ ''.'' @ fs]"
| "show_option (Loss_Down ds fs) = [''-Ld'', ds @ ''.'' @ fs]"

text \<open>A window is a number that fits a \<open>long\<close>, a time-out one that fits the field, a rate at most 1.\<close>

fun option_ok :: "cl_option \<Rightarrow> bool" where
  "option_ok (Window n) \<longleftrightarrow> n < 2 ^ 63"
| "option_ok (Timeout n) \<longleftrightarrow> n < 2 ^ 16"
| "option_ok (Loss_Up ds fs) \<longleftrightarrow> written_rate ds fs"
| "option_ok (Loss_Down ds fs) \<longleftrightarrow> written_rate ds fs"
| "option_ok _ \<longleftrightarrow> True"

text \<open>
  What each option changes. \<open>rate\<close> is the field of 16 bits for a rate that is written with the given digits
  before and after the point.
\<close>

fun common_effect :: "(string \<Rightarrow> string \<Rightarrow> uint16) \<Rightarrow> cl_option \<Rightarrow> 'm options_scheme \<Rightarrow> 'm options_scheme" where
  "common_effect rate Listen opts = opts\<lparr>op_listen := True\<rparr>"
| "common_effect rate (Window n) opts = opts\<lparr>op_fsm := (op_fsm opts)\<lparr>cfg_recv_capacity := of_nat n\<rparr>\<rparr>"
| "common_effect rate (Timeout n) opts = opts\<lparr>op_fsm := (op_fsm opts)\<lparr>cfg_rt_timeout := of_nat n\<rparr>\<rparr>"
| "common_effect rate (Loss_Up ds fs) opts = opts\<lparr>op_filt := (op_filt opts)\<lparr>fc_loss_rate_up := rate ds fs\<rparr>\<rparr>"
| "common_effect rate (Loss_Down ds fs) opts = opts\<lparr>op_filt := (op_filt opts)\<lparr>fc_loss_rate_dn := rate ds fs\<rparr>\<rparr>"
| "common_effect rate _ opts = opts"

fun ipv4_effect :: "(string \<Rightarrow> string \<Rightarrow> uint16) \<Rightarrow> cl_option \<Rightarrow> ipv4_options \<Rightarrow> ipv4_options" where
  "ipv4_effect rate (Source_Address a) opts = opts\<lparr>op_source_address := a\<rparr>"
| "ipv4_effect rate (Source_Port p) opts = opts\<lparr>op_source_port := p\<rparr>"
| "ipv4_effect rate (Device d) opts = opts\<lparr>op_tundev := Some d\<rparr>"
| "ipv4_effect rate other opts = common_effect rate other opts"

text \<open>The conversion of the programs.\<close>

definition rate_of :: "string \<Rightarrow> string \<Rightarrow> uint16" where
  "rate_of ds fs = (case loss_rate (ds @ ''.'' @ fs) of Inl _ \<Rightarrow> 0 | Inr r \<Rightarrow> r)"

lemma rate_of_accurate:
  "written_rate ds fs \<Longrightarrow> 65535 * decimal ds fs - 65 / 64 < of_nat (unat (rate_of ds fs))
    \<and> of_nat (unat (rate_of ds fs)) \<le> 65535 * decimal ds fs + 1 / 64"
  using written_rate_converted [of ds fs] by (auto simp: rate_of_def)

text \<open>The options that only \<open>tcp_ipv4\<close> has.\<close>

fun ipv4_only :: "cl_option \<Rightarrow> bool" where
  "ipv4_only (Source_Address _) \<longleftrightarrow> True"
| "ipv4_only (Source_Port _) \<longleftrightarrow> True"
| "ipv4_only (Device _) \<longleftrightarrow> True"
| "ipv4_only _ \<longleftrightarrow> False"

lemma with_value_reads:
  assumes "2 \<le> length rest"
  shows "with_value show_usage (pre @ [opt, v] @ rest) (length pre) err f
    = bind_run (f v) (\<lambda>opts. Inr (length pre + 2, opts))"
  using assms by (simp add: with_value_def check_argc_def argv_at_def nth_append)

lemma argv_at_here: "argv_at (pre @ arg # rest) (length pre) = Inr arg"
  by (simp add: argv_at_def)

lemma set_numbers:
  "n < 2 ^ 63 \<Longrightarrow> set_window (dec_string n) opts = common_effect rate_of (Window n) opts"
  "n < 2 ^ 16 \<Longrightarrow> set_timeout (dec_string n) opts = common_effect rate_of (Timeout n) opts"
proof -
  have "n < 2 ^ 63 \<Longrightarrow> strtol (dec_string n) = int n" for n by (simp add: strtol_dec_string)
  then show "n < 2 ^ 63 \<Longrightarrow> set_window (dec_string n) opts = common_effect rate_of (Window n) opts"
    "n < 2 ^ 16 \<Longrightarrow> set_timeout (dec_string n) opts = common_effect rate_of (Timeout n) opts"
    by (simp_all add: set_window_def set_timeout_def)
qed

lemma set_losses:
  "written_rate ds fs \<Longrightarrow> set_loss_up (ds @ CHR ''.'' # fs) opts = Inr (common_effect rate_of (Loss_Up ds fs) opts)"
  "written_rate ds fs \<Longrightarrow> set_loss_down (ds @ CHR ''.'' # fs) opts = Inr (common_effect rate_of (Loss_Down ds fs) opts)"
  using written_rate_converted [of ds fs] by (auto simp: set_loss_up_def set_loss_down_def throwing_def rate_of_def)

lemma is_option_simps [simp]:
  "is_option ''-l'' ''-l''" "is_option ''-a'' ''-a''" "is_option ''-s'' ''-s''" "is_option ''-w'' ''-w''"
  "is_option ''-t'' ''-t''" "is_option ''-d'' ''-d''" "is_option ''-Lu'' ''-Lu''" "is_option ''-Ld'' ''-Ld''"
  by (simp_all add: is_option_def strncmp_eq_def)

lemma is_option_distinct [simp]:
  "\<not> is_option [CHR ''-'', c] [CHR ''-'', d]" if "c \<noteq> d" for c d
  using that by (simp add: is_option_def strncmp_eq_def)

lemma is_option_loss [simp]:
  "c \<noteq> CHR ''L'' \<Longrightarrow> \<not> is_option [CHR ''-'', c] [CHR ''-'', CHR ''L'', d]" "\<not> is_option ''-Lu'' ''-Ld''"
  by (simp_all add: is_option_def strncmp_eq_def)

lemmas option_reads = bind_run_simps with_value_reads [where pre = pre and opt = opt for pre opt, simplified append_Cons append_Nil]
  argv_at_here set_numbers set_losses

lemma udp_option_reads:
  assumes "option_ok opt \<and> \<not> ipv4_only opt" and "2 \<le> length rest"
  shows "udp_option (pre @ show_option opt @ rest) (length pre) opts
    = Inr (length pre + length (show_option opt), common_effect rate_of opt opts)"
  using assms by (cases opt) (auto simp: udp_option_def option_reads)

lemma ipv4_option_reads:
  assumes "option_ok opt" and "2 \<le> length rest"
  shows "ipv4_option (pre @ show_option opt @ rest) (length pre) opts
    = Inr (length pre + length (show_option opt), ipv4_effect rate_of opt opts)"
  using assms by (cases opt) (auto simp: ipv4_option_def option_reads)

text \<open>A loop whose step reads each option reads them all, up to the two positional arguments.\<close>

locale option_reader = option_parser show_usage step loop
  for show_usage and step :: "string list \<Rightarrow> nat \<Rightarrow> 'o \<Rightarrow> (nat \<times> 'o) run" and loop +
  fixes ok :: "cl_option \<Rightarrow> bool" and effect :: "cl_option \<Rightarrow> 'o \<Rightarrow> 'o"
  assumes step_reads: "ok opt \<Longrightarrow> 2 \<le> length rest \<Longrightarrow>
      step (pre @ show_option opt @ rest) (length pre) opts
        = Inr (length pre + length (show_option opt), effect opt opts)"
begin

lemma loop_reads:
  "\<forall>opt \<in> set os. ok opt \<Longrightarrow> length rest = 2 \<Longrightarrow>
    loop (pre @ concat (map show_option os) @ rest) (length pre) opts
      = Inr (length pre + length (concat (map show_option os)), foldl (\<lambda>o' opt. effect opt o') opts os)"
proof (induction os arbitrary: pre opts)
  case Nil
  then show ?case by (simp add: loop_eq)
next
  case (Cons opt os)
  define argv where "argv = pre @ show_option opt @ concat (map show_option os) @ rest"
  have "0 < length (show_option opt)" by (cases opt) simp_all
  then have "length argv - length pre > 2" using Cons.prems by (simp add: argv_def)
  moreover have "step argv (length pre) opts = Inr (length pre + length (show_option opt), effect opt opts)"
    unfolding argv_def using Cons.prems by (intro step_reads) auto
  ultimately have "loop argv (length pre) opts = loop argv (length (pre @ show_option opt)) (effect opt opts)"
    by (simp add: loop_eq [of argv "length pre"])
  then show ?case using Cons.IH [of "pre @ show_option opt" "effect opt opts"] Cons.prems by (simp add: argv_def)
qed

end

interpretation udp_reader: option_reader udp_show_usage udp_option udp_options_loop
  "\<lambda>opt. option_ok opt \<and> \<not> ipv4_only opt" "common_effect rate_of"
  by unfold_locales (rule udp_option_reads)

interpretation ipv4_reader: option_reader ipv4_show_usage ipv4_option ipv4_options_loop option_ok
  "ipv4_effect rate_of"
  by unfold_locales (rule ipv4_option_reads)

text \<open>So does \<open>tcp_udp\<close>; there the positional arguments are counted from the end.\<close>

lemma udp_get_config_reads:
  assumes "\<forall>opt \<in> set os. option_ok opt \<and> \<not> ipv4_only opt" and "fc_default gai = Inr filt"
    and "final = foldl (\<lambda>opts opt. common_effect rate_of opt opts) \<lparr>op_fsm = cfg_default, op_filt = filt, op_listen = False\<rparr> os"
  shows "\<not> op_listen final \<Longrightarrow> addr_of_host gai host port = Inr dst \<Longrightarrow>
      udp_get_config gai (prog # concat (map show_option os) @ [host, port])
        = Inr (final\<lparr>op_filt := (op_filt final)\<lparr>fc_destination := dst\<rparr>\<rparr>)"
    and "op_listen final \<Longrightarrow> addr_of_host gai ''0'' port = Inr src \<Longrightarrow>
      udp_get_config gai (prog # concat (map show_option os) @ [host, port])
        = Inr (final\<lparr>op_filt := (op_filt final)\<lparr>fc_source := src\<rparr>\<rparr>)"
proof -
  let ?argv = "prog # concat (map show_option os) @ [host, port]"
  have "udp_options_loop ?argv 1 \<lparr>op_fsm = cfg_default, op_filt = filt, op_listen = False\<rparr> = Inr (length ?argv - 2, final)"
    using udp_reader.loop_reads [OF assms(1), of "[host, port]" "[prog]"] by (simp add: assms(3))
  moreover have "argv_at ?argv (length ?argv - 2) = Inr host" "argv_at ?argv (length ?argv - 1) = Inr port"
    by (simp_all add: argv_at_def nth_append)
  ultimately show "\<not> op_listen final \<Longrightarrow> addr_of_host gai host port = Inr dst \<Longrightarrow> udp_get_config gai ?argv
        = Inr (final\<lparr>op_filt := (op_filt final)\<lparr>fc_destination := dst\<rparr>\<rparr>)"
    "op_listen final \<Longrightarrow> addr_of_host gai ''0'' port = Inr src \<Longrightarrow> udp_get_config gai ?argv
        = Inr (final\<lparr>op_filt := (op_filt final)\<lparr>fc_source := src\<rparr>\<rparr>)"
    by (simp_all add: udp_get_config_def assms(2) throwing_def del: append_Cons)
qed

lemma effects_listen:
  "op_listen (foldl (\<lambda>opts opt. ipv4_effect rate opt opts) opts os) \<longleftrightarrow> op_listen opts \<or> Listen \<in> set os"
proof (induction os arbitrary: opts)
  case (Cons opt os)
  have "op_listen (ipv4_effect rate opt opts) \<longleftrightarrow> op_listen opts \<or> opt = Listen" by (cases opt) simp_all
  then show ?case using Cons by auto
qed simp

section \<open>How get_config fails\<close>

text \<open>The errors of the resolver, which are never undefined behaviour.\<close>

definition resolver_error :: "getaddrinfo \<Rightarrow> getnameinfo \<Rightarrow> cpp_error \<Rightarrow> bool" where
  "resolver_error gai gni e \<longleftrightarrow> (\<exists>node service hints. addr_resolve gai node service hints = Inl e)
     \<or> (\<exists>a. addr_port gni a = Inl e)"

lemma resolver_error_defined: "\<not> resolver_error gai gni (Undefined_Behaviour m)"
  by (auto simp: resolver_error_def addr_resolve_def addr_of_sockaddr_def addr_port_def addr_ip_port_def bind_res_eq_Inl
      stoi_def Let_def split: sum.splits list.splits if_splits)

lemma resolver_errorI:
  "addr_of_host gai host service = Inl e \<Longrightarrow> resolver_error gai gni e"
  "addr_of_ip gai host port = Inl e \<Longrightarrow> resolver_error gai gni e"
  "fc_default gai = Inl e \<Longrightarrow> resolver_error gai gni e"
  by (auto simp: resolver_error_def addr_of_host_def addr_of_ip_def fc_default_def bind_res_eq_Inl)

definition config_stop :: "getaddrinfo \<Rightarrow> getnameinfo \<Rightarrow> usage \<Rightarrow> string list \<Rightarrow> stop \<Rightarrow> bool" where
  "config_stop gai gni show_usage argv e \<longleftrightarrow>
     option_stop show_usage argv e \<or> (\<exists>x. e = Throws x \<and> resolver_error gai gni x)"

lemma throwing_stop: "throwing r = Inl e \<longleftrightarrow> (\<exists>x. e = Throws x \<and> r = Inl x)"
  by (cases r) (auto simp: throwing_def)

lemma config_stop_resolver:
  "throwing (addr_of_host gai host service) = Inl e \<Longrightarrow> config_stop gai gni show_usage argv e"
  "throwing (fc_default gai) = Inl e \<Longrightarrow> config_stop gai gni show_usage argv e"
  "throwing (addr_port gni a) = Inl e \<Longrightarrow> config_stop gai gni show_usage argv e"
  by (auto simp: throwing_stop config_stop_def intro: resolver_errorI) (auto simp: resolver_error_def)

lemma bind_run_InlE:
  assumes "bind_run m f = Inl e"
  obtains "m = Inl e" | x where "m = Inr x" and "f x = Inl e"
  using assms by (auto simp: bind_run_eq_Inl)

lemma udp_get_config_stop:
  assumes "3 \<le> length argv" and "udp_get_config gai argv = Inl e"
  shows "config_stop gai gni udp_show_usage argv e"
proof -
  have at: "argv_at argv (length argv - 1) = Inr (argv ! (length argv - 1))"
    "argv_at argv (length argv - 2) = Inr (argv ! (length argv - 2))"
    using assms(1) by (intro argv_at_nth; linarith)+
  have loop: "config_stop gai gni udp_show_usage argv e" if "udp_options_loop argv 1 opts = Inl e" for opts e
    using udp_parser.loop_result [of 1 argv opts] assms(1) that by (simp add: config_stop_def)
  from assms(2) show ?thesis unfolding udp_get_config_def
    by (auto simp only: at bind_run_simps split_paired_all prod.case sum.simps elim!: bind_run_InlE config_stop_resolver loop
        split: if_splits)
qed

lemma ipv4_get_config_stop:
  assumes "3 \<le> length argv" and "ipv4_get_config random gai gni argv = Inl e"
  shows "config_stop gai gni ipv4_show_usage argv e"
proof -
  have at0: "argv_at argv 0 = Inr (argv ! 0)" using assms(1) by (intro argv_at_nth) linarith
  have loop: "config_stop gai gni ipv4_show_usage argv e" if "ipv4_options_loop argv 1 opts = Inl e" for opts e
    using ipv4_parser.loop_result [of 1 argv opts] assms(1) that by (simp add: config_stop_def)
  have at: "argv_at argv final = Inr (argv ! final)" "argv_at argv (final + 1) = Inr (argv ! (final + 1))"
    if "ipv4_options_loop argv 1 opts = Inr (final, opts')" for opts opts' final
    using ipv4_parser.loop_result [of 1 argv opts] assms(1) that by (auto intro!: argv_at_nth)
  have usage: "config_stop gai gni ipv4_show_usage argv (Exits 1 (ipv4_show_usage (argv ! 0) (Some m)))" for m
    by (auto simp: config_stop_def option_stop_def)
  from assms(2) show ?thesis unfolding ipv4_get_config_def
    by (auto simp only: at0 at usage bind_run_simps split_paired_all prod.case sum.simps
        elim!: bind_run_InlE config_stop_resolver loop split: if_splits)
qed

section \<open>Properties\<close>

text \<open>
  (C40) A loss rate between 0 and 1, written as digits, a point and digits, is converted without undefined
  behaviour, and the field is within 65/64 of the rate times 65535, in spite of the two roundings and the
  cut. A rate of 2 or more is undefined behaviour: nothing checks the argument.
\<close>

theorem loss_rate_accurate:
  assumes "list_all is_digit ds" and "list_all is_digit fs" and "ds \<noteq> []"
  shows "(decimal ds fs \<le> 1 \<longrightarrow> (\<exists>r. loss_rate (ds @ ''.'' @ fs) = Inr r
        \<and> 65535 * decimal ds fs - 65 / 64 < of_nat (unat r) \<and> of_nat (unat r) \<le> 65535 * decimal ds fs + 1 / 64))
    \<and> (2 \<le> decimal ds fs \<longrightarrow> loss_rate (ds @ ''.'' @ fs) = Inl (Undefined_Behaviour ''float to uint16_t''))"
proof -
  have "0 \<le> decimal ds fs" by (simp add: decimal_def)
  then show ?thesis unfolding loss_rate_def strtof_decimal [OF assms] Let_def
    using scaled_rate_defined scaled_rate_undefined by blast
qed

theorem loss_rate_accurate_witness:
  "(\<exists>r. loss_rate (''0'' @ ''.'' @ ''25'') = Inr r \<and> (16382 :: rat) < of_nat (unat r) \<and> of_nat (unat r) \<le> (16384 :: rat))
    \<and> loss_rate (''2'' @ ''.'' @ ''0'') = Inl (Undefined_Behaviour ''float to uint16_t'')"
proof -
  have d: "list_all is_digit ''0''" "list_all is_digit ''25''" "list_all is_digit ''2''" by (simp_all add: is_digit_def)
  have v: "decimal ''0'' ''25'' = 1 / 4" "decimal ''2'' ''0'' = 2" by (simp_all add: decimal_def dec_value_def)
  obtain r where "loss_rate (''0'' @ ''.'' @ ''25'') = Inr r" "65535 / 4 - 65 / 64 < (of_nat (unat r) :: rat)"
      "of_nat (unat r) \<le> (65535 / 4 + 1 / 64 :: rat)"
    using loss_rate_accurate [OF d(1,2)] by (auto simp: v)
  moreover from this(2,3) have "(16382 :: rat) < of_nat (unat r)" "of_nat (unat r) \<le> (16384 :: rat)" by linarith+
  ultimately show ?thesis using loss_rate_accurate [OF d(3,1)] by (auto simp: v)
qed

text \<open>
  (C39) What \<open>get_config\<close> of \<open>tcp_ipv4\<close> makes of its options: with any sequence of options, windows and time-outs
  in decimal and in range, loss rates with a decimal point and at most 1, it returns the default
  configuration changed by each option in turn. A loss rate sets the field to within 65/64 of the rate
  times 65535. Without \<open>-l\<close> the two last arguments are the destination, and the source is the one chosen;
  with \<open>-l\<close> the last argument is the port to listen on and the source is the resolved address of \<open>0\<close>: the host
  is ignored, although the usage message says that it is bound. The default window is \<open>DEFAULT_CAPACITY\<close>,
  not the number in the usage message.
\<close>

theorem ipv4_get_config_reads:
  assumes "\<forall>opt \<in> set os. option_ok opt" and "fc_default gai = Inr filt"
  shows "\<exists>rate final. (\<forall>ds fs. written_rate ds fs \<longrightarrow> 65535 * decimal ds fs - 65 / 64 < of_nat (unat (rate ds fs))
        \<and> of_nat (unat (rate ds fs)) \<le> 65535 * decimal ds fs + 1 / 64)
    \<and> final = foldl (\<lambda>opts opt. ipv4_effect rate opt opts)
        \<lparr>op_fsm = \<lparr>cfg_rt_timeout = 1000, cfg_recv_capacity = 64000, cfg_send_capacity = 64000, cfg_fixed_isn = None\<rparr>,
         op_filt = filt, op_listen = False, op_tundev = None, op_source_address = ''169.254.144.9'',
         op_source_port = dec_string (unat (ucast random :: uint16))\<rparr> os
    \<and> (\<forall>dst src. Listen \<notin> set os \<and> addr_of_host gai host port = Inr dst
        \<and> addr_of_host gai (op_source_address final) (op_source_port final) = Inr src \<longrightarrow>
      ipv4_get_config random gai gni (prog # concat (map show_option os) @ [host, port])
        = Inr (final\<lparr>op_filt := (op_filt final)\<lparr>fc_destination := dst, fc_source := src\<rparr>\<rparr>))
    \<and> (\<forall>src p. Listen \<in> set os \<and> addr_of_host gai ''0'' port = Inr src \<and> addr_port gni src = Inr p \<and> p \<noteq> 0 \<longrightarrow>
      ipv4_get_config random gai gni (prog # concat (map show_option os) @ [host, port])
        = Inr (final\<lparr>op_filt := (op_filt final)\<lparr>fc_source := src\<rparr>\<rparr>))"
proof -
  let ?argv = "prog # concat (map show_option os) @ [host, port]"
  let ?start = "\<lparr>op_fsm = \<lparr>cfg_rt_timeout = 1000, cfg_recv_capacity = 64000, cfg_send_capacity = 64000, cfg_fixed_isn = None\<rparr>,
      op_filt = filt, op_listen = False, op_tundev = None, op_source_address = ''169.254.144.9'',
      op_source_port = dec_string (unat (ucast random :: uint16))\<rparr>"
  define final where "final = foldl (\<lambda>opts opt. ipv4_effect rate_of opt opts) ?start os"
  have "op_listen final \<longleftrightarrow> Listen \<in> set os" unfolding final_def effects_listen by simp
  moreover have "ipv4_options_loop ?argv 1 ?start = Inr (length ?argv - 2, final)"
    using ipv4_reader.loop_reads [OF assms(1), of "[host, port]" "[prog]"] by (simp add: final_def)
  moreover have "argv_at ?argv (length ?argv - 2) = Inr host" "argv_at ?argv (length ?argv - 2 + 1) = Inr port"
    by (simp_all add: argv_at_def nth_append)
  ultimately show ?thesis using rate_of_accurate final_def
    by (intro exI [of _ rate_of] exI [of _ final] conjI) (simp_all add: ipv4_get_config_def assms(2) throwing_def
        LOCAL_ADDRESS_DFLT_def cfg_default_def DEFAULT_CAPACITY_def TIMEOUT_DFLT_def del: append_Cons)
qed

theorem ipv4_get_config_reads_witness:
  "(\<exists>r. ipv4_get_config 5 sample_gai sample_gni ([''prog''] @ [''-w'', ''500'', ''-Lu'', ''0.25'', ''-s'', ''80''] @ [''7'', ''9''])
     = Inr \<lparr>op_fsm = cfg_default\<lparr>cfg_recv_capacity := 500\<rparr>,
         op_filt = \<lparr>fc_source = addr_in 80 (of_nat (dec_value ''169.254.144.9'')), fc_destination = addr_in 9 7,
           fc_loss_rate_dn = 0, fc_loss_rate_up = r\<rparr>,
         op_listen = False, op_tundev = None, op_source_address = ''169.254.144.9'', op_source_port = ''80''\<rparr>
     \<and> (16382 :: rat) < of_nat (unat r) \<and> of_nat (unat r) \<le> (16384 :: rat))
   \<and> ipv4_get_config 5 sample_gai sample_gni ([''prog''] @ [''-l''] @ [''7'', ''9''])
     = Inr \<lparr>op_fsm = cfg_default,
         op_filt = \<lparr>fc_source = addr_in 9 0, fc_destination = addr_in 0 0, fc_loss_rate_dn = 0, fc_loss_rate_up = 0\<rparr>,
         op_listen = True, op_tundev = None, op_source_address = ''169.254.144.9'', op_source_port = ''5''\<rparr>"
proof -
  let ?me = "of_nat (dec_value ''169.254.144.9'')"
  let ?start = "\<lambda>random :: uint32. \<lparr>op_fsm = \<lparr>cfg_rt_timeout = 1000, cfg_recv_capacity = 64000, cfg_send_capacity = 64000, cfg_fixed_isn = None\<rparr>,
      op_filt = \<lparr>fc_source = addr_in 0 0, fc_destination = addr_in 0 0, fc_loss_rate_dn = 0, fc_loss_rate_up = 0\<rparr>,
      op_listen = False, op_tundev = None, op_source_address = ''169.254.144.9'',
      op_source_port = dec_string (unat (ucast random :: uint16))\<rparr>"
  have n: "dec_string 500 = ''500''" "dec_string 5 = ''5''" "dec_string 0 = ''0''" "dec_value ''80'' = 80" "dec_value ''7'' = 7"
      "dec_value ''9'' = 9" "dec_value ''0'' = 0"
    by code_simp+
  have d: "fc_default sample_gai
      = Inr \<lparr>fc_source = addr_in 0 0, fc_destination = addr_in 0 0, fc_loss_rate_dn = 0, fc_loss_rate_up = 0\<rparr>"
    by (simp add: fc_default_def addr_of_ip_def addr_resolve_def sample_gai_def n)
  have a: "addr_of_host sample_gai h s = Inr (addr_in (of_nat (dec_value s)) (of_nat (dec_value h)))" for h s
    by (simp add: addr_of_host_def addr_resolve_def sample_gai_def)
  have p: "addr_port sample_gni (addr_in 9 0) = Inr 9" using resolver_address(3) [OF sample_resolver] .
  have v: "decimal ''0'' ''25'' = 1 / 4" by (simp add: decimal_def dec_value_def)
  have w: "written_rate ''0'' ''25''" by (simp add: written_rate_def is_digit_def v)
  have c: "\<forall>opt \<in> set [Window 500, Loss_Up ''0'' ''25'', Source_Port ''80'']. option_ok opt" using w by simp
  obtain rate final where near: "\<forall>ds fs. written_rate ds fs \<longrightarrow> 65535 * decimal ds fs - 65 / 64 < of_nat (unat (rate ds fs))
        \<and> of_nat (unat (rate ds fs)) \<le> 65535 * decimal ds fs + 1 / 64"
      and final: "final = foldl (\<lambda>opts opt. ipv4_effect rate opt opts) (?start 5) [Window 500, Loss_Up ''0'' ''25'', Source_Port ''80'']"
      and client: "addr_of_host sample_gai ''7'' ''9'' = Inr (addr_in 9 7) \<longrightarrow>
        addr_of_host sample_gai (op_source_address final) (op_source_port final) = Inr (addr_in 80 ?me) \<longrightarrow>
        ipv4_get_config 5 sample_gai sample_gni
          (''prog'' # concat (map show_option [Window 500, Loss_Up ''0'' ''25'', Source_Port ''80'']) @ [''7'', ''9''])
        = Inr (final\<lparr>op_filt := (op_filt final)\<lparr>fc_destination := addr_in 9 7, fc_source := addr_in 80 ?me\<rparr>\<rparr>)"
    using ipv4_get_config_reads [OF c d, of 5 "''7''" "''9''" sample_gni "''prog''"] by force
  have "65535 / 4 - 65 / 64 < (of_nat (unat (rate ''0'' ''25'')) :: rat)"
      "of_nat (unat (rate ''0'' ''25'')) \<le> (65535 / 4 + 1 / 64 :: rat)"
    using near [rule_format, OF w] unfolding v by simp_all
  then have "(16382 :: rat) < of_nat (unat (rate ''0'' ''25''))" "of_nat (unat (rate ''0'' ''25'')) \<le> (16384 :: rat)" by linarith+
  moreover have "ipv4_get_config 5 sample_gai sample_gni ([''prog''] @ [''-w'', ''500'', ''-Lu'', ''0.25'', ''-s'', ''80''] @ [''7'', ''9''])
       = Inr \<lparr>op_fsm = cfg_default\<lparr>cfg_recv_capacity := 500\<rparr>,
           op_filt = \<lparr>fc_source = addr_in 80 ?me, fc_destination = addr_in 9 7,
             fc_loss_rate_dn = 0, fc_loss_rate_up = rate ''0'' ''25''\<rparr>,
           op_listen = False, op_tundev = None, op_source_address = ''169.254.144.9'', op_source_port = ''80''\<rparr>"
    using client by (simp add: final a n cfg_default_def DEFAULT_CAPACITY_def TIMEOUT_DFLT_def)
  moreover have l: "\<forall>opt \<in> set [Listen]. option_ok opt" by simp
  then have "ipv4_get_config 5 sample_gai sample_gni ([''prog''] @ [''-l''] @ [''7'', ''9''])
     = Inr \<lparr>op_fsm = cfg_default,
         op_filt = \<lparr>fc_source = addr_in 9 0, fc_destination = addr_in 0 0, fc_loss_rate_dn = 0, fc_loss_rate_up = 0\<rparr>,
         op_listen = True, op_tundev = None, op_source_address = ''169.254.144.9'', op_source_port = ''5''\<rparr>"
    using ipv4_get_config_reads [OF l d, of 5 "''7''" "''9''" sample_gni "''prog''"]
    by (auto simp: a n p cfg_default_def DEFAULT_CAPACITY_def TIMEOUT_DFLT_def)
  ultimately show ?thesis by blast
qed

text \<open>
  (C38) With at least two arguments, \<open>get_config\<close> of both programs never reads outside \<open>argv\<close>. It ends, and when
  it does not return a configuration, it has printed the usage message and exited with status 0 or 1, or it
  has thrown an error of the resolver, or it has converted a loss rate that is out of range.
\<close>

theorem get_config_exceptions:
  assumes "3 \<le> length argv"
  shows "(\<forall>e. udp_get_config gai argv = Inl e \<longrightarrow> config_stop gai gni udp_show_usage argv e)
    \<and> (\<forall>e. ipv4_get_config random gai gni argv = Inl e \<longrightarrow> config_stop gai gni ipv4_show_usage argv e)
    \<and> \<not> config_stop gai gni udp_show_usage argv (Throws (Undefined_Behaviour ''argv''))
    \<and> \<not> config_stop gai gni ipv4_show_usage argv (Throws (Undefined_Behaviour ''argv''))"
  using udp_get_config_stop [OF assms] ipv4_get_config_stop [OF assms] resolver_error_defined
  by (auto simp: config_stop_def option_stop_def)

theorem get_config_exceptions_witness:
  "udp_get_config sample_gai [''prog'', ''-w'', ''7'', ''9''] \<noteq> Inl (Throws (Undefined_Behaviour ''argv''))
    \<and> udp_get_config sample_gai [''prog'', ''-w'', ''7'', ''9'']
      = Inl (Exits 1 (udp_show_usage ''prog'' (Some ''ERROR: -w requires one argument.'')))"
proof
  show "udp_get_config sample_gai [''prog'', ''-w'', ''7'', ''9''] \<noteq> Inl (Throws (Undefined_Behaviour ''argv''))"
    using get_config_exceptions [of "[''prog'', ''-w'', ''7'', ''9'']" sample_gai sample_gni] by auto
  have "fc_default sample_gai
      = Inr \<lparr>fc_source = addr_in 0 0, fc_destination = addr_in 0 0, fc_loss_rate_dn = 0, fc_loss_rate_up = 0\<rparr>"
    by code_simp
  then show "udp_get_config sample_gai [''prog'', ''-w'', ''7'', ''9'']
      = Inl (Exits 1 (udp_show_usage ''prog'' (Some ''ERROR: -w requires one argument.'')))"
    by (simp add: udp_get_config_def throwing_def udp_options_loop.simps udp_option_def with_value_def check_argc_def argv_at_def)
qed

end
