(* ===== verification/Tools.thy ===== *)
theory Tools
  imports Command_Line Packet_Dump Benchmark
begin

text \<open>
  The remaining programs: \<open>main\<close> of \<open>apps/udp_tcpdump.cc\<close>, \<open>apps/tun.cc\<close> and \<open>apps/tcp_benchmark.cc\<close>, around what
  \<open>Packet_Dump\<close> and \<open>Benchmark\<close> model. The capture library is a parameter: a record with a function for each
  of its calls. What is written to the error stream is left out.
\<close>

section \<open>udp_tcpdump\<close>

definition dump_show_usage :: usage where
  "dump_show_usage arg0 errmsg =
     ''Usage: '' @ arg0 @ '' [-i <intf>] [-F <file>] [-h|--help] <expression>'' @ new_line @ new_line
     @ ''  -i <intf>    only capture packets from <intf> (default: all)'' @ new_line @ new_line
     @ ''  -F <file>    reads in a filter expression from <file>'' @ new_line
     @ ''               <expression> is ignored if -F is supplied.'' @ new_line @ new_line
     @ ''  -h, --help   show this message'' @ new_line @ new_line
     @ ''  <expression> a filter expression in pcap-filter(7) syntax'' @ new_line
     @ (case errmsg of None \<Rightarrow> [] | Some msg \<Rightarrow> new_line @ msg) @ new_line"

definition check_arg :: "string list \<Rightarrow> nat \<Rightarrow> string \<Rightarrow> unit run" where
  "check_arg argv cur errmsg =
     (if cur + 1 \<ge> length argv
      then bind_run (argv_at argv 0) (\<lambda>arg0. Inl (Exits 1 (dump_show_usage arg0 (Some errmsg)))) else Inr ())"

text \<open>The index of the first argument that is not an option, and the interface.\<close>

function parse_arguments_loop :: "string list \<Rightarrow> nat \<Rightarrow> string option \<Rightarrow> (nat \<times> string option) run" where
  "parse_arguments_loop argv cur dev =
     (if cur < length argv
      then if is_option ''-i'' (argv ! cur)
           then case bind_run (check_arg argv cur ''ERROR: -i requires an argument'') (\<lambda>_. argv_at argv (cur + 1)) of
                  Inl e \<Rightarrow> Inl e
                | Inr v \<Rightarrow> parse_arguments_loop argv (cur + 2) (Some v)
           else if is_option ''-h'' (argv ! cur) \<or> strncmp_eq 7 ''--help'' (argv ! cur)
           then bind_run (argv_at argv 0) (\<lambda>arg0. Inl (Exits 0 (dump_show_usage arg0 None)))
           else Inr (cur, dev)
      else Inr (cur, dev))"
  by pat_completeness auto
termination
  by (relation "measure (\<lambda>(argv, cur, dev). length argv - cur)") auto

declare parse_arguments_loop.simps [simp del]

definition parse_arguments :: "string list \<Rightarrow> (nat \<times> string option) run" where
  "parse_arguments argv = parse_arguments_loop argv 1 None"

text \<open>\<open>pc_open_live\<close> returns the text of an error or a handle; \<open>pc_next_ex\<close> also returns the captured bytes.\<close>

record 'p pcap =
  pc_open_live :: "string option \<Rightarrow> string + 'p"
  pc_datalink :: "'p \<Rightarrow> datalink"
  pc_description :: "'p \<Rightarrow> string"
  pc_compile :: "string \<Rightarrow> 'p \<Rightarrow> int \<times> 'p"
  pc_setfilter :: "'p \<Rightarrow> int \<times> 'p"
  pc_geterr :: "'p \<Rightarrow> string"
  pc_next_ex :: "'p \<Rightarrow> (int \<times> bytes) \<times> 'p"

text \<open>Opening the capture: the link type, the handle and what was printed.\<close>

definition dump_open :: "'p pcap \<Rightarrow> string option \<Rightarrow> (datalink \<times> 'p \<times> string) run" where
  "dump_open pc dev =
     (let cout = (case dev of Some d \<Rightarrow> ''Capturing on interface '' @ d | None \<Rightarrow> ''Capturing on all interfaces'')
      in case pc_open_live pc dev of
           Inl errbuf \<Rightarrow> Inl (Exits 1 (cout @ new_line @ ''Error initiating capture: '' @ errbuf @ new_line))
         | Inr p \<Rightarrow> (let dlt = pc_datalink pc p
             in if dlt \<noteq> DLT_RAW \<and> dlt \<noteq> DLT_NULL \<and> dlt \<noteq> DLT_EN10MB \<and> dlt \<noteq> DLT_LINUX_SLL \<and> dlt \<noteq> DLT_LINUX_SLL2
                then Inl (Exits 1 (cout @ new_line @ ''Error: unsupported datalink type '' @ pc_description pc p @ new_line))
                else Inr (dlt, p, cout @ '' (type: '' @ pc_description pc p @ '')'' @ new_line)))"

definition filter_expression :: "string list \<Rightarrow> nat \<Rightarrow> string" where
  "filter_expression argv exp_start = concat (map (\<lambda>arg. arg @ '' '') (drop exp_start argv))"

definition dump_filter :: "'p pcap \<Rightarrow> string \<Rightarrow> 'p \<Rightarrow> string \<Rightarrow> ('p \<times> string) run" where
  "dump_filter pc expression p cout =
     (let cout = cout @ ''Using filter expression: '' @ expression @ new_line
      in case pc_compile pc expression p of (ret, p) \<Rightarrow>
           if ret \<noteq> 0
           then Inl (Exits EXIT_FAILURE (cout @ ''Error compiling filter expression: '' @ pc_geterr pc p @ new_line))
           else case pc_setfilter pc p of (ret, p) \<Rightarrow>
             if ret \<noteq> 0
             then Inl (Exits EXIT_FAILURE (cout @ ''Error configuring packet filter: '' @ pc_geterr pc p @ new_line))
             else Inr (p, cout))"

text \<open>The loop: the last value of \<open>pcap_next_ex\<close>, or nothing when the link type is unknown, and what was printed.
  There is no handler for exceptions.\<close>

partial_function (option) dump_loop :: "'p pcap \<Rightarrow> (bytes \<Rightarrow> string option) \<Rightarrow> datalink \<Rightarrow> 'p \<Rightarrow> string
    \<Rightarrow> (int option \<times> string) result option" where
  "dump_loop pc inet_ntop dl_type p cout =
     (case pc_next_ex pc p of ((next_ret, pkt_data), p) \<Rightarrow>
        if next_ret < 0 then Some (Inr (Some next_ret, cout))
        else if next_ret = 0 then dump_loop pc inet_ntop dl_type p cout
        else case dump_frame inet_ntop dl_type pkt_data of
               Inl e \<Rightarrow> Some (Inl e)
             | Inr r \<Rightarrow> (case r of
                   Skipped \<Rightarrow> dump_loop pc inet_ntop dl_type p cout
                 | Gave_Up \<Rightarrow> Some (Inr (None, cout))
                 | Shown text \<Rightarrow> dump_loop pc inet_ntop dl_type p (cout @ text)))"

text \<open>The handle is closed before the error that belongs to it is read.\<close>

definition dump_end :: "int option \<times> string \<Rightarrow> (int \<times> string) result" where
  "dump_end r =
     (case r of
        (None, cout) \<Rightarrow> Inr (EXIT_FAILURE, cout)
      | (Some next_ret, cout) \<Rightarrow>
          if next_ret = -1 then Inl (Undefined_Behaviour ''pcap_geterr after pcap_close'') else Inr (EXIT_SUCCESS, cout))"

definition dump_main :: "'p pcap \<Rightarrow> (bytes \<Rightarrow> string option) \<Rightarrow> string list \<Rightarrow> (int \<times> string) result option" where
  "dump_main pc inet_ntop argv =
     (case bind_run (parse_arguments argv) (\<lambda>(exp_start, dev).
           bind_run (dump_open pc dev) (\<lambda>(dl_type, p, cout).
           bind_run (dump_filter pc (filter_expression argv exp_start) p cout) (\<lambda>(p, cout).
           Inr (dl_type, p, cout)))) of
        Inl (Throws e) \<Rightarrow> Some (Inl e)
      | Inl (Exits status text) \<Rightarrow> Some (Inr (status, text))
      | Inr (dl_type, p, cout) \<Rightarrow>
          map_option (\<lambda>r. bind_res r dump_end) (dump_loop pc inet_ntop dl_type p cout))"

section \<open>tun\<close>

text \<open>The loop ends only with an exception: the result is the exception and what was printed before it.\<close>

partial_function (option) tun_loop :: "'k kernel \<Rightarrow> file_descriptor \<Rightarrow> 'k \<Rightarrow> string \<Rightarrow> (cpp_error \<times> string) option" where
  "tun_loop k tun w cout =
     (case fd_read k (- 1) tun w of
        Inl e \<Rightarrow> Some (e, cout)
      | Inr (data, tun, w) \<Rightarrow>
          (case show_tun_packet data of
             Inl e \<Rightarrow> Some (e, cout)
           | Inr text \<Rightarrow> tun_loop k tun w (cout @ text)))"

definition tun_main :: "'k kernel \<Rightarrow> 'k \<Rightarrow> (cpp_error \<times> string) option" where
  "tun_main k w =
     (case tun_fd_new k (text_bytes ''tun144'') w of
        Inl e \<Rightarrow> Some (e, [])
      | Inr (tun, w) \<Rightarrow> tun_loop k tun w [])"

section \<open>tcp_benchmark\<close>

text \<open>Both runs with their random numbers and strings.\<close>

definition benchmark_main :: "uint32 \<times> uint32 \<times> bytes \<Rightarrow> uint32 \<times> uint32 \<times> bytes \<Rightarrow> int option" where
  "benchmark_main a b =
     (case (a, b) of ((rx, ry, str), (rx', ry', str')) \<Rightarrow>
        case main_loop rx ry str False of
          None \<Rightarrow> None
        | Some (Inl e) \<Rightarrow> Some EXIT_FAILURE
        | Some (Inr _) \<Rightarrow> map_option (\<lambda>r. case r of Inl e \<Rightarrow> EXIT_FAILURE | Inr _ \<Rightarrow> EXIT_SUCCESS)
            (main_loop rx' ry' str' True))"

section \<open>What the programs print\<close>

text \<open>A capture that delivers some frames, with any number of time-outs between them, and then a negative value.\<close>

inductive delivers :: "'p pcap \<Rightarrow> 'p \<Rightarrow> bytes list \<Rightarrow> int \<Rightarrow> bool" for pc where
  ended: "pc_next_ex pc p = ((ret, d), p') \<Longrightarrow> ret < 0 \<Longrightarrow> delivers pc p [] ret"
| timed_out: "pc_next_ex pc p = ((0, d), p') \<Longrightarrow> delivers pc p' frames ret \<Longrightarrow> delivers pc p frames ret"
| frame: "pc_next_ex pc p = ((n, d), p') \<Longrightarrow> 0 < n \<Longrightarrow> delivers pc p' frames ret \<Longrightarrow> delivers pc p (d # frames) ret"

text \<open>What one frame adds to the output.\<close>

definition frame_text :: "(bytes \<Rightarrow> string option) \<Rightarrow> datalink \<Rightarrow> bytes \<Rightarrow> string" where
  "frame_text inet_ntop dl d = (case dump_frame inet_ntop dl d of Inr (Shown text) \<Rightarrow> text | _ \<Rightarrow> [])"

lemma dump_frame_known: "dl \<noteq> DLT_OTHER \<Longrightarrow> dump_frame inet_ntop dl d \<noteq> Inr Gave_Up"
proof -
  assume "dl \<noteq> DLT_OTHER"
  then have "link_offset dl d \<noteq> Inr Mysterious"
    by (cases dl) (auto simp: ethertype_at_def bind_res_eq_Inr Let_def split: if_splits)
  then show ?thesis by (auto simp: dump_frame_def bind_res_eq_Inr split: link_verdict.splits option.splits)
qed

lemma dump_loop_prints:
  assumes "delivers pc p frames ret" and "dl \<noteq> DLT_OTHER" and "\<forall>d \<in> set frames. \<exists>r. dump_frame inet_ntop dl d = Inr r"
  shows "dump_loop pc inet_ntop dl p cout = Some (Inr (Some ret, cout @ concat (map (frame_text inet_ntop dl) frames)))"
  using assms(1,3)
proof (induction arbitrary: cout rule: delivers.induct)
  case (frame p n d p' frames ret)
  obtain r where r: "dump_frame inet_ntop dl d = Inr r" "r \<noteq> Gave_Up"
    using frame.prems dump_frame_known [OF assms(2), of inet_ntop d] by force
  then show ?case using frame by (subst dump_loop.simps) (cases r; simp add: frame_text_def [of _ _ d])
qed (subst dump_loop.simps; simp)+

text \<open>
  The filter prints every frame that it does not skip, in order, and exits when the capture ends; after a
  failure of the capture it uses the handle that it has just closed.
\<close>

lemma tcpdump_prints:
  assumes "parse_arguments argv = Inr (exp_start, dev)" and "dump_open pc dev = Inr (dl, p, cout)"
    and "dump_filter pc (filter_expression argv exp_start) p cout = Inr (p', cout')"
    and "delivers pc p' frames ret" and "\<forall>d \<in> set frames. \<exists>r. dump_frame inet_ntop dl d = Inr r"
  shows "dump_main pc inet_ntop argv
    = Some (if ret = -1 then Inl (Undefined_Behaviour ''pcap_geterr after pcap_close'')
        else Inr (EXIT_SUCCESS, cout' @ concat (map (frame_text inet_ntop dl) frames)))"
proof -
  have "dl \<noteq> DLT_OTHER" using assms(2) by (auto simp: dump_open_def Let_def split: sum.splits if_splits)
  then show ?thesis using assms dump_loop_prints [OF assms(4) _ assms(5)]
    by (simp add: dump_main_def dump_end_def)
qed

text \<open>\<open>-F\<close> is documented as an option; it is taken as the first word of the filter expression.\<close>

lemma dump_file_option_ignored:
  "parse_arguments (arg0 # ''-F'' # rest) = Inr (1, None)"
  "filter_expression (arg0 # ''-F'' # rest) 1 = ''-F '' @ filter_expression (arg0 # ''-F'' # rest) 2"
  by (simp_all add: parse_arguments_def parse_arguments_loop.simps is_option_def strncmp_eq_def filter_expression_def)

text \<open>The reads of the arguments stay inside \<open>argv\<close>.\<close>

lemma parse_arguments_in_bounds:
  assumes "argv \<noteq> []"
  shows "case parse_arguments argv of Inl e \<Rightarrow> option_stop dump_show_usage argv e | Inr (exp_start, _) \<Rightarrow> exp_start \<le> max 1 (length argv)"
proof -
  have "case parse_arguments_loop argv cur dev of Inl e \<Rightarrow> option_stop dump_show_usage argv e
      | Inr (exp_start, _) \<Rightarrow> exp_start \<le> max cur (length argv)" for cur dev
    using assms
  proof (induction argv cur dev rule: parse_arguments_loop.induct)
    case (1 argv cur dev)
    show ?case
    proof (cases "cur < length argv \<and> is_option ''-i'' (argv ! cur) \<and> cur + 1 < length argv")
      case True
      then show ?thesis using 1 by (simp add: parse_arguments_loop.simps [of argv cur] check_arg_def split: sum.splits) fastforce
    next
      case False
      then show ?thesis using 1(2)
        by (auto simp: parse_arguments_loop.simps [of argv cur] check_arg_def option_stop_def)
    qed
  qed
  from this [of 1 None] show ?thesis by (simp only: parse_arguments_def)
qed

end
