(* ===== verification/Spec2Isabelle.thy ===== *)
theory Spec2Isabelle
  imports Prelude Wrapping_Integers Byte_Stream Stream_Reassembler Buffer Parser Internet_Checksum
    TCP_Segment Segment_Stream TCP_Receiver TCP_Sending_Window TCP_Config TCP_Sender TCP_State TCP_Connection
    TCP_Handshake TCP_Network IPv4 Text_Format Address Adapters
    File_Descriptor Event_Loop Socket Datagram_Adapter Stream_Copy Sponge_Socket Sponge_Refinement
    Benchmark Packet_Dump Programs C_Numbers Command_Line Tools
begin

text \<open>
  A verification of sponge, a user-space TCP in C++ (\<open>src/libsponge\<close>, \<open>src/apps\<close>).

  \<^bold>\<open>The program.\<close> A \<open>TCPConnection\<close> joins a \<open>TCPReceiver\<close> and a \<open>TCPSender\<close>. The receiver unwraps the
  32-bit sequence number of a segment to a 64-bit position and pushes the payload into a
  \<open>StreamReassembler\<close>, which puts the bytes in order into a \<open>ByteStream\<close>, a ring buffer from which the
  application reads. The sender cuts the outbound \<open>ByteStream\<close> into segments, keeps the outstanding ones in
  a \<open>TCPSendingWindow\<close> and sends them again when they time out. The connection looks at the state of the
  two halves (\<open>TCPState\<close>), adds acknowledgments, answers resets, lingers and gives up. Segments travel
  through an adapter: in the payload of UDP datagrams (\<open>TCPOverUDPSocketAdapter\<close>), in IPv4 datagrams
  through a TUN device (\<open>TCPOverIPv4OverTunFdAdapter\<close>), or through either with random losses
  (\<open>LossyFdAdapter\<close>). They are written and read by \<open>NetUnparser\<close> and \<open>NetParser\<close> over \<open>Buffer\<close>s, with the
  \<open>InternetChecksum\<close>. \<open>TCPSpongeSocket\<close> runs a connection and an adapter in the rules of an \<open>EventLoop\<close>
  and talks to the application through a local socket; \<open>bidirectional_stream_copy\<close> runs another event
  loop between the standard streams and such a socket.

  \<^bold>\<open>Theories and sources.\<close> Every record field and definition has the name of the source with a prefix for
  its class; an exception is a value \<open>Inl e\<close> of the result type of \<open>Prelude\<close>.
  \<^item> \<open>Prelude\<close>: results, exceptions, \<open>std::vector\<close> and sizes, and the lemmas that all components share.
  \<^item> \<open>Wrapping_Integers\<close>: \<open>wrapping_integers.hh/.cc\<close>.
  \<^item> \<open>Byte_Stream\<close>: \<open>byte_stream.hh/.cc\<close>; the locale \<open>byte_fifo\<close> is the contract of a bounded queue, and
    the ring buffer is its interpretation \<open>ring\<close>.
  \<^item> \<open>Stream_Reassembler\<close>: \<open>stream_reassembler.hh/.cc\<close>.
  \<^item> \<open>Buffer\<close>, \<open>Parser\<close>, \<open>Internet_Checksum\<close>: \<open>util/buffer\<close>, \<open>util/parser\<close>, and \<open>InternetChecksum\<close> of \<open>util/util.cc\<close>.
  \<^item> \<open>TCP_Segment\<close>: \<open>tcp_header\<close> and \<open>tcp_segment\<close>; \<open>Segment_Stream\<close> says which segments belong to a stream.
  \<^item> \<open>TCP_Receiver\<close>, \<open>TCP_Sending_Window\<close>, \<open>TCP_Sender\<close>, \<open>TCP_Config\<close>, \<open>TCP_State\<close>, \<open>TCP_Connection\<close>: the
    files of the same names.
  \<^item> \<open>TCP_Handshake\<close> and \<open>TCP_Network\<close>: two connections that talk to each other; no code of their own.
  \<^item> \<open>IPv4\<close>: \<open>ipv4_header\<close> and \<open>ipv4_datagram\<close>; \<open>Text_Format\<close>: the \<open>to_string\<close> and \<open>summary\<close> operations;
    \<open>Address\<close>: \<open>util/address\<close>.
  \<^item> \<open>Adapters\<close>: \<open>fd_adapter\<close>, \<open>lossy_fd_adapter\<close>, \<open>tcp_over_ip\<close> and \<open>tuntap_adapter\<close>; the locales
    \<open>segment_adapter\<close> and \<open>lossless_adapter\<close> are what the owner of an adapter relies on, and \<open>rated_adapter\<close> what
    the lossy wrapper relies on.
  \<^item> \<open>File_Descriptor\<close>, \<open>Socket\<close>: \<open>util/file_descriptor\<close>, \<open>SystemCall\<close>, \<open>util/socket\<close>, \<open>util/tun\<close>. The
    operating system is a parameter, a record with a function for each system call.
  \<^item> \<open>Datagram_Adapter\<close>: the four adapters with their descriptors; the locale \<open>datagram_adapter\<close> is what
    the event loop relies on, and is interpreted on each of them.
  \<^item> \<open>Event_Loop\<close>: \<open>util/eventloop\<close>, over any state that the callbacks share; the locales \<open>event_rules\<close> and
    \<open>guarded_rules\<close> are the contract of a set of rules.
  \<^item> \<open>Stream_Copy\<close>: \<open>apps/bidirectional_stream_copy.cc\<close>; \<open>Sponge_Socket\<close>: \<open>tcp_sponge_socket.hh/.cc\<close>;
    \<open>Sponge_Refinement\<close>: its rules as guarded rules of the event loop.
  \<^item> \<open>Benchmark\<close>: \<open>apps/tcp_benchmark.cc\<close>, a client of \<open>TCP_Network\<close>; \<open>Packet_Dump\<close>: \<open>hexdump\<close> of \<open>util/util.cc\<close>,
    and what \<open>apps/udp_tcpdump.cc\<close> and \<open>apps/tun.cc\<close> do with one packet; \<open>Programs\<close>: \<open>apps/webget.cc\<close> and
    \<open>apps/tcp_native.cc\<close>.
  \<^item> \<open>Command_Line\<close>: \<open>apps/tcp_udp.cc\<close> and \<open>apps/tcp_ipv4.cc\<close>; the locales \<open>option_parser\<close> and \<open>option_reader\<close>
    are what their two loops over the arguments have in common. \<open>C_Numbers\<close>: \<open>strtol\<close>, \<open>strtof\<close> and the
    arithmetic of a \<open>float\<close>, which these programs use. \<open>Tools\<close>: \<open>main\<close> of \<open>udp_tcpdump.cc\<close>, \<open>tun.cc\<close> and
    \<open>tcp_benchmark.cc\<close>, with the capture library as a parameter.

  \<^bold>\<open>What is shown.\<close>
  \<^item> For two connections over a network that loses, repeats, delays and reorders segments: what one
    application reads is a prefix of what the other wrote, and no operation throws. The handshake
    establishes both sides, with nothing in flight. The benchmark program is such a network; it is safe,
    but it waits for ever once the receiving side is in FIN_WAIT_2 and the sender's window is full of data.
  \<^item> For one connection: the flags of its life cycle agree in every reachable state, it gives up after
    eight retransmissions, it lingers, and a reset ends it.
  \<^item> For each half: in-order delivery, acknowledgments and windows of the receiver; the sender sends only
    its stream (unless it is acknowledged at its initial sequence number, when it may repeat its FIN),
    fills the window and repeats the oldest segment. The receiver takes exactly the bytes below the end of
    its window, but acknowledges an in-order segment beyond it. The reassembler and the ring buffer
    refine a stream and a queue.
  \<^item> For the formats: parsing inverts serialising for segments and datagrams, the checksum is the sum of
    RFC 1071 however the data is cut, the filters of the adapters are exact, and the lossy adapter drops
    at exactly the configured rate and delivers a subsequence.
  \<^item> For the event loops: the copy is faithful in both directions (only bytes that arrive after a stream was
    ended are refused, and nothing that was buffered is lost), and neither loop is mistaken for a busy wait. A socket refines an endpoint of the network: its rules only apply operations of the
    connection, and the bytes of the owner are those that the connection sends and delivers.
  \<^item> For the programs: \<open>webget\<close> sends its requests and prints the whole streams of both servers, \<open>hexdump\<close>
    has its layout, and the packets are known for which the packet filter fails; it prints all others in
    order. What each argument of \<open>tcp_udp\<close> and \<open>tcp_ipv4\<close> changes is known, nothing is read outside \<open>argv\<close>, and a
    loss rate is accurate or undefined.
  \<^item> Where the code does not do what it says, a theorem shows the behaviour that it has.

  \<^bold>\<open>Bounds.\<close> \<open>size_t\<close> is 64 bits and \<open>int\<close> 32; addresses have the little-endian layout of \<open>sockaddr_in\<close>. The
  theorems on streams assume fewer than \<open>2^31 - 2\<close> bytes in each direction, for which a sequence number
  cannot be mistaken; those on packets assume that the packet fits a datagram. A \<open>float\<close> is rounded to nearest. Loops are functions with
  a termination proof, except for the event loops and the loops of the programs that wait for a peer: they
  may run forever and are partial functions into an option type. Concrete runs use capacities of one to
  four bytes, so that they can be evaluated; the theorems that they are instances of are for any capacity.

  \<^bold>\<open>Reading past the end.\<close> \<open>StreamReassembler::_update_output\<close> reads \<open>_count\<close> one element past its end when the
  window is full, which is undefined behaviour in C++. The model reads an arbitrary word there
  (\<open>sr_drain\<close>), and \<open>update_output_past_end\<close> shows that the result does not depend on it; the theorems that
  say that nothing throws do not speak about this read. A \<open>ByteStream\<close> of capacity \<open>2^64 - 1\<close> would have a ring of
  no slots; the theorems assume smaller capacities.

  \<^bold>\<open>Not modelled.\<close> What the library prints, with the exceptions that printing an address could throw;
  starting and joining the thread of a socket (its body is modelled, with an exception that leaves it as its result, and its abort flag is a parameter); seeding a random generator.
  In \<open>TCP_Network\<close> an application does not go on writing to a connection that was reset or has given up.
\<close>

end
